(* ===== verification/Proxy_Prelude.thy ===== *)
theory Proxy_Prelude
  imports Main "HOL-Library.Word" "HOL-Library.Multiset"
begin

text \<open>
  Shared vocabulary of the development: the names of the Rust machine types, the outcome of
  a Rust call (a value, an error, a panic, or a future that is suspended), \<^verbatim>\<open>std::io::Error\<close>,
  and the list, word and association-list lemmas the component theories rely on.

  Rust's \<^verbatim>\<open>u8\<close> is Isabelle's \<^typ>\<open>char\<close> (exactly eight bits), so that a \<^verbatim>\<open>Vec<u8>\<close>, a
  \<^verbatim>\<open>Bytes\<close> and the UTF-8 contents of a \<^verbatim>\<open>String\<close> are all lists of \<^typ>\<open>char\<close>, and string
  literals can be written as such.
\<close>

named_theorems stream_simps "what a write does on a connection that takes it"
named_theorems sel_simps "how a selector is built from its configuration"

type_synonym bytes = "char list"
type_synonym u16 = "16 word"
type_synonym u32 = "32 word"
type_synonym i32 = "32 word"
type_synonym u64 = "64 word"
type_synonym i64 = "64 word"
type_synonym usize = "64 word"

section \<open>Outcomes of Rust calls\<close>

text \<open>
  \<open>Ok\<close> and \<open>Err\<close> are the constructors of \<^verbatim>\<open>Result\<close>. \<open>Panic\<close> is an unwinding panic
  (index out of range, division by zero, empty random range, capacity overflow).
  \<open>Pending\<close> is an \<^verbatim>\<open>.await\<close> that only another task can complete.
\<close>

datatype ('a, 'e) outcome = Ok 'a | Err 'e | Panic | Pending

fun map_err :: "('e \<Rightarrow> 'f) \<Rightarrow> ('a, 'e) outcome \<Rightarrow> ('a, 'f) outcome" where
  "map_err f (Ok a) = Ok a"
| "map_err f (Err e) = Err (f e)"
| "map_err f Panic = Panic"
| "map_err f Pending = Pending"

fun is_ok :: "('a, 'e) outcome \<Rightarrow> bool" where
  "is_ok (Ok a) = True"
| "is_ok (Err e) = False"
| "is_ok Panic = False"
| "is_ok Pending = False"

text \<open>A call that finished, with a value or an error, as opposed to panicking or blocking.\<close>

fun returned :: "('a, 'e) outcome \<Rightarrow> bool" where
  "returned (Ok a) = True"
| "returned (Err e) = True"
| "returned Panic = False"
| "returned Pending = False"

lemma map_err_eq_Ok [simp]: "map_err f r = Ok a \<longleftrightarrow> r = Ok a"
  by (cases r) auto

lemma returned_map_err [simp]: "returned (map_err f r) = returned r"
  by (cases r) auto

lemma map_outcome_Ok_iff: "map_outcome f g r = Ok y \<longleftrightarrow> (\<exists>x. r = Ok x \<and> y = f x)"
  by (cases r) auto

datatype io_kind = UnexpectedEof | ConnectionReset | InvalidData | TimedOut | OtherKind string

datatype io_error = IoError (err_kind: io_kind) (err_msg: string)

section \<open>Rust limits\<close>

text \<open>The largest \<^verbatim>\<open>usize\<close> and the largest allocation (\<^verbatim>\<open>isize::MAX\<close>) on a 64-bit target.\<close>

definition usize_max :: nat where "usize_max = 18446744073709551615"
definition isize_max :: nat where "isize_max = 9223372036854775807"
definition u16_max :: nat where "u16_max = 65535"

lemma isize_max_le_usize_max: "isize_max \<le> usize_max"
  by (simp add: isize_max_def usize_max_def)

section \<open>Lists\<close>

lemma takeWhile_neq_append [simp]:
  "x \<notin> set xs \<Longrightarrow> takeWhile (\<lambda>c. c \<noteq> x) (xs @ ys) = xs @ takeWhile (\<lambda>c. c \<noteq> x) ys"
  by (induction xs) auto

lemma dropWhile_neq_append [simp]:
  "x \<notin> set xs \<Longrightarrow> dropWhile (\<lambda>c. c \<noteq> x) (xs @ ys) = dropWhile (\<lambda>c. c \<noteq> x) ys"
  by (induction xs) auto

lemma sum_list_update_int:
  "i < length xs \<Longrightarrow> sum_list (xs[i := v]) = sum_list xs - xs ! i + (v :: int)"
  by (induction xs arbitrary: i) (auto split: nat.splits)

lemma length_filter_update:
  "i < length xs \<Longrightarrow>
    length (filter P (xs[i := v])) + (if P (xs ! i) then 1 else 0) =
    length (filter P xs) + (if P v then 1 else 0)"
proof (induction xs arbitrary: i)
  case (Cons x xs)
  show ?case using Cons.prems Cons.IH [of "i - 1"] by (cases i) simp_all
qed simp

section \<open>Machine words\<close>

lemma unat_lt_64: "unat (w :: 64 word) < 2 ^ LENGTH(64)"
  by (rule unsigned_less)

lemma unat_le_64: "unat (w :: 64 word) \<le> usize_max"
  using unat_lt_64 [of w] by (simp add: usize_max_def)

lemma unat_of_nat_64: "n \<le> usize_max \<Longrightarrow> unat (of_nat n :: 64 word) = n"
  by (simp add: unat_of_nat usize_max_def)

lemma unat_of_nat_16: "n \<le> u16_max \<Longrightarrow> unat (of_nat n :: 16 word) = n"
  by (simp add: unat_of_nat u16_max_def)

lemma unat_Suc_64: "unat (w :: 64 word) < usize_max \<Longrightarrow> unat (w + 1) = Suc (unat w)"
  by (simp add: unat_word_ariths usize_max_def)

lemma unat_pred_64: "0 < unat (w :: 64 word) \<Longrightarrow> unat (w - 1) = unat w - 1"
  by (metis unat_minus_one unat_eq_zero less_numeral_extra(3))

text \<open>Signed 64-bit counters: addition of small amounts does not wrap.\<close>

lemma sint_add_64:
  "\<lbrakk> - (2 ^ 63) \<le> sint (a :: 64 word) + sint b; sint a + sint b < 2 ^ 63 \<rbrakk> \<Longrightarrow>
    sint (a + b) = sint a + sint b"
  by (simp add: sint_word_ariths signed_take_bit_int_eq_self)

lemma sint_sub_64:
  "\<lbrakk> - (2 ^ 63) \<le> sint (a :: 64 word) - sint b; sint a - sint b < 2 ^ 63 \<rbrakk> \<Longrightarrow>
    sint (a - b) = sint a - sint b"
  by (simp add: sint_word_ariths signed_take_bit_int_eq_self)

lemma sint_one_64 [simp]: "sint (1 :: 64 word) = 1"
  by simp

section \<open>\<^verbatim>\<open>HashMap<String, Vec<String>>\<close>\<close>

text \<open>
  A header map is an association list with distinct keys. Rust's \<^verbatim>\<open>HashMap\<close> iterates in an
  arbitrary order: every definition that iterates takes the order as a parameter \<open>ho\<close>, and
  \<open>hash_order ho\<close> says that an iteration visits exactly the entries of the map, once each.
\<close>

type_synonym headers = "(string \<times> string list) list"

definition hash_order :: "(headers \<Rightarrow> headers) \<Rightarrow> bool" where
  "hash_order ho \<longleftrightarrow> (\<forall>h. mset (ho h) = mset h)"

text \<open>\<^verbatim>\<open>entry(k).or_default().push(v)\<close>\<close>

fun hm_push :: "string \<Rightarrow> string \<Rightarrow> headers \<Rightarrow> headers" where
  "hm_push k v [] = [(k, [v])]"
| "hm_push k v ((k', vs) # h) = (if k = k' then (k', vs @ [v]) # h else (k', vs) # hm_push k v h)"

lemma hash_order_id: "hash_order (\<lambda>h. h)"
  by (simp add: hash_order_def)

lemma hash_order_rev: "hash_order rev"
  by (simp add: hash_order_def)

lemma hash_order_set: "hash_order ho \<Longrightarrow> set (ho h) = set h"
  by (metis hash_order_def set_mset_mset)

lemma hash_order_keys:
  assumes "hash_order ho" shows "mset (map fst (ho h)) = mset (map fst h)"
  using assms by (simp add: hash_order_def mset_map)

lemma hash_order_distinct:
  assumes "hash_order ho" shows "distinct (map fst (ho h)) = distinct (map fst h)"
  using hash_order_keys [OF assms, of h] mset_eq_imp_distinct_iff by blast

lemma hash_order_map_of:
  assumes "hash_order ho" and "distinct (map fst h)"
  shows "map_of (ho h) = map_of h"
  using assms by (metis hash_order_distinct hash_order_set map_of_inject_set)

lemma hm_push_lookup:
  "map_of (hm_push k v h) = (map_of h)(k \<mapsto> (case map_of h k of None \<Rightarrow> [v] | Some vs \<Rightarrow> vs @ [v]))"
  by (induction k v h rule: hm_push.induct) (auto simp: fun_eq_iff)

lemma hm_push_keys: "fst ` set (hm_push k v h) = insert k (fst ` set h)"
  by (induction k v h rule: hm_push.induct) auto

lemma hm_push_distinct: "distinct (map fst h) \<Longrightarrow> distinct (map fst (hm_push k v h))"
proof (induction k v h rule: hm_push.induct)
  case (2 k v k' vs h)
  then show ?case using hm_push_keys [of k v h] by (auto simp: image_iff)
qed simp

lemma hm_push_new: "k \<notin> fst ` set h \<Longrightarrow> hm_push k v h = h @ [(k, [v])]"
  by (induction k v h rule: hm_push.induct) auto

lemma hm_push_last: "k \<notin> fst ` set h \<Longrightarrow> hm_push k v (h @ [(k, vs)]) = h @ [(k, vs @ [v])]"
  by (induction k v h rule: hm_push.induct) auto

end
