(* ===== verification/Rust_Strings.thy ===== *)
theory Rust_Strings
  imports Proxy_Prelude
begin

text \<open>
  The part of Rust's \<^verbatim>\<open>str\<close> that the proxy uses, on the UTF-8 bytes of the string: validation and
  lossy decoding, ASCII case folding, splitting and trimming (Unicode white space included),
  decimal printing and the \<^verbatim>\<open>FromStr\<close> of the unsigned integers. The lemmas are the ones the
  framing theories need: what trimming leaves alone, and that parsing inverts printing.
\<close>

abbreviation bv :: "char \<Rightarrow> nat" where "bv c \<equiv> of_char c"

abbreviation CR :: char where "CR \<equiv> CHR 0x0D"
abbreviation LF :: char where "LF \<equiv> CHR 0x0A"
abbreviation crlf :: string where "crlf \<equiv> [CR, LF]"

section \<open>UTF-8\<close>

definition utf8_cont :: "char \<Rightarrow> bool" where
  "utf8_cont c \<longleftrightarrow> 0x80 \<le> bv c \<and> bv c \<le> 0xBF"

definition utf8_second3 :: "char \<Rightarrow> char \<Rightarrow> bool" where
  "utf8_second3 a b \<longleftrightarrow>
     (if bv a = 0xE0 then 0xA0 \<le> bv b \<and> bv b \<le> 0xBF
      else if bv a = 0xED then 0x80 \<le> bv b \<and> bv b \<le> 0x9F
      else 0x80 \<le> bv b \<and> bv b \<le> 0xBF)"

definition utf8_second4 :: "char \<Rightarrow> char \<Rightarrow> bool" where
  "utf8_second4 a b \<longleftrightarrow>
     (if bv a = 0xF0 then 0x90 \<le> bv b \<and> bv b \<le> 0xBF
      else if bv a = 0xF4 then 0x80 \<le> bv b \<and> bv b \<le> 0x8F
      else 0x80 \<le> bv b \<and> bv b \<le> 0xBF)"

text \<open>
  Validity and length of the sequence at the head of a non-empty byte string; for an invalid
  one the length of its maximal invalid subpart, which \<^verbatim>\<open>from_utf8_lossy\<close> replaces as a unit.
\<close>

fun utf8_scan :: "char \<Rightarrow> bytes \<Rightarrow> bool \<times> nat" where
  "utf8_scan a r =
     (if bv a < 0x80 then (True, 1)
      else if 0xC2 \<le> bv a \<and> bv a \<le> 0xDF then
        (case r of b # _ \<Rightarrow> if utf8_cont b then (True, 2) else (False, 1) | [] \<Rightarrow> (False, 1))
      else if 0xE0 \<le> bv a \<and> bv a \<le> 0xEF then
        (case r of
           b # r2 \<Rightarrow> if utf8_second3 a b
             then (case r2 of c # _ \<Rightarrow> if utf8_cont c then (True, 3) else (False, 2) | [] \<Rightarrow> (False, 2))
             else (False, 1)
         | [] \<Rightarrow> (False, 1))
      else if 0xF0 \<le> bv a \<and> bv a \<le> 0xF4 then
        (case r of
           b # r2 \<Rightarrow> if utf8_second4 a b
             then (case r2 of
                     c # r3 \<Rightarrow> if utf8_cont c
                       then (case r3 of d # _ \<Rightarrow> if utf8_cont d then (True, 4) else (False, 3) | [] \<Rightarrow> (False, 3))
                       else (False, 2)
                   | [] \<Rightarrow> (False, 2))
             else (False, 1)
         | [] \<Rightarrow> (False, 1))
      else (False, 1))"

declare utf8_scan.simps [simp del]

fun utf8_valid :: "bytes \<Rightarrow> bool" where
  "utf8_valid [] = True"
| "utf8_valid (a # r) = (case utf8_scan a r of (ok, n) \<Rightarrow> ok \<and> utf8_valid (drop (n - 1) r))"

definition replacement_char :: bytes where
  "replacement_char = [CHR 0xEF, CHR 0xBF, CHR 0xBD]"

fun from_utf8_lossy :: "bytes \<Rightarrow> string" where
  "from_utf8_lossy [] = []"
| "from_utf8_lossy (a # r) =
     (case utf8_scan a r of
        (ok, n) \<Rightarrow> (if ok then take n (a # r) else replacement_char) @ from_utf8_lossy (drop (n - 1) r))"

section \<open>Case folding, splitting, trimming\<close>

definition ascii_lower :: "char \<Rightarrow> char" where
  "ascii_lower c = (if 65 \<le> bv c \<and> bv c \<le> 90 then char_of (bv c + 32) else c)"

definition to_ascii_lowercase :: "string \<Rightarrow> string" where
  "to_ascii_lowercase s = map ascii_lower s"

definition eq_ignore_ascii_case :: "string \<Rightarrow> string \<Rightarrow> bool" where
  "eq_ignore_ascii_case a b \<longleftrightarrow> to_ascii_lowercase a = to_ascii_lowercase b"

fun split_char :: "char \<Rightarrow> string \<Rightarrow> string list" where
  "split_char c [] = [[]]"
| "split_char c (x # xs) =
     (if x = c then [] # split_char c xs
      else (case split_char c xs of [] \<Rightarrow> [[x]] | y # ys \<Rightarrow> (x # y) # ys))"

fun split_once :: "char \<Rightarrow> string \<Rightarrow> (string \<times> string) option" where
  "split_once c [] = None"
| "split_once c (x # xs) =
     (if x = c then Some ([], xs) else map_option (\<lambda>(a, b). (x # a, b)) (split_once c xs))"

fun strip_prefix :: "string \<Rightarrow> string \<Rightarrow> string option" where
  "strip_prefix [] s = Some s"
| "strip_prefix (p # ps) [] = None"
| "strip_prefix (p # ps) (c # s) = (if p = c then strip_prefix ps s else None)"

text \<open>The UTF-8 encodings of the characters with the Unicode property \<^verbatim>\<open>White_Space\<close>.\<close>

definition ws_seqs :: "bytes list" where
  "ws_seqs =
    [[CHR 0x09], [CHR 0x0A], [CHR 0x0B], [CHR 0x0C], [CHR 0x0D], [CHR 0x20],
     [CHR 0xC2, CHR 0x85], [CHR 0xC2, CHR 0xA0], [CHR 0xE1, CHR 0x9A, CHR 0x80],
     [CHR 0xE2, CHR 0x80, CHR 0x80], [CHR 0xE2, CHR 0x80, CHR 0x81], [CHR 0xE2, CHR 0x80, CHR 0x82],
     [CHR 0xE2, CHR 0x80, CHR 0x83], [CHR 0xE2, CHR 0x80, CHR 0x84], [CHR 0xE2, CHR 0x80, CHR 0x85],
     [CHR 0xE2, CHR 0x80, CHR 0x86], [CHR 0xE2, CHR 0x80, CHR 0x87], [CHR 0xE2, CHR 0x80, CHR 0x88],
     [CHR 0xE2, CHR 0x80, CHR 0x89], [CHR 0xE2, CHR 0x80, CHR 0x8A], [CHR 0xE2, CHR 0x80, CHR 0xA8],
     [CHR 0xE2, CHR 0x80, CHR 0xA9], [CHR 0xE2, CHR 0x80, CHR 0xAF], [CHR 0xE2, CHR 0x81, CHR 0x9F],
     [CHR 0xE3, CHR 0x80, CHR 0x80]]"

definition strip_one :: "bytes list \<Rightarrow> bytes \<Rightarrow> bytes option" where
  "strip_one ws s =
     (case filter (\<lambda>w. w \<noteq> [] \<and> take (length w) s = w) ws of
        [] \<Rightarrow> None | w # _ \<Rightarrow> Some (drop (length w) s))"

lemma strip_one_SomeE:
  assumes "strip_one ws s = Some r"
  obtains w where "w \<in> set ws" "w \<noteq> []" "take (length w) s = w" "r = drop (length w) s"
proof (cases "filter (\<lambda>w. w \<noteq> [] \<and> take (length w) s = w) ws")
  case (Cons w l)
  then have "w \<in> set (filter (\<lambda>w. w \<noteq> [] \<and> take (length w) s = w) ws)" by (metis list.set_intros(1))
  moreover have "r = drop (length w) s" using assms Cons by (simp add: strip_one_def)
  ultimately show ?thesis using that [of w] by simp
qed (use assms in \<open>simp add: strip_one_def\<close>)

lemma strip_one_shorter: "strip_one ws s = Some r \<Longrightarrow> length r < length s"
  by (erule strip_one_SomeE) (cases s, auto)

function strip_all :: "bytes list \<Rightarrow> bytes \<Rightarrow> bytes" where
  "strip_all ws s = (case strip_one ws s of None \<Rightarrow> s | Some r \<Rightarrow> strip_all ws r)"
  by pat_completeness auto
termination
  by (relation "measure (\<lambda>(ws, s). length s)") (auto dest: strip_one_shorter)

declare strip_all.simps [simp del]

definition trim_start :: "string \<Rightarrow> string" where
  "trim_start s = strip_all ws_seqs s"

definition trim_end :: "string \<Rightarrow> string" where
  "trim_end s = rev (strip_all (map rev ws_seqs) (rev s))"

definition trim :: "string \<Rightarrow> string" where
  "trim s = trim_end (trim_start s)"

text \<open>\<^verbatim>\<open>trim_end_matches(['\r', '\n'])\<close>\<close>

definition trim_end_crlf :: "string \<Rightarrow> string" where
  "trim_end_crlf s = rev (dropWhile (\<lambda>c. c = CR \<or> c = LF) (rev s))"

function split_ws_from :: "bytes \<Rightarrow> bytes \<Rightarrow> string list" where
  "split_ws_from cur [] = (if cur = [] then [] else [cur])"
| "split_ws_from cur (c # s) =
     (case strip_one ws_seqs (c # s) of
        Some r \<Rightarrow> (if cur = [] then [] else [cur]) @ split_ws_from [] r
      | None \<Rightarrow> split_ws_from (cur @ [c]) s)"
  by pat_completeness auto
termination
  by (relation "measure (\<lambda>(cur, s). length s)") (auto dest!: strip_one_shorter)

definition split_whitespace :: "string \<Rightarrow> string list" where
  "split_whitespace s = split_ws_from [] s"

section \<open>Decimal integers\<close>

fun show_nat :: "nat \<Rightarrow> string" where
  "show_nat n = (if n < 10 then [char_of (48 + n)] else show_nat (n div 10) @ [char_of (48 + n mod 10)])"

declare show_nat.simps [simp del]

definition is_digit :: "char \<Rightarrow> bool" where
  "is_digit c \<longleftrightarrow> 48 \<le> bv c \<and> bv c \<le> 57"

definition digits_value :: "string \<Rightarrow> nat" where
  "digits_value s = foldl (\<lambda>a c. 10 * a + (bv c - 48)) 0 s"

text \<open>
  \<^verbatim>\<open>str::parse\<close> at an unsigned type whose largest value is \<open>m\<close>: an optional \<^verbatim>\<open>+\<close>, then at
  least one digit and nothing else, and no overflow.
\<close>

definition parse_uint :: "nat \<Rightarrow> string \<Rightarrow> nat option" where
  "parse_uint m s =
     (let ds = (case s of [] \<Rightarrow> [] | c # r \<Rightarrow> if c = CHR ''+'' then r else s)
      in if ds = [] \<or> \<not> list_all is_digit ds then None
         else if digits_value ds \<le> m then Some (digits_value ds) else None)"

section \<open>Facts about UTF-8\<close>

lemma utf8_scan_ascii: "bv a < 128 \<Longrightarrow> utf8_scan a r = (True, 1)"
  by (simp add: utf8_scan.simps)

lemma utf8_scan_len: "1 \<le> snd (utf8_scan a r)"
  by (simp add: utf8_scan.simps split: list.split)

lemma utf8_scan_fits: "utf8_scan a r = (True, n) \<Longrightarrow> n - 1 \<le> length r"
  by (auto simp: utf8_scan.simps split: list.splits if_splits)

lemma utf8_scan_append: "utf8_scan a r = (True, n) \<Longrightarrow> utf8_scan a (r @ t) = (True, n)"
  by (auto simp: utf8_scan.simps split: list.splits if_splits)

lemma utf8_valid_ascii: "\<forall>c\<in>set s. bv c < 128 \<Longrightarrow> utf8_valid s"
  by (induction s) (auto simp: utf8_scan_ascii)

lemma utf8_valid_append: "utf8_valid s \<Longrightarrow> utf8_valid t \<Longrightarrow> utf8_valid (s @ t)"
proof (induction s rule: utf8_valid.induct)
  case (2 a r)
  obtain n where scan: "utf8_scan a r = (True, n)"
    and rest: "utf8_valid (drop (n - 1) r)"
    using "2.prems"(1) by (auto split: prod.splits)
  have "utf8_valid (drop (n - 1) r @ t)"
    using "2.IH" [OF scan [symmetric]] rest "2.prems"(2) by auto
  then show ?case
    using utf8_scan_append [OF scan, of t] utf8_scan_fits [OF scan] by simp
qed simp

lemma from_utf8_lossy_valid: "utf8_valid s \<Longrightarrow> from_utf8_lossy s = s"
proof (induction s rule: from_utf8_lossy.induct)
  case (2 a r)
  obtain n where scan: "utf8_scan a r = (True, n)"
    and rest: "utf8_valid (drop (n - 1) r)"
    using "2.prems" by (auto split: prod.splits)
  have n: "1 \<le> n" using utf8_scan_len [of a r] scan by simp
  have "from_utf8_lossy (drop (n - 1) r) = drop (n - 1) r"
    using "2.IH" [OF scan [symmetric]] rest by simp
  then show ?case using scan n by (cases n) simp_all
qed simp

section \<open>Facts about splitting and trimming\<close>

lemma split_char_nonempty [simp]: "split_char c s \<noteq> []"
  by (cases s) (auto split: list.split)

lemma split_once_none: "split_once c s = None \<longleftrightarrow> c \<notin> set s"
  by (induction s) (auto split: prod.splits)

lemma split_once_append: "c \<notin> set a \<Longrightarrow> split_once c (a @ c # b) = Some (a, b)"
  by (induction a) auto

lemma strip_prefix_append [simp]: "strip_prefix p (p @ s) = Some s"
  by (induction p) auto

lemma strip_prefix_Some: "strip_prefix p s = Some r \<longleftrightarrow> s = p @ r"
  by (induction p s rule: strip_prefix.induct) auto

lemma strip_one_none_hd: "\<forall>w\<in>set ws. w \<noteq> [] \<longrightarrow> hd w \<noteq> c \<Longrightarrow> strip_one ws (c # s) = None"
proof -
  assume *: "\<forall>w\<in>set ws. w \<noteq> [] \<longrightarrow> hd w \<noteq> c"
  have "filter (\<lambda>w. w \<noteq> [] \<and> take (length w) (c # s) = w) ws = []"
  proof (rule filter_False, intro ballI notI)
    fix w assume w: "w \<in> set ws" "w \<noteq> [] \<and> take (length w) (c # s) = w"
    then obtain x w' where xw: "w = x # w'" by (meson list.exhaust)
    then have "x = c" using w(2) by simp
    with * w(1) xw show False by auto
  qed
  then show ?thesis by (simp add: strip_one_def)
qed

text \<open>Printable ASCII other than the space: no such byte begins or ends white space.\<close>

definition plain :: "char \<Rightarrow> bool" where
  "plain c \<longleftrightarrow> 33 \<le> bv c \<and> bv c < 127"

lemma ws_heads: "w \<in> set ws_seqs \<Longrightarrow> w \<noteq> [] \<and> \<not> plain (hd w)"
  by (auto simp: ws_seqs_def plain_def)

lemma ws_lasts: "w \<in> set (map rev ws_seqs) \<Longrightarrow> w \<noteq> [] \<and> \<not> plain (hd w)"
  by (auto simp: ws_seqs_def plain_def)

lemma strip_one_plain:
  assumes "plain c"
  shows "strip_one ws_seqs (c # s) = None" and "strip_one (map rev ws_seqs) (c # s) = None"
  by (rule strip_one_none_hd, use assms ws_heads in blast)
     (rule strip_one_none_hd, use assms ws_lasts in blast)

lemma strip_one_Nil [simp]: "strip_one ws [] = None"
  by (cases "strip_one ws []") (auto dest: strip_one_shorter)

text \<open>Strings that \<^verbatim>\<open>trim\<close> leaves alone.\<close>

definition trimmed :: "string \<Rightarrow> bool" where
  "trimmed s \<longleftrightarrow> strip_one ws_seqs s = None \<and> strip_one (map rev ws_seqs) (rev s) = None"

lemma trim_trimmed: "trimmed s \<Longrightarrow> trim s = s"
  by (simp add: trimmed_def trim_def trim_start_def trim_end_def strip_all.simps)

lemma strip_one_space: "strip_one ws_seqs (CHR '' '' # s) = Some s"
  by (simp add: strip_one_def ws_seqs_def)

lemma trim_space_trimmed: "trimmed s \<Longrightarrow> trim (CHR '' '' # s) = s"
  using trim_trimmed [of s]
  by (simp add: trim_def trim_start_def strip_all.simps [of ws_seqs "CHR '' '' # s"] strip_one_space)

lemma trimmed_plain: "list_all plain s \<Longrightarrow> trimmed s"
proof (cases s)
  case (Cons c r)
  assume *: "list_all plain s"
  obtain d q where d: "rev s = d # q" using Cons by (cases "rev s") auto
  then have "d \<in> set s" by (metis list.set_intros(1) set_rev)
  with * have "plain d" by (simp add: list_all_iff)
  with * Cons d show ?thesis by (simp add: trimmed_def strip_one_plain)
qed (simp add: trimmed_def)

lemma trimmed_last: "trimmed s \<Longrightarrow> s \<noteq> [] \<Longrightarrow> last s \<noteq> CR \<and> last s \<noteq> LF"
proof -
  assume t: "trimmed s" and ne: "s \<noteq> []"
  obtain d q where d: "rev s = d # q" using ne by (cases "rev s") auto
  have "strip_one (map rev ws_seqs) (x # q) \<noteq> None" if "x = CR \<or> x = LF" for x
    using that by (auto simp: strip_one_def ws_seqs_def)
  with t d have "d \<noteq> CR \<and> d \<noteq> LF" by (metis trimmed_def)
  moreover have "last s = d" using d by (metis last_rev list.sel(1) rev_rev_ident ne rev_is_Nil_conv)
  ultimately show ?thesis by simp
qed

lemma trim_end_crlf_line: "s = [] \<or> (last s \<noteq> CR \<and> last s \<noteq> LF) \<Longrightarrow> trim_end_crlf (s @ crlf) = s"
  by (cases s rule: rev_cases) (auto simp: trim_end_crlf_def)

lemma split_ws_plain:
  "list_all plain t \<Longrightarrow> cur @ t \<noteq> [] \<Longrightarrow>
    split_ws_from cur (t @ CHR '' '' # r) = (cur @ t) # split_ws_from [] r"
proof (induction t arbitrary: cur)
  case Nil
  then show ?case by (simp add: strip_one_space)
next
  case (Cons c t)
  then show ?case using Cons.IH [of "cur @ [c]"] by (simp add: strip_one_plain)
qed

lemma eq_ignore_ascii_case_refl [simp]: "eq_ignore_ascii_case s s"
  by (simp add: eq_ignore_ascii_case_def)

section \<open>Facts about decimal integers\<close>

lemma bv_digit: "d < 10 \<Longrightarrow> bv (char_of (48 + d)) = 48 + d"
  by simp

lemma show_nat_nonempty [simp]: "show_nat n \<noteq> []"
  by (subst show_nat.simps) simp

lemma show_nat_digits: "list_all is_digit (show_nat n)"
proof (induction n rule: show_nat.induct)
  case (1 n)
  have "is_digit (char_of (48 + d))" if "d < 10" for d :: nat
    using that by (simp add: is_digit_def)
  with "1" show ?case by (subst show_nat.simps) simp
qed

lemma digits_value_snoc: "digits_value (s @ [c]) = 10 * digits_value s + (bv c - 48)"
  by (simp add: digits_value_def)

lemma digits_value_show_nat: "digits_value (show_nat n) = n"
proof (induction n rule: show_nat.induct)
  case (1 n)
  show ?case
  proof (cases "n < 10")
    case True
    then show ?thesis by (subst show_nat.simps) (simp add: digits_value_def)
  next
    case False
    with "1.IH" show ?thesis by (subst show_nat.simps) (simp add: digits_value_snoc)
  qed
qed

lemma digit_plain: "is_digit c \<Longrightarrow> plain c"
  by (simp add: is_digit_def plain_def)

lemma show_nat_plain: "list_all plain (show_nat n)"
  using show_nat_digits [of n] by (simp add: list_all_iff digit_plain)

lemma digit_not_plus: "is_digit c \<Longrightarrow> c \<noteq> CHR ''+''"
  by (auto simp: is_digit_def)

lemma parse_uint_show_nat: "n \<le> m \<Longrightarrow> parse_uint m (show_nat n) = Some n"
proof -
  assume n: "n \<le> m"
  obtain c r where s: "show_nat n = c # r" by (cases "show_nat n") auto
  then have "c \<noteq> CHR ''+''" using show_nat_digits [of n] digit_not_plus by simp
  then have "(case show_nat n of [] \<Rightarrow> [] | c # r \<Rightarrow> if c = CHR ''+'' then r else show_nat n) = show_nat n"
    by (simp add: s)
  with n show ?thesis
    using show_nat_digits [of n] by (simp add: parse_uint_def Let_def digits_value_show_nat)
qed

lemma parse_uint_bound: "parse_uint m s = Some n \<Longrightarrow> n \<le> m"
  by (auto simp: parse_uint_def Let_def split: if_splits)

end
