(* ===== verification/Byte_Streams.thy ===== *)
theory Byte_Streams
  imports Rust_Strings
begin

text \<open>
  Byte streams as the proxy sees them: a socket whose incoming bytes arrive in segments cut at
  arbitrary places (each \<^verbatim>\<open>read\<close> returns a part of one segment), the \<^verbatim>\<open>BufReader\<close> in front of it
  with its 8 KiB buffer, \<^verbatim>\<open>read_line\<close>, \<^verbatim>\<open>read_exact\<close> and \<^verbatim>\<open>write_all\<close>. Every operation is proved
  to refine an operation on the plain sequence of bytes still to come, so that its result does
  not depend on how the peer's bytes were cut into segments.
\<close>

section \<open>Sockets\<close>

text \<open>
  A segment is what one arrival delivers: data, or the error that the read returns. A peer that
  stops sending without closing is \<open>Stall\<close>: the read never completes. The end of the list is the
  end of the stream, at which \<^verbatim>\<open>read\<close> returns zero bytes.
\<close>

datatype seg = Data bytes | Fail io_error | Stall

fun seg_size :: "seg \<Rightarrow> nat" where
  "seg_size (Data bs) = Suc (length bs)"
| "seg_size (Fail e) = 1"
| "seg_size Stall = 1"

definition segs_size :: "seg list \<Rightarrow> nat" where
  "segs_size ss = sum_list (map seg_size ss)"

fun conn_read :: "nat \<Rightarrow> seg list \<Rightarrow> (bytes, io_error) outcome \<times> seg list" where
  "conn_read cap [] = (Ok [], [])"
| "conn_read cap (Data bs # ss) =
     (Ok (take cap bs), if length bs \<le> cap then ss else Data (drop cap bs) # ss)"
| "conn_read cap (Fail e # ss) = (Err e, ss)"
| "conn_read cap (Stall # ss) = (Pending, Stall # ss)"

text \<open>
  A TCP connection: the bytes to be read, the bytes written so far, and how many more bytes the
  peer takes before writes fail (\<open>None\<close>: they do not).
\<close>

record tcp =
  rx :: "seg list"
  tx :: bytes
  wr_fault :: "(nat \<times> io_error) option"

definition write_all :: "bytes \<Rightarrow> tcp \<Rightarrow> (unit, io_error) outcome \<times> tcp" where
  "write_all buf c =
     (case wr_fault c of
        None \<Rightarrow> (Ok (), c\<lparr>tx := tx c @ buf\<rparr>)
      | Some (k, e) \<Rightarrow>
          if length buf \<le> k
          then (Ok (), c\<lparr>tx := tx c @ buf, wr_fault := Some (k - length buf, e)\<rparr>)
          else (Err e, c\<lparr>tx := tx c @ take k buf, wr_fault := Some (0, e)\<rparr>))"

lemma write_all_no_fault [stream_simps]: "wr_fault c = None \<Longrightarrow> write_all buf c = (Ok (), c\<lparr>tx := tx c @ buf\<rparr>)"
  by (simp add: write_all_def)

section \<open>\<^verbatim>\<open>BufReader\<close>\<close>

definition bufreader_capacity :: nat where "bufreader_capacity = 8192"

type_synonym bufstate = "bytes \<times> seg list"

definition buf_size :: "bufstate \<Rightarrow> nat" where
  "buf_size b = length (fst b) + segs_size (snd b)"

text \<open>
  Every successful non-empty read makes the rest of the stream smaller: the measure of all read
  loops.
\<close>

lemma conn_read_decreases:
  assumes "conn_read cap ss = (Ok xs, ss')" and "xs \<noteq> []"
  shows "segs_size ss' + length xs \<le> segs_size ss" and "segs_size ss' < segs_size ss"
  using assms by (cases "(cap, ss)" rule: conn_read.cases; auto simp: segs_size_def split: if_splits)+

lemma conn_read_term: "(Ok xs, ss') = conn_read cap ss \<Longrightarrow> xs \<noteq> [] \<Longrightarrow> segs_size ss' < segs_size ss"
  by (rule conn_read_decreases(2)) simp_all

text \<open>\<^verbatim>\<open>read_until(b'\n')\<close>: fill the buffer when it is empty, move bytes out up to the delimiter.\<close>

function read_until_lf :: "bytes \<Rightarrow> bufstate \<Rightarrow> (bytes, io_error) outcome \<times> bufstate" where
  "read_until_lf acc (buf, ss) =
     (if LF \<in> set buf
      then (Ok (acc @ takeWhile (\<lambda>c. c \<noteq> LF) buf @ [LF]), (tl (dropWhile (\<lambda>c. c \<noteq> LF) buf), ss))
      else (case conn_read bufreader_capacity ss of
              (Ok xs, ss') \<Rightarrow> if xs = [] then (Ok (acc @ buf), ([], ss')) else read_until_lf (acc @ buf) (xs, ss')
            | (Err e, ss') \<Rightarrow> (Err e, ([], ss'))
            | (Panic, ss') \<Rightarrow> (Panic, ([], ss'))
            | (Pending, ss') \<Rightarrow> (Pending, ([], ss'))))"
  by pat_completeness auto
termination
  by (relation "measure (\<lambda>(acc, b). segs_size (snd b))") (auto dest: conn_read_term)

declare read_until_lf.simps [simp del]

text \<open>\<^verbatim>\<open>read_line\<close>: the bytes of the line must be UTF-8.\<close>

definition read_line :: "bufstate \<Rightarrow> (string, io_error) outcome \<times> bufstate" where
  "read_line b =
     (case read_until_lf [] b of
        (Ok l, b') \<Rightarrow> if utf8_valid l then (Ok l, b')
          else (Err (IoError InvalidData ''stream did not contain valid UTF-8''), b')
      | (r, b') \<Rightarrow> (r, b'))"

text \<open>
  \<^verbatim>\<open>read_exact\<close> through the \<^verbatim>\<open>BufReader\<close>: buffered bytes first; with an empty buffer a large read
  goes straight to the socket and a small one refills the buffer.
\<close>

function buf_read_exact :: "nat \<Rightarrow> bytes \<Rightarrow> bufstate \<Rightarrow> (bytes, io_error) outcome \<times> bufstate" where
  "buf_read_exact n acc (buf, ss) =
     (if n = 0 then (Ok acc, (buf, ss))
      else if buf \<noteq> [] then buf_read_exact (n - length buf) (acc @ take n buf) (drop n buf, ss)
      else (case conn_read (if bufreader_capacity \<le> n then n else bufreader_capacity) ss of
              (Ok xs, ss') \<Rightarrow>
                if xs = [] then (Err (IoError UnexpectedEof ''early eof''), ([], ss'))
                else buf_read_exact n acc (xs, ss')
            | (Err e, ss') \<Rightarrow> (Err e, ([], ss'))
            | (Panic, ss') \<Rightarrow> (Panic, ([], ss'))
            | (Pending, ss') \<Rightarrow> (Pending, ([], ss'))))"
  by pat_completeness auto
termination
  by (relation "measures [\<lambda>(n, acc, b). segs_size (snd b), \<lambda>(n, acc, b). n]")
     (auto dest: conn_read_term)

declare buf_read_exact.simps [simp del]

text \<open>\<^verbatim>\<open>read_exact\<close> directly on a stream.\<close>

function read_exact :: "nat \<Rightarrow> bytes \<Rightarrow> seg list \<Rightarrow> (bytes, io_error) outcome \<times> seg list" where
  "read_exact n acc ss =
     (if n = 0 then (Ok acc, ss)
      else (case conn_read n ss of
              (Ok xs, ss') \<Rightarrow>
                if xs = [] then (Err (IoError UnexpectedEof ''early eof''), ss')
                else read_exact (n - length xs) (acc @ xs) ss'
            | (Err e, ss') \<Rightarrow> (Err e, ss')
            | (Panic, ss') \<Rightarrow> (Panic, ss')
            | (Pending, ss') \<Rightarrow> (Pending, ss')))"
  by pat_completeness auto
termination
  by (relation "measure (\<lambda>(n, acc, ss). segs_size ss)") (auto dest: conn_read_term)

declare read_exact.simps [simp del]

section \<open>The plain byte-sequence view\<close>

text \<open>The bytes still to come on a stream without errors, and a buffered stream.\<close>

fun seg_bytes :: "seg \<Rightarrow> bytes" where
  "seg_bytes (Data bs) = bs"
| "seg_bytes (Fail e) = []"
| "seg_bytes Stall = []"

definition flat :: "seg list \<Rightarrow> bytes" where
  "flat ss = concat (map seg_bytes ss)"

definition buf_flat :: "bufstate \<Rightarrow> bytes" where
  "buf_flat b = fst b @ flat (snd b)"

text \<open>Streams on which every arrival delivers at least one byte and no read fails or stalls.\<close>

fun good_seg :: "seg \<Rightarrow> bool" where
  "good_seg (Data bs) = (bs \<noteq> [])"
| "good_seg (Fail e) = False"
| "good_seg Stall = False"

definition good_segs :: "seg list \<Rightarrow> bool" where
  "good_segs ss = list_all good_seg ss"

definition split_line :: "bytes \<Rightarrow> bytes \<times> bytes" where
  "split_line bs =
     (if LF \<in> set bs then (takeWhile (\<lambda>c. c \<noteq> LF) bs @ [LF], tl (dropWhile (\<lambda>c. c \<noteq> LF) bs))
      else (bs, []))"

lemma flat_simps [simp]: "flat [] = []" "flat (s # ss) = seg_bytes s @ flat ss"
  by (simp_all add: flat_def)

lemma good_segs_simps [simp]: "good_segs []" "good_segs (s # ss) \<longleftrightarrow> good_seg s \<and> good_segs ss"
  by (simp_all add: good_segs_def)

lemma conn_read_good:
  assumes "good_segs ss" and "0 < cap"
  shows "\<exists>xs ss'. conn_read cap ss = (Ok xs, ss') \<and> flat ss = xs @ flat ss' \<and> good_segs ss'
    \<and> length xs \<le> cap \<and> (xs = [] \<longrightarrow> ss = [] \<and> ss' = [])"
  using assms by (cases "(cap, ss)" rule: conn_read.cases) auto

lemma split_line_append:
  "LF \<notin> set xs \<Longrightarrow> split_line (xs @ ys) = (xs @ fst (split_line ys), snd (split_line ys))"
  by (auto simp: split_line_def)

lemma split_line_shorter: "fst (split_line bs) @ snd (split_line bs) = bs"
proof (cases "LF \<in> set bs")
  case True
  then obtain xs ys where "bs = xs @ LF # ys" "LF \<notin> set xs" by (meson split_list_first)
  then show ?thesis by (simp add: split_line_def)
qed (simp add: split_line_def)

lemma split_line_crlf: "LF \<notin> set l \<Longrightarrow> split_line (l @ crlf @ r) = (l @ crlf, r)"
  by (simp add: split_line_def)

lemma read_until_lf_refines:
  assumes "good_segs (snd b)"
  shows "\<exists>b'. read_until_lf acc b = (Ok (acc @ fst (split_line (buf_flat b))), b')
     \<and> buf_flat b' = snd (split_line (buf_flat b)) \<and> good_segs (snd b')"
  using assms
proof (induction acc b rule: read_until_lf.induct)
  case (1 acc buf ss)
  show ?case
  proof (cases "LF \<in> set buf")
    case True
    then obtain xs ys where b: "buf = xs @ LF # ys" "LF \<notin> set xs" by (meson split_list_first)
    with "1.prems" show ?thesis
      by (simp add: read_until_lf.simps split_line_def buf_flat_def)
  next
    case False
    have "good_segs ss" and "0 < bufreader_capacity"
      using "1.prems" by (simp_all add: bufreader_capacity_def)
    then obtain xs ss' where r: "conn_read bufreader_capacity ss = (Ok xs, ss')" "flat ss = xs @ flat ss'"
        "good_segs ss'" "xs = [] \<longrightarrow> ss = [] \<and> ss' = []"
      using conn_read_good by blast
    show ?thesis
    proof (cases "xs = []")
      case True
      with r False show ?thesis
        by (simp add: read_until_lf.simps [of acc buf] split_line_def buf_flat_def)
    next
      case ne: False
      have "\<exists>b'. read_until_lf (acc @ buf) (xs, ss') = (Ok ((acc @ buf) @ fst (split_line (buf_flat (xs, ss')))), b')
          \<and> buf_flat b' = snd (split_line (buf_flat (xs, ss'))) \<and> good_segs (snd b')"
        using "1.IH" [OF False r(1) [symmetric] refl ne] r(3) by simp
      then show ?thesis
        using False ne r(1) split_line_append [OF False, of "xs @ flat ss'"] r(2)
        by (simp add: read_until_lf.simps [of acc buf] buf_flat_def)
    qed
  qed
qed

text \<open>A line is what lies before the next line feed of the byte sequence, whatever the segments.\<close>

lemma read_line_refines:
  assumes "good_segs (snd b)" and "utf8_valid (fst (split_line (buf_flat b)))"
  shows "\<exists>b'. read_line b = (Ok (fst (split_line (buf_flat b))), b')
     \<and> buf_flat b' = snd (split_line (buf_flat b)) \<and> good_segs (snd b')"
  using read_until_lf_refines [OF assms(1), of "[]"] assms(2) by (auto simp: read_line_def)

lemma read_line_invalid:
  assumes "good_segs (snd b)" and "\<not> utf8_valid (fst (split_line (buf_flat b)))"
  shows "fst (read_line b) = Err (IoError InvalidData ''stream did not contain valid UTF-8'')"
  using read_until_lf_refines [OF assms(1), of "[]"] assms(2) by (auto simp: read_line_def)

lemma buf_read_exact_refines:
  assumes "good_segs (snd b)"
  shows "if n \<le> length (buf_flat b)
    then \<exists>b'. buf_read_exact n acc b = (Ok (acc @ take n (buf_flat b)), b')
       \<and> buf_flat b' = drop n (buf_flat b) \<and> good_segs (snd b')
    else fst (buf_read_exact n acc b) = Err (IoError UnexpectedEof ''early eof'')"
  using assms
proof (induction n acc b rule: buf_read_exact.induct)
  case (1 n acc buf ss)
  consider "n = 0" | "n \<noteq> 0" "buf \<noteq> []" | "n \<noteq> 0" "buf = []" by blast
  then show ?case
  proof cases
    case 2
    then show ?thesis
      using "1.IH"(1) [OF 2] "1.prems"
      by (cases "n \<le> length buf")
         (auto simp: buf_read_exact.simps [of n acc buf] buf_flat_def split: if_splits)
  next
    case 3
    let ?cap = "if bufreader_capacity \<le> n then n else bufreader_capacity"
    have "good_segs ss" and "0 < ?cap"
      using "1.prems" 3(1) by (simp_all add: bufreader_capacity_def)
    then obtain xs ss' where r: "conn_read ?cap ss = (Ok xs, ss')" "flat ss = xs @ flat ss'"
        "good_segs ss'" "xs = [] \<longrightarrow> ss = [] \<and> ss' = []"
      using conn_read_good by blast
    then show ?thesis
      using "1.IH"(2) [OF 3(1) _ r(1) [symmetric] refl] 3
      by (cases "xs = []") (auto simp: buf_read_exact.simps [of n acc "[]"] buf_flat_def)
  qed (use "1.prems" in \<open>simp add: buf_read_exact.simps buf_flat_def\<close>)
qed

lemma read_exact_refines:
  assumes "good_segs ss"
  shows "if n \<le> length (flat ss)
    then \<exists>ss'. read_exact n acc ss = (Ok (acc @ take n (flat ss)), ss')
       \<and> flat ss' = drop n (flat ss) \<and> good_segs ss'
    else fst (read_exact n acc ss) = Err (IoError UnexpectedEof ''early eof'')"
  using assms
proof (induction n acc ss rule: read_exact.induct)
  case (1 n acc ss)
  show ?case
  proof (cases "n = 0")
    case False
    from "1.prems" False obtain xs ss' where r: "conn_read n ss = (Ok xs, ss')" "flat ss = xs @ flat ss'"
        "good_segs ss'" "length xs \<le> n" "xs = [] \<longrightarrow> ss = [] \<and> ss' = []"
      using conn_read_good [of ss n] by blast
    show ?thesis
    proof (cases "xs = []")
      case True
      with r False show ?thesis by (simp add: read_exact.simps [of n acc "[]"])
    next
      case ne: False
      have tk: "take n (flat ss) = xs @ take (n - length xs) (flat ss')"
        and dr: "drop n (flat ss) = drop (n - length xs) (flat ss')"
        using r(4) by (simp_all add: r(2))
      have "n \<le> length (flat ss) \<longleftrightarrow> n - length xs \<le> length (flat ss')"
        using r(4) by (auto simp: r(2))
      then show ?thesis
        using "1.IH" [OF False r(1) [symmetric] refl ne] r(1,3) False ne tk dr
        by (auto simp: read_exact.simps [of n acc ss])
    qed
  qed (use "1.prems" in \<open>simp add: read_exact.simps\<close>)
qed

text \<open>Reading a line or an exact count never makes the rest of the stream larger.\<close>

lemma read_until_lf_size:
  "read_until_lf acc b = (r, b') \<Longrightarrow>
     buf_size b' \<le> buf_size b \<and> (\<forall>l. r = Ok l \<longrightarrow> buf_size b' + length l \<le> buf_size b + length acc)"
proof (induction acc b arbitrary: r b' rule: read_until_lf.induct)
  case (1 acc buf ss)
  show ?case
  proof (cases "LF \<in> set buf")
    case True
    then obtain xs ys where "buf = xs @ LF # ys" "LF \<notin> set xs" by (meson split_list_first)
    with "1.prems" show ?thesis by (auto simp: read_until_lf.simps buf_size_def)
  next
    case False
    obtain q ss' where c: "conn_read bufreader_capacity ss = (q, ss')" by fastforce
    have sz: "segs_size ss' \<le> segs_size ss"
      using c by (cases "(bufreader_capacity, ss)" rule: conn_read.cases)
        (auto simp: segs_size_def split: if_splits)
    show ?thesis
    proof (cases "\<exists>xs. q = Ok xs \<and> xs \<noteq> []")
      case True
      then obtain xs where xs: "q = Ok xs" "xs \<noteq> []" by blast
      have "read_until_lf (acc @ buf) (xs, ss') = (r, b')"
        using "1.prems" False c xs by (simp add: read_until_lf.simps [of acc buf])
      from "1.IH" [OF False c [symmetric] xs this] show ?thesis
        using conn_read_decreases [of bufreader_capacity ss xs ss'] c xs by (auto simp: buf_size_def)
    next
      case other: False
      then show ?thesis
        using "1.prems" False c sz
        by (auto simp: read_until_lf.simps [of acc buf] buf_size_def split: outcome.splits)
    qed
  qed
qed

lemma read_line_shrinks:
  "read_line b = (Ok l, b') \<Longrightarrow> l \<noteq> [] \<Longrightarrow> buf_size b' < buf_size b"
proof -
  assume r: "read_line b = (Ok l, b')" and "l \<noteq> []"
  then have "read_until_lf [] b = (Ok l, b')"
    by (auto simp: read_line_def split: prod.splits outcome.splits if_splits)
  from read_until_lf_size [OF this] have "buf_size b' + length l \<le> buf_size b" by simp
  then show ?thesis using \<open>l \<noteq> []\<close> by (cases l) auto
qed

text \<open>
  What a read leaves of the stream: a line that ends within the first segments is read from them
  alone, and the segments after them stay untouched.
\<close>

definition and_then :: "'a \<times> bufstate \<Rightarrow> seg list \<Rightarrow> 'a \<times> bufstate" where
  "and_then p xs = (fst p, fst (snd p), snd (snd p) @ xs)"

lemma and_then_simps [simp]: "and_then (r, b, ss) xs = (r, b, ss @ xs)"
  by (simp add: and_then_def)

lemma conn_read_more:
  "ss \<noteq> [] \<Longrightarrow> conn_read cap (ss @ xs) = (fst (conn_read cap ss), snd (conn_read cap ss) @ xs)"
  by (cases "(cap, ss)" rule: conn_read.cases) auto

lemma read_until_lf_more:
  assumes "good_segs (snd b)" and "LF \<in> set (buf_flat b)"
  shows "read_until_lf acc (fst b, snd b @ xs) = and_then (read_until_lf acc b) xs"
  using assms
proof (induction acc b rule: read_until_lf.induct)
  case (1 acc buf ss)
  show ?case
  proof (cases "LF \<in> set buf")
    case False
    then have "ss \<noteq> []" using "1.prems"(2) by (auto simp: buf_flat_def)
    then obtain ys ss' where r: "conn_read bufreader_capacity ss = (Ok ys, ss')" "flat ss = ys @ flat ss'" "good_segs ss'" "ys \<noteq> []"
      using conn_read_good [of ss bufreader_capacity] "1.prems"(1) by (auto simp: bufreader_capacity_def)
    have "read_until_lf (acc @ buf) (ys, ss' @ xs) = and_then (read_until_lf (acc @ buf) (ys, ss')) xs"
      using "1.IH" [OF False r(1) [symmetric] refl r(4)] r(2,3) "1.prems"(2) False by (simp add: buf_flat_def)
    then show ?thesis using False r(1,4) conn_read_more [OF \<open>ss \<noteq> []\<close>]
      by (simp add: read_until_lf.simps [of acc buf])
  qed (simp add: read_until_lf.simps)
qed

lemma read_line_more:
  assumes "good_segs (snd b)" and "LF \<in> set (buf_flat b)"
  shows "read_line (fst b, snd b @ xs) = and_then (read_line b) xs"
  using read_until_lf_more [OF assms, of "[]" xs]
  by (auto simp: read_line_def and_then_def split: prod.splits outcome.splits)

lemma good_flat_empty: "good_segs ss \<Longrightarrow> flat ss = [] \<Longrightarrow> ss = []"
  by (cases ss) (auto elim: good_seg.elims)

end
