(* ===== verification/Dial.thy ===== *)
theory Dial
  imports Byte_Streams
begin

text \<open>
  The hand-rolled HTTP/1.1 client and server framing,
  \<^verbatim>\<open>crates/service-proxy/src/upstream/dial.rs\<close>: requests and responses, dialling, writing a request,
  reading a response, writing a response. The connection attempt under its timeout is a
  parameter \<open>net\<close>, the iteration order of header maps a parameter \<open>ho\<close>.
\<close>

section \<open>Data\<close>

record Request =
  rq_method :: string
  rq_path :: string
  rq_host :: string
  rq_headers :: headers
  rq_body :: bytes

record Response =
  rs_status :: u16
  rs_headers :: headers
  rs_body :: bytes

datatype UpstreamError = DialError io_error | IoFailed io_error | ParseError string

text \<open>The messages that \<^verbatim>\<open>thiserror\<close> derives from the attributes of the variants.\<close>

fun show_upstream_error :: "UpstreamError \<Rightarrow> string" where
  "show_upstream_error (DialError e) = ''dial: '' @ err_msg e"
| "show_upstream_error (IoFailed e) = ''io: '' @ err_msg e"
| "show_upstream_error (ParseError m) = ''parse: '' @ m"

text \<open>What \<^verbatim>\<open>timeout(DIAL_TIMEOUT, TcpStream::connect(addr))\<close> comes to.\<close>

datatype connect_result = Connected tcp | ConnectFailed io_error | ConnectElapsed

type_synonym network = "string \<Rightarrow> connect_result"

section \<open>Operations\<close>

definition dial :: "network \<Rightarrow> string \<Rightarrow> (tcp, UpstreamError) outcome" where
  "dial net addr =
     (case net addr of
        ConnectElapsed \<Rightarrow> Err (DialError (IoError TimedOut ''dial timeout''))
      | ConnectFailed e \<Rightarrow> Err (DialError e)
      | Connected c \<Rightarrow> Ok c)"

text \<open>One \<^verbatim>\<open>{k}: {v}\<close> line per value of a header.\<close>

definition header_line :: "string \<Rightarrow> string \<Rightarrow> bytes" where
  "header_line k v = k @ '': '' @ v @ crlf"

definition header_lines :: "string \<times> string list \<Rightarrow> bytes" where
  "header_lines kv = concat (map (header_line (fst kv)) (snd kv))"

definition request_skips :: "string \<Rightarrow> bool" where
  "request_skips k =
     (let lower = to_ascii_lowercase k
      in lower = ''connection'' \<or> lower = ''content-length'' \<or> lower = ''host'')"

definition response_skips :: "string \<Rightarrow> bool" where
  "response_skips k =
     (let lower = to_ascii_lowercase k in lower = ''connection'' \<or> lower = ''content-length'')"

text \<open>The buffer that \<^verbatim>\<open>write_request\<close> assembles.\<close>

definition request_bytes :: "(headers \<Rightarrow> headers) \<Rightarrow> Request \<Rightarrow> bytes" where
  "request_bytes ho req =
     rq_method req @ '' '' @ rq_path req @ '' HTTP/1.1'' @ crlf
     @ (if rq_host req \<noteq> [] then ''Host: '' @ rq_host req @ crlf else [])
     @ concat (map (\<lambda>(k, vs). if request_skips k then [] else header_lines (k, vs)) (ho (rq_headers req)))
     @ ''Content-Length: '' @ show_nat (length (rq_body req)) @ crlf
     @ ''Connection: keep-alive'' @ crlf @ crlf
     @ (if rq_body req \<noteq> [] then rq_body req else [])"

definition write_request :: "(headers \<Rightarrow> headers) \<Rightarrow> Request \<Rightarrow> tcp \<Rightarrow> (unit, UpstreamError) outcome \<times> tcp" where
  "write_request ho req c =
     (case write_all (request_bytes ho req) c of (r, c') \<Rightarrow> (map_err IoFailed r, c'))"

text \<open>The status code of a status line: the second white-space-separated field.\<close>

definition parse_status :: "string \<Rightarrow> (nat, UpstreamError) outcome" where
  "parse_status line =
     (if line = [] then Err (ParseError ''empty status line'')
      else case split_whitespace line of
          _ # code # _ \<Rightarrow>
            (case parse_uint u16_max code of
               Some n \<Rightarrow> Ok n | None \<Rightarrow> Err (ParseError ''bad status code''))
        | _ \<Rightarrow> Err (ParseError ''missing status code''))"

text \<open>One header line, split at the first colon, both sides trimmed.\<close>

definition parse_header :: "string \<Rightarrow> (string \<times> string) option" where
  "parse_header line = map_option (\<lambda>(n, v). (trim n, trim v)) (split_once (CHR '':'') line)"

text \<open>A later \<^verbatim>\<open>Content-Length\<close> replaces an earlier one, also when it does not parse.\<close>

definition next_length :: "string \<Rightarrow> string \<Rightarrow> nat option \<Rightarrow> nat option" where
  "next_length name value cl =
     (if eq_ignore_ascii_case name ''content-length'' then parse_uint usize_max value else cl)"

text \<open>The header loop of \<^verbatim>\<open>read_response\<close>.\<close>

function read_headers :: "headers \<Rightarrow> nat option \<Rightarrow> bufstate
    \<Rightarrow> (headers \<times> nat option, UpstreamError) outcome \<times> bufstate" where
  "read_headers hs cl b =
     (case read_line b of
        (Ok raw, b') \<Rightarrow>
          (let line = trim_end_crlf raw
           in if line = [] then (Ok (hs, cl), b')
              else case parse_header line of
                  None \<Rightarrow> (Err (ParseError (''bad header: '' @ line)), b')
                | Some (name, value) \<Rightarrow> read_headers (hm_push name value hs) (next_length name value cl) b')
      | (Err e, b') \<Rightarrow> (Err (IoFailed e), b')
      | (Panic, b') \<Rightarrow> (Panic, b')
      | (Pending, b') \<Rightarrow> (Pending, b'))"
  by pat_completeness auto

lemma read_line_term:
  "(Ok raw, b') = read_line b \<Longrightarrow> trim_end_crlf raw \<noteq> [] \<Longrightarrow> buf_size b' < buf_size b"
  by (rule read_line_shrinks [of b raw b']) (auto simp: trim_end_crlf_def)

termination read_headers
  by (relation "measure (\<lambda>(hs, cl, b). buf_size b)") (auto dest: read_line_term)

declare read_headers.simps [simp del]

text \<open>
  The body: \<^verbatim>\<open>vec![0u8; n]\<close> panics with a capacity overflow above \<^verbatim>\<open>isize::MAX\<close>; without a
  \<^verbatim>\<open>Content-Length\<close> the body is empty.
\<close>

definition read_body :: "nat option \<Rightarrow> bufstate \<Rightarrow> (bytes, UpstreamError) outcome \<times> bufstate" where
  "read_body cl b =
     (case cl of
        None \<Rightarrow> (Ok [], b)
      | Some n \<Rightarrow>
          if isize_max < n then (Panic, b)
          else (case buf_read_exact n [] b of (r, b') \<Rightarrow> (map_err IoFailed r, b')))"

definition read_response_buf :: "bufstate \<Rightarrow> (Response, UpstreamError) outcome \<times> bufstate" where
  "read_response_buf b =
     (case read_line b of
        (Ok status_line, b1) \<Rightarrow>
          (case parse_status status_line of
             Ok code \<Rightarrow>
               (case read_headers [] None b1 of
                  (Ok (hs, cl), b2) \<Rightarrow>
                    (case read_body cl b2 of
                       (Ok body, b3) \<Rightarrow> (Ok \<lparr>rs_status = of_nat code, rs_headers = hs, rs_body = body\<rparr>, b3)
                     | (Err e, b3) \<Rightarrow> (Err e, b3) | (Panic, b3) \<Rightarrow> (Panic, b3) | (Pending, b3) \<Rightarrow> (Pending, b3))
                | (Err e, b2) \<Rightarrow> (Err e, b2) | (Panic, b2) \<Rightarrow> (Panic, b2) | (Pending, b2) \<Rightarrow> (Pending, b2))
           | Err e \<Rightarrow> (Err e, b1) | Panic \<Rightarrow> (Panic, b1) | Pending \<Rightarrow> (Pending, b1))
      | (Err e, b1) \<Rightarrow> (Err (IoFailed e), b1) | (Panic, b1) \<Rightarrow> (Panic, b1) | (Pending, b1) \<Rightarrow> (Pending, b1))"

text \<open>
  \<^verbatim>\<open>read_response\<close> puts a fresh \<^verbatim>\<open>BufReader\<close> in front of the connection and drops it at the end,
  with whatever it had buffered beyond the response.
\<close>

definition read_response :: "tcp \<Rightarrow> (Response, UpstreamError) outcome \<times> tcp" where
  "read_response c = (case read_response_buf ([], rx c) of (r, (_, ss)) \<Rightarrow> (r, c\<lparr>rx := ss\<rparr>))"

definition forward :: "(headers \<Rightarrow> headers) \<Rightarrow> Request \<Rightarrow> tcp \<Rightarrow> (Response, UpstreamError) outcome \<times> tcp" where
  "forward ho req c =
     (case write_request ho req c of
        (Ok _, c1) \<Rightarrow> read_response c1
      | (Err e, c1) \<Rightarrow> (Err e, c1) | (Panic, c1) \<Rightarrow> (Panic, c1) | (Pending, c1) \<Rightarrow> (Pending, c1))"

definition forward_http :: "(headers \<Rightarrow> headers) \<Rightarrow> network \<Rightarrow> string \<Rightarrow> Request \<Rightarrow> (Response, UpstreamError) outcome" where
  "forward_http ho net addr req =
     (case dial net addr of
        Ok c \<Rightarrow> fst (forward ho req c)
      | Err e \<Rightarrow> Err e | Panic \<Rightarrow> Panic | Pending \<Rightarrow> Pending)"

definition reason_phrase :: "nat \<Rightarrow> string" where
  "reason_phrase code =
     (if code = 200 then ''OK''
      else if code = 400 then ''Bad Request''
      else if code = 502 then ''Bad Gateway''
      else if code = 500 then ''Internal Server Error''
      else ''OK'')"

text \<open>The buffer that \<^verbatim>\<open>write_response\<close> assembles.\<close>

definition response_bytes :: "(headers \<Rightarrow> headers) \<Rightarrow> Response \<Rightarrow> bytes" where
  "response_bytes ho resp =
     ''HTTP/1.1 '' @ show_nat (unat (rs_status resp)) @ '' '' @ reason_phrase (unat (rs_status resp)) @ crlf
     @ concat (map (\<lambda>(k, vs). if response_skips k then [] else header_lines (k, vs)) (ho (rs_headers resp)))
     @ ''Content-Length: '' @ show_nat (length (rs_body resp)) @ crlf
     @ ''Connection: close'' @ crlf @ crlf
     @ (if rs_body resp \<noteq> [] then rs_body resp else [])"

definition write_response :: "(headers \<Rightarrow> headers) \<Rightarrow> Response \<Rightarrow> tcp \<Rightarrow> (unit, UpstreamError) outcome \<times> tcp" where
  "write_response ho resp c =
     (case write_all (response_bytes ho resp) c of (r, c') \<Rightarrow> (map_err IoFailed r, c'))"

definition write_error :: "(headers \<Rightarrow> headers) \<Rightarrow> u16 \<Rightarrow> tcp \<Rightarrow> (unit, UpstreamError) outcome \<times> tcp" where
  "write_error ho status c =
     write_response ho \<lparr>rs_status = status, rs_headers = [], rs_body = []\<rparr> c"

lemma write_request_ok [stream_simps]:
  "wr_fault c = None \<Longrightarrow> write_request ho req c = (Ok (), c\<lparr>tx := tx c @ request_bytes ho req\<rparr>)"
  by (simp add: write_request_def stream_simps)

lemma write_response_ok [stream_simps]:
  "wr_fault c = None \<Longrightarrow> write_response ho resp c = (Ok (), c\<lparr>tx := tx c @ response_bytes ho resp\<rparr>)"
  by (simp add: write_response_def stream_simps)

section \<open>Abstract specification: parsing a byte sequence\<close>

text \<open>
  What reading a response means on the bytes alone, without buffers and segments: the parsed
  value and the bytes left over.
\<close>

definition parse_line :: "bytes \<Rightarrow> (string \<times> bytes, io_error) outcome" where
  "parse_line bs =
     (if utf8_valid (fst (split_line bs)) then Ok (split_line bs)
      else Err (IoError InvalidData ''stream did not contain valid UTF-8''))"

function parse_headers :: "headers \<Rightarrow> nat option \<Rightarrow> bytes
    \<Rightarrow> ((headers \<times> nat option) \<times> bytes, UpstreamError) outcome" where
  "parse_headers hs cl bs =
     (case parse_line bs of
        Ok (raw, rest) \<Rightarrow>
          (let line = trim_end_crlf raw
           in if line = [] then Ok ((hs, cl), rest)
              else case parse_header line of
                  None \<Rightarrow> Err (ParseError (''bad header: '' @ line))
                | Some (name, value) \<Rightarrow> parse_headers (hm_push name value hs) (next_length name value cl) rest)
      | Err e \<Rightarrow> Err (IoFailed e) | Panic \<Rightarrow> Panic | Pending \<Rightarrow> Pending)"
  by pat_completeness auto

lemma parse_line_term:
  assumes "parse_line bs = Ok (raw, rest)" and "trim_end_crlf raw \<noteq> []"
  shows "length rest < length bs"
proof -
  have "raw @ rest = bs"
    using assms(1) split_line_shorter [of bs]
    by (cases "split_line bs") (auto simp: parse_line_def split: if_splits)
  moreover have "raw \<noteq> []" using assms(2) by (auto simp: trim_end_crlf_def)
  ultimately show ?thesis by (cases raw) auto
qed

termination parse_headers
  by (relation "measure (\<lambda>(hs, cl, bs). length bs)") (auto dest: parse_line_term)

declare parse_headers.simps [simp del]

definition parse_body :: "nat option \<Rightarrow> bytes \<Rightarrow> (bytes \<times> bytes, UpstreamError) outcome" where
  "parse_body cl bs =
     (case cl of
        None \<Rightarrow> Ok ([], bs)
      | Some n \<Rightarrow>
          if isize_max < n then Panic
          else if n \<le> length bs then Ok (take n bs, drop n bs)
          else Err (IoFailed (IoError UnexpectedEof ''early eof'')))"

definition parse_response :: "bytes \<Rightarrow> (Response \<times> bytes, UpstreamError) outcome" where
  "parse_response bs =
     (case parse_line bs of
        Ok (status_line, r1) \<Rightarrow>
          (case parse_status status_line of
             Ok code \<Rightarrow>
               (case parse_headers [] None r1 of
                  Ok ((hs, cl), r2) \<Rightarrow>
                    (case parse_body cl r2 of
                       Ok (body, r3) \<Rightarrow> Ok (\<lparr>rs_status = of_nat code, rs_headers = hs, rs_body = body\<rparr>, r3)
                     | Err e \<Rightarrow> Err e | Panic \<Rightarrow> Panic | Pending \<Rightarrow> Pending)
                | Err e \<Rightarrow> Err e | Panic \<Rightarrow> Panic | Pending \<Rightarrow> Pending)
           | Err e \<Rightarrow> Err e | Panic \<Rightarrow> Panic | Pending \<Rightarrow> Pending)
      | Err e \<Rightarrow> Err (IoFailed e) | Panic \<Rightarrow> Panic | Pending \<Rightarrow> Pending)"

text \<open>A buffered read agrees with a parse: same outcome, and the parser's rest is what remains.\<close>

fun agrees :: "('a, 'e) outcome \<times> bufstate \<Rightarrow> ('a \<times> bytes, 'e) outcome \<Rightarrow> bool" where
  "agrees (Ok x, b) (Ok (y, rest)) = (x = y \<and> buf_flat b = rest \<and> good_segs (snd b))"
| "agrees (Err e, b) (Err e') = (e = e')"
| "agrees (Panic, b) Panic = True"
| "agrees (Pending, b) Pending = True"
| "agrees p q = False"

lemma agrees_OkD: "agrees p (Ok (y, rest)) \<Longrightarrow> \<exists>b. p = (Ok y, b) \<and> buf_flat b = rest \<and> good_segs (snd b)"
  by (cases p; cases "fst p") auto

lemma agrees_OkE:
  assumes "agrees p q" and "q = Ok x"
  obtains y b where "p = (Ok y, b)" "q = Ok (y, buf_flat b)" "good_segs (snd b)"
  using assms by (cases x) (auto dest!: agrees_OkD)

lemma agrees_ErrD: "agrees p (Err e) \<Longrightarrow> \<exists>b. p = (Err e, b)"
  by (cases p; cases "fst p") auto

lemma agrees_PanicD: "agrees p Panic \<Longrightarrow> \<exists>b. p = (Panic, b)"
  by (cases p; cases "fst p") auto

lemma agrees_PendingD: "agrees p Pending \<Longrightarrow> \<exists>b. p = (Pending, b)"
  by (cases p; cases "fst p") auto

lemmas agreesD = agrees_OkD agrees_ErrD agrees_PanicD agrees_PendingD

lemma agrees_fst: "agrees p q \<Longrightarrow> fst p = map_outcome fst id q"
  by (induction p q rule: agrees.induct) auto

lemma read_line_agrees: "good_segs (snd b) \<Longrightarrow> agrees (read_line b) (parse_line (buf_flat b))"
proof (cases "utf8_valid (fst (split_line (buf_flat b)))")
  case True
  assume "good_segs (snd b)"
  from read_line_refines [OF this True] True show ?thesis
    by (cases "split_line (buf_flat b)") (auto simp: parse_line_def)
next
  case False
  assume "good_segs (snd b)"
  from read_line_invalid [OF this False] False show ?thesis
    by (cases "read_line b") (simp add: parse_line_def)
qed

lemma read_headers_agrees:
  "good_segs (snd b) \<Longrightarrow> agrees (read_headers hs cl b) (parse_headers hs cl (buf_flat b))"
proof (induction hs cl b rule: read_headers.induct)
  case (1 hs cl b)
  note ag = read_line_agrees [OF "1.prems"]
  show ?case
  proof (cases "parse_line (buf_flat b)")
    case (Ok x)
    from agrees_OkE [OF ag this] obtain raw b' where l: "read_line b = (Ok raw, b')"
        "parse_line (buf_flat b) = Ok (raw, buf_flat b')" "good_segs (snd b')" .
    show ?thesis
    proof (cases "trim_end_crlf raw = [] \<or> parse_header (trim_end_crlf raw) = None")
      case True
      with l show ?thesis
        by (auto simp: read_headers.simps [of hs cl b] parse_headers.simps [of hs cl "buf_flat b"] Let_def)
    next
      case False
      then obtain name v where nv: "trim_end_crlf raw \<noteq> []" "parse_header (trim_end_crlf raw) = Some (name, v)"
        by auto
      from "1.IH" [OF l(1) [symmetric] refl refl nv(1) nv(2) refl] l(3)
      have "agrees (read_headers (hm_push name v hs) (next_length name v cl) b')
          (parse_headers (hm_push name v hs) (next_length name v cl) (buf_flat b'))" by simp
      with l nv show ?thesis
        by (simp add: read_headers.simps [of hs cl b] parse_headers.simps [of hs cl "buf_flat b"] Let_def)
    qed
  qed (use ag in \<open>auto dest!: agreesD simp: read_headers.simps [of hs cl b] parse_headers.simps [of hs cl "buf_flat b"]\<close>)
qed

lemma read_body_agrees: "good_segs (snd b) \<Longrightarrow> agrees (read_body cl b) (parse_body cl (buf_flat b))"
proof (cases cl)
  case (Some n)
  assume g: "good_segs (snd b)"
  show ?thesis
  proof (cases "n \<le> length (buf_flat b)")
    case True
    with buf_read_exact_refines [OF g, of n "[]"] Some show ?thesis
      by (auto simp: read_body_def parse_body_def)
  next
    case False
    with buf_read_exact_refines [OF g, of n "[]"] Some show ?thesis
      by (cases "buf_read_exact n [] b") (auto simp: read_body_def parse_body_def)
  qed
qed (simp add: read_body_def parse_body_def)

lemma read_response_buf_agrees:
  assumes "good_segs (snd b)"
  shows "agrees (read_response_buf b) (parse_response (buf_flat b))"
proof (cases "parse_line (buf_flat b)")
  case (Ok x)
  from agrees_OkE [OF read_line_agrees [OF assms] this] obtain raw b1 where l: "read_line b = (Ok raw, b1)"
      "parse_line (buf_flat b) = Ok (raw, buf_flat b1)" "good_segs (snd b1)" .
  note h = read_headers_agrees [OF l(3), of "[]" None]
  show ?thesis
  proof (cases "parse_headers [] None (buf_flat b1)")
    case (Ok y)
    from agrees_OkE [OF h this] obtain hcl b2 where l2: "read_headers [] None b1 = (Ok hcl, b2)"
        "parse_headers [] None (buf_flat b1) = Ok (hcl, buf_flat b2)" "good_segs (snd b2)" .
    obtain hs cl where hcl: "hcl = (hs, cl)" by fastforce
    show ?thesis
      using read_body_agrees [OF l2(3), of cl] l l2 hcl
      by (cases "parse_body cl (buf_flat b2)"; cases "parse_status raw")
         (auto simp: read_response_buf_def parse_response_def dest!: agreesD)
  qed (use l h in \<open>auto simp: read_response_buf_def parse_response_def dest!: agreesD split: outcome.splits\<close>)
qed (use read_line_agrees [OF assms] in \<open>auto simp: read_response_buf_def parse_response_def dest!: agreesD\<close>)

lemma read_response_parse:
  assumes "good_segs (rx c)"
  shows "fst (read_response c) = map_outcome fst id (parse_response (flat (rx c)))"
proof -
  have "agrees (read_response_buf ([], rx c)) (parse_response (buf_flat ([], rx c)))"
    by (rule read_response_buf_agrees) (simp add: assms)
  from agrees_fst [OF this] show ?thesis
    by (simp add: read_response_def buf_flat_def split_beta)
qed

text \<open>C7: Reading an upstream response through the buffered reader gives exactly what parsing the
  plain byte sequence gives, with the same errors: the result does not depend on how TCP cut the
  bytes into segments or on how the buffer was refilled.\<close>

theorem read_response_refines_parse:
  assumes "good_segs (rx c)"
  shows "fst (read_response c) = map_outcome fst id (parse_response (flat (rx c)))"
  using assms by (rule read_response_parse)

section \<open>Writing and reading back\<close>

text \<open>
  Headers that HTTP/1.1 framing can carry: UTF-8, no line feed, no colon in the name, no white
  space around name or value.
\<close>

definition carriable :: "string \<times> string list \<Rightarrow> bool" where
  "carriable kv \<longleftrightarrow> utf8_valid (fst kv) \<and> trimmed (fst kv) \<and> LF \<notin> set (fst kv) \<and> CHR '':'' \<notin> set (fst kv)
     \<and> (\<forall>v\<in>set (snd kv). utf8_valid v \<and> trimmed v \<and> LF \<notin> set v)"

lemma parse_line_crlf:
  assumes "LF \<notin> set l" and "utf8_valid l"
  shows "parse_line (l @ crlf @ rest) = Ok (l @ crlf, rest)"
proof -
  have "utf8_valid (l @ crlf)" by (rule utf8_valid_append [OF assms(2)]) (rule utf8_valid_ascii, simp)
  then show ?thesis using split_line_crlf [OF assms(1), of rest] by (simp add: parse_line_def)
qed

lemma parse_response_intro:
  assumes "parse_line bs = Ok (l, r1)" and "parse_status l = Ok n"
    and "parse_headers [] None r1 = Ok ((hs, cl), r2)" and "parse_body cl r2 = Ok (body, r3)"
  shows "parse_response bs = Ok (\<lparr>rs_status = of_nat n, rs_headers = hs, rs_body = body\<rparr>, r3)"
  using assms by (simp add: parse_response_def)

text \<open>One header line is read back as its name and value.\<close>

lemma parse_headers_line:
  assumes k: "utf8_valid k" "trimmed k" "LF \<notin> set k" "CHR '':'' \<notin> set k"
    and v: "utf8_valid v" "trimmed v" "LF \<notin> set v"
  shows "parse_headers hs cl (header_line k v @ rest) = parse_headers (hm_push k v hs) (next_length k v cl) rest"
proof -
  let ?l = "k @ '': '' @ v"
  have u: "utf8_valid ?l"
    by (intro utf8_valid_append k v) (rule utf8_valid_ascii, simp)
  have "LF \<notin> set ?l" using k v by auto
  from parse_line_crlf [OF this u] have pl: "parse_line (header_line k v @ rest) = Ok (?l @ crlf, rest)"
    by (simp add: header_line_def)
  have "last ?l \<noteq> CR \<and> last ?l \<noteq> LF" using trimmed_last [OF v(2)] by (cases "v = []") auto
  then have te: "trim_end_crlf (?l @ crlf) = ?l" by (intro trim_end_crlf_line) simp
  have "parse_header ?l = Some (k, v)"
    using split_once_append [OF k(4), of "CHR '' '' # v"] trim_trimmed [OF k(2)] trim_space_trimmed [OF v(2)]
    by (simp add: parse_header_def)
  with pl te show ?thesis
    by (subst parse_headers.simps) (simp add: Let_def)
qed

text \<open>All the values of one header, whose name is new, collect under that name.\<close>

lemma parse_headers_values:
  assumes "carriable (k, vs)" and "k \<notin> fst ` set hs" and "\<not> eq_ignore_ascii_case k ''content-length''"
  shows "parse_headers hs cl (header_lines (k, vs) @ rest)
     = parse_headers (if vs = [] then hs else hs @ [(k, vs)]) cl rest"
proof -
  have k: "utf8_valid k" "trimmed k" "LF \<notin> set k" "CHR '':'' \<notin> set k" using assms(1) by (auto simp: carriable_def)
  have nl: "next_length k v c = c" for v c using assms(3) by (simp add: next_length_def)
  have more: "parse_headers (hs @ [(k, us)]) cl (concat (map (header_line k) ws) @ rest)
      = parse_headers (hs @ [(k, us @ ws)]) cl rest"
    if "\<forall>v\<in>set ws. utf8_valid v \<and> trimmed v \<and> LF \<notin> set v" for us ws
    using that
  proof (induction ws arbitrary: us)
    case (Cons w ws)
    then show ?case
      using Cons.IH [of "us @ [w]"] parse_headers_line [OF k, of w] hm_push_last [OF assms(2)] nl by simp
  qed simp
  show ?thesis
  proof (cases vs)
    case (Cons v ws)
    then show ?thesis
      using assms(1) more [of ws "[v]"] parse_headers_line [OF k, of v] hm_push_new [OF assms(2)] nl
      by (simp add: header_lines_def carriable_def)
  qed (simp add: header_lines_def)
qed

definition nonempty_values :: "string \<times> string list \<Rightarrow> bool" where
  "nonempty_values kv \<longleftrightarrow> snd kv \<noteq> []"

lemma parse_headers_list:
  assumes "list_all carriable hl" and "distinct (map fst hl)" and "fst ` set hl \<inter> fst ` set hs = {}"
    and "\<forall>kv\<in>set hl. \<not> eq_ignore_ascii_case (fst kv) ''content-length''"
  shows "parse_headers hs cl (concat (map header_lines hl) @ rest)
     = parse_headers (hs @ filter nonempty_values hl) cl rest"
  using assms
proof (induction hl arbitrary: hs)
  case (Cons kv hl)
  obtain k vs where kv: "kv = (k, vs)" by fastforce
  have "k \<notin> fst ` set hs" using Cons.prems(3) kv by auto
  then have "parse_headers hs cl (header_lines (k, vs) @ concat (map header_lines hl) @ rest)
      = parse_headers (if vs = [] then hs else hs @ [(k, vs)]) cl (concat (map header_lines hl) @ rest)"
    using Cons.prems(1,4) kv by (intro parse_headers_values) auto
  also have "\<dots> = parse_headers ((if vs = [] then hs else hs @ [(k, vs)]) @ filter nonempty_values hl) cl rest"
    using Cons.prems kv by (intro Cons.IH) (auto split: if_splits)
  finally show ?case by (simp add: kv nonempty_values_def [of "(k, vs)"])
qed simp

text \<open>The headers a reader of the proxy's own response sees, in iteration order.\<close>

definition sent_headers :: "(headers \<Rightarrow> headers) \<Rightarrow> Response \<Rightarrow> headers" where
  "sent_headers ho resp =
     filter nonempty_values (filter (\<lambda>kv. \<not> response_skips (fst kv)) (ho (rs_headers resp)))
     @ [(''Content-Length'', [show_nat (length (rs_body resp))]), (''Connection'', [''close''])]"

lemma header_blocks_filter:
  "concat (map (\<lambda>(k, vs). if p k then [] else header_lines (k, vs)) hl)
     = concat (map header_lines (filter (\<lambda>kv. \<not> p (fst kv)) hl))"
  by (induction hl) auto

lemma not_skipped_length: "\<not> response_skips k \<Longrightarrow> \<not> eq_ignore_ascii_case k ''content-length''"
proof -
  have "to_ascii_lowercase ''content-length'' = ''content-length''" by code_simp
  then show "\<not> response_skips k \<Longrightarrow> ?thesis"
    by (auto simp: response_skips_def eq_ignore_ascii_case_def Let_def)
qed

lemma trailer_names_skipped: "response_skips ''Content-Length''" "response_skips ''Connection''"
  by code_simp+

lemma content_length_name: "next_length ''Content-Length'' v cl = parse_uint usize_max v"
proof -
  have "eq_ignore_ascii_case ''Content-Length'' ''content-length''" by code_simp
  then show ?thesis by (simp add: next_length_def)
qed

lemma connection_name: "next_length ''Connection'' v cl = cl"
proof -
  have "\<not> eq_ignore_ascii_case ''Connection'' ''content-length''" by code_simp
  then show ?thesis by (simp add: next_length_def)
qed

lemma parse_headers_blank: "parse_headers hs cl (crlf @ rest) = Ok ((hs, cl), rest)"
  using parse_line_crlf [of "[]" rest]
  by (subst parse_headers.simps) (simp add: trim_end_crlf_def)

lemma plain_ascii: "list_all plain s \<Longrightarrow> utf8_valid s \<and> LF \<notin> set s"
  by (auto simp: list_all_iff plain_def intro!: utf8_valid_ascii)

lemma parse_headers_plain_line:
  assumes "list_all plain k" and "CHR '':'' \<notin> set k" and "list_all plain v"
  shows "parse_headers hs cl (header_line k v @ rest) = parse_headers (hm_push k v hs) (next_length k v cl) rest"
  using assms by (intro parse_headers_line) (simp_all add: plain_ascii trimmed_plain)

text \<open>The two lines and the blank line that end every head the proxy writes.\<close>

lemma parse_headers_trailer:
  assumes "''Content-Length'' \<notin> fst ` set hs" and "''Connection'' \<notin> fst ` set hs"
    and "n \<le> usize_max" and "list_all plain v"
  shows "parse_headers hs cl (header_line ''Content-Length'' (show_nat n) @ header_line ''Connection'' v @ crlf @ rest)
     = Ok ((hs @ [(''Content-Length'', [show_nat n]), (''Connection'', [v])], Some n), rest)"
proof -
  have p: "list_all plain ''Content-Length''" "list_all plain ''Connection''" by (simp_all add: plain_def)
  have cl: "next_length ''Content-Length'' (show_nat n) cl = Some n"
    using assms(3) by (simp add: content_length_name parse_uint_show_nat)
  have "parse_headers hs cl (header_line ''Content-Length'' (show_nat n) @ header_line ''Connection'' v @ crlf @ rest)
      = parse_headers (hs @ [(''Content-Length'', [show_nat n])]) (Some n) (header_line ''Connection'' v @ crlf @ rest)"
    using parse_headers_plain_line [OF p(1) _ show_nat_plain [of n]] hm_push_new [OF assms(1)] cl by simp
  also have "\<dots> = parse_headers ((hs @ [(''Content-Length'', [show_nat n])]) @ [(''Connection'', [v])]) (Some n) (crlf @ rest)"
    using parse_headers_plain_line [OF p(2) _ assms(4)] connection_name assms(2)
      hm_push_new [of "''Connection''" "hs @ [(''Content-Length'', [show_nat n])]" v] by simp
  finally show ?thesis by (simp add: parse_headers_blank [simplified])
qed

lemma parse_status_written:
  assumes "n \<le> u16_max"
  shows "parse_status (''HTTP/1.1 '' @ show_nat n @ '' '' @ reason @ crlf) = Ok n"
proof -
  have v: "list_all plain ''HTTP/1.1''" by (simp add: plain_def)
  have "split_whitespace (''HTTP/1.1'' @ CHR '' '' # show_nat n @ CHR '' '' # reason @ crlf)
      = ''HTTP/1.1'' # show_nat n # split_ws_from [] (reason @ crlf)"
    using split_ws_plain [OF v, of "[]" "show_nat n @ CHR '' '' # reason @ crlf"]
      split_ws_plain [OF show_nat_plain [of n], of "[]" "reason @ crlf"]
    by (simp add: split_whitespace_def)
  then show ?thesis using assms by (simp add: parse_status_def parse_uint_show_nat)
qed

theorem read_response_refines_parse_witness:
  "fst (read_response \<lparr>rx = [Data ''HTTP/1.1 20'', Data (''0 OK'' @ [CR]), Data [LF, CR, LF]], tx = [], wr_fault = None\<rparr>)
     = Ok \<lparr>rs_status = 200, rs_headers = [], rs_body = []\<rparr>"
proof -
  let ?c = "\<lparr>rx = [Data ''HTTP/1.1 20'', Data (''0 OK'' @ [CR]), Data [LF, CR, LF]], tx = [], wr_fault = None\<rparr>"
  have g: "good_segs (rx ?c)" by simp
  have "show_nat 200 = ''200''" by code_simp
  then have st: "parse_status (''HTTP/1.1 200 OK'' @ crlf) = Ok 200"
    using parse_status_written [of 200 "''OK''"] by (simp add: u16_max_def)
  have hd: "parse_headers [] None crlf = Ok (([], None), [])" by code_simp
  have "parse_line (''HTTP/1.1 200 OK'' @ crlf @ crlf) = Ok (''HTTP/1.1 200 OK'' @ crlf, crlf)"
    by (rule parse_line_crlf) (simp, rule utf8_valid_ascii, simp)
  from parse_response_intro [OF this st hd, of "[]" "[]"]
  have "parse_response (flat (rx ?c)) = Ok (\<lparr>rs_status = 200, rs_headers = [], rs_body = []\<rparr>, [])"
    by (simp add: parse_body_def)
  then show ?thesis using read_response_refines_parse [OF g] by simp
qed

lemma reason_phrase_line: "utf8_valid (reason_phrase n)" "LF \<notin> set (reason_phrase n)"
  by (rule utf8_valid_ascii) (simp_all add: reason_phrase_def)

lemma status_line_carriable:
  "utf8_valid (''HTTP/1.1 '' @ show_nat n @ '' '' @ reason_phrase n)"
  "LF \<notin> set (''HTTP/1.1 '' @ show_nat n @ '' '' @ reason_phrase n)"
proof -
  show "utf8_valid (''HTTP/1.1 '' @ show_nat n @ '' '' @ reason_phrase n)"
    using plain_ascii [OF show_nat_plain [of n]]
    by (intro utf8_valid_append reason_phrase_line) (rule utf8_valid_ascii, simp, simp, rule utf8_valid_ascii, simp)
  show "LF \<notin> set (''HTTP/1.1 '' @ show_nat n @ '' '' @ reason_phrase n)"
    using plain_ascii [OF show_nat_plain [of n]] reason_phrase_line(2) [of n] by auto
qed

lemma unat_le_u16: "unat (w :: 16 word) \<le> u16_max"
proof -
  have "unat w < 2 ^ LENGTH(16)" by (rule unsigned_less)
  then show ?thesis by (simp add: u16_max_def)
qed

text \<open>The response up to and including the blank line.\<close>

definition response_head :: "(headers \<Rightarrow> headers) \<Rightarrow> Response \<Rightarrow> bytes" where
  "response_head ho resp =
     ''HTTP/1.1 '' @ show_nat (unat (rs_status resp)) @ '' '' @ reason_phrase (unat (rs_status resp)) @ crlf
     @ concat (map header_lines (filter (\<lambda>kv. \<not> response_skips (fst kv)) (ho (rs_headers resp))))
     @ header_line ''Content-Length'' (show_nat (length (rs_body resp))) @ header_line ''Connection'' ''close'' @ crlf"

lemma response_bytes_head: "response_bytes ho resp = response_head ho resp @ rs_body resp"
  by (simp add: response_bytes_def response_head_def header_blocks_filter header_line_def)

definition sendable :: "Response \<Rightarrow> bool" where
  "sendable resp \<longleftrightarrow> distinct (map fst (rs_headers resp))
     \<and> (\<forall>kv\<in>set (rs_headers resp). \<not> response_skips (fst kv) \<longrightarrow> carriable kv)
     \<and> length (rs_body resp) \<le> isize_max"

text \<open>What a reader makes of a head the proxy wrote, whatever bytes follow it.\<close>

lemma parse_response_head:
  assumes "hash_order ho" and "sendable resp"
  shows "parse_response (response_head ho resp @ bs) =
    (case parse_body (Some (length (rs_body resp))) bs of
       Ok (body, rest) \<Rightarrow> Ok (\<lparr>rs_status = rs_status resp, rs_headers = sent_headers ho resp, rs_body = body\<rparr>, rest)
     | Err e \<Rightarrow> Err e | Panic \<Rightarrow> Panic | Pending \<Rightarrow> Pending)"
proof -
  let ?n = "unat (rs_status resp)"
  let ?hl = "filter (\<lambda>kv. \<not> response_skips (fst kv)) (ho (rs_headers resp))"
  let ?st = "''HTTP/1.1 '' @ show_nat ?n @ '' '' @ reason_phrase ?n"
  let ?tail = "header_line ''Content-Length'' (show_nat (length (rs_body resp))) @ header_line ''Connection'' ''close''
      @ crlf @ bs"
  have line: "parse_line (response_head ho resp @ bs) = Ok (?st @ crlf, concat (map header_lines ?hl) @ ?tail)"
    using parse_line_crlf [OF status_line_carriable(2,1), of ?n "concat (map header_lines ?hl) @ ?tail"]
    by (simp add: response_head_def)
  have status: "parse_status (?st @ crlf) = Ok ?n"
    using parse_status_written [OF unat_le_u16, of "rs_status resp" "reason_phrase ?n"] by simp
  have d: "distinct (map fst ?hl)"
    using assms by (simp add: sendable_def distinct_map_filter hash_order_distinct)
  have c: "list_all carriable ?hl"
    using assms by (auto simp: sendable_def list_all_iff hash_order_set)
  have ncl: "\<forall>kv\<in>set ?hl. \<not> eq_ignore_ascii_case (fst kv) ''content-length''"
    by (simp add: not_skipped_length)
  have "parse_headers [] None (concat (map header_lines ?hl) @ ?tail) = parse_headers (filter nonempty_values ?hl) None ?tail"
    using parse_headers_list [OF c d _ ncl, of "[]" None ?tail] by simp
  also have "\<dots> = Ok ((sent_headers ho resp, Some (length (rs_body resp))), bs)"
    unfolding sent_headers_def
    by (rule parse_headers_trailer)
       (use trailer_names_skipped assms(2) isize_max_le_usize_max in \<open>auto simp: sendable_def plain_def\<close>)
  finally show ?thesis
    using line status by (simp add: parse_response_def split: outcome.splits)
qed

lemma parse_response_written:
  assumes "hash_order ho" and "sendable resp"
  shows "parse_response (response_bytes ho resp @ rest)
     = Ok (\<lparr>rs_status = rs_status resp, rs_headers = sent_headers ho resp, rs_body = rs_body resp\<rparr>, rest)"
  using parse_response_head [OF assms, of "rs_body resp @ rest"] assms(2)
  by (simp add: response_bytes_head parse_body_def sendable_def)

text \<open>C10: A response the proxy writes is read back by the proxy's own client reader unchanged: same
  status and body, every forwarded header with all its values, plus the \<^verbatim>\<open>Content-Length\<close> and
  \<^verbatim>\<open>Connection: close\<close> lines the proxy puts in place of the upstream's; for every iteration order of
  the header map and every segmentation of the stream.\<close>

theorem response_roundtrip:
  assumes "hash_order ho" and "sendable resp" and "wr_fault w = None" and "tx w = []"
    and "good_segs (rx c)" and "flat (rx c) = tx (snd (write_response ho resp w)) @ rest"
  shows "fst (read_response c) =
     Ok \<lparr>rs_status = rs_status resp, rs_headers = sent_headers ho resp, rs_body = rs_body resp\<rparr>"
proof -
  have "flat (rx c) = response_bytes ho resp @ rest"
    using assms(3,4,6) by (simp add: stream_simps)
  then show ?thesis
    using read_response_parse [OF assms(5)] parse_response_written [OF assms(1,2), of rest] by simp
qed

theorem response_roundtrip_witness:
  "fst (read_response \<lparr>rx = [Data (response_bytes rev
        \<lparr>rs_status = 200, rs_headers = [(''X-Upstream-Id'', [''u1''])], rs_body = ''hi''\<rparr>)], tx = [], wr_fault = None\<rparr>) =
     Ok \<lparr>rs_status = 200,
         rs_headers = [(''X-Upstream-Id'', [''u1'']), (''Content-Length'', [show_nat 2]), (''Connection'', [''close''])],
         rs_body = ''hi''\<rparr>"
proof -
  let ?r = "\<lparr>rs_status = 200, rs_headers = [(''X-Upstream-Id'', [''u1''])], rs_body = ''hi''\<rparr> :: Response"
  let ?w = "\<lparr>rx = [], tx = [], wr_fault = None\<rparr>"
  let ?c = "\<lparr>rx = [Data (response_bytes rev ?r)], tx = [], wr_fault = None\<rparr>"
  have p: "list_all plain ''X-Upstream-Id''" "list_all plain ''u1''" by (simp_all add: plain_def)
  have skip: "\<not> response_skips ''X-Upstream-Id''" by code_simp
  have "carriable (''X-Upstream-Id'', [''u1''])"
    using plain_ascii [OF p(1)] plain_ascii [OF p(2)] trimmed_plain [OF p(1)] trimmed_plain [OF p(2)]
    by (simp only: carriable_def) simp
  then have h: "sendable ?r" by (simp add: sendable_def isize_max_def)
  have "fst (read_response ?c) =
     Ok \<lparr>rs_status = rs_status ?r, rs_headers = sent_headers rev ?r, rs_body = rs_body ?r\<rparr>"
    by (rule response_roundtrip [OF hash_order_rev h, of ?w ?c "[]"])
       (simp_all add: write_response_def write_all_def response_bytes_def)
  then show ?thesis by (simp add: sent_headers_def nonempty_values_def skip numeral_2_eq_2)
qed

text \<open>C36: The header loop takes the end of the stream for the end of the headers: an upstream that
  closes the connection after the status line and any number of complete header lines (none of
  them a content length) yields a successful response with an empty body, not an error.\<close>

theorem truncated_head_accepted:
  assumes "good_segs (rx c)" and "code \<le> u16_max"
    and "flat (rx c) = ''HTTP/1.1 '' @ show_nat code @ '' '' @ reason_phrase code @ crlf @ concat (map header_lines hl)"
    and "list_all carriable hl" and "distinct (map fst hl)"
    and "\<forall>kv\<in>set hl. \<not> eq_ignore_ascii_case (fst kv) ''content-length''"
  shows "fst (read_response c) =
     Ok \<lparr>rs_status = of_nat code, rs_headers = filter nonempty_values hl, rs_body = []\<rparr>"
proof -
  let ?st = "''HTTP/1.1 '' @ show_nat code @ '' '' @ reason_phrase code"
  have line: "parse_line (flat (rx c)) = Ok (?st @ crlf, concat (map header_lines hl))"
    using parse_line_crlf [OF status_line_carriable(2,1), of code "concat (map header_lines hl)"] assms(3) by simp
  have status: "parse_status (?st @ crlf) = Ok code"
    using parse_status_written [OF assms(2), of "reason_phrase code"] by simp
  have "parse_headers hs None [] = Ok ((hs, None), [])" for hs
    by (subst parse_headers.simps) (simp add: parse_line_def split_line_def trim_end_crlf_def)
  then have heads: "parse_headers [] None (concat (map header_lines hl)) = Ok ((filter nonempty_values hl, None), [])"
    using parse_headers_list [OF assms(4,5) _ assms(6), of "[]" None "[]"] by simp
  have "parse_response (flat (rx c)) = Ok (\<lparr>rs_status = of_nat code, rs_headers = filter nonempty_values hl, rs_body = []\<rparr>, [])"
    by (rule parse_response_intro [OF line status heads]) (simp add: parse_body_def)
  then show ?thesis using read_response_parse [OF assms(1)] by simp
qed

theorem truncated_head_accepted_witness:
  "fst (read_response \<lparr>rx = [Data (''HTTP/1.1 '' @ show_nat 200 @ '' OK'' @ crlf)], tx = [], wr_fault = None\<rparr>) =
     Ok \<lparr>rs_status = 200, rs_headers = [], rs_body = []\<rparr>"
  using truncated_head_accepted [of "\<lparr>rx = [Data (''HTTP/1.1 '' @ show_nat 200 @ '' OK'' @ crlf)], tx = [], wr_fault = None\<rparr>" 200 "[]"]
  by (simp add: u16_max_def reason_phrase_def)

text \<open>A response whose body is cut short by the upstream (the head complete, some of the announced
  body bytes missing) is an error, never a shorter body.\<close>

lemma short_body_rejected:
  assumes "hash_order ho" and "sendable resp" and "good_segs (rx c)"
    and "response_bytes ho resp = flat (rx c) @ missing"
    and "missing \<noteq> []" and "length missing \<le> length (rs_body resp)"
  shows "fst (read_response c) = Err (IoFailed (IoError UnexpectedEof ''early eof''))"
proof -
  have eq: "response_head ho resp @ rs_body resp = flat (rx c) @ missing"
    using assms(4) by (simp add: response_bytes_head)
  then have "length (response_head ho resp) + length (rs_body resp) = length (flat (rx c)) + length missing"
    by (metis length_append)
  then obtain got where got: "flat (rx c) = response_head ho resp @ got"
    using eq assms(6) by (metis append_eq_append_conv_if append_take_drop_id add_le_cancel_left add.commute)
  then have "length got < length (rs_body resp)" using eq assms(5) by (cases missing) auto
  with got show ?thesis
    using read_response_parse [OF assms(3)] parse_response_head [OF assms(1,2), of got] assms(2)
    by (simp add: parse_body_def sendable_def)
qed

section \<open>What is left after a head\<close>

text \<open>Header lines up to and including the blank line.\<close>

definition ends_blank :: "bytes \<Rightarrow> bool" where
  "ends_blank bs \<longleftrightarrow> (\<exists>pre. bs = pre @ crlf \<and> (pre = [] \<or> last pre = LF))"

lemma ends_blank_rest:
  assumes "ends_blank bs" and "trim_end_crlf (fst (split_line bs)) \<noteq> []"
  shows "ends_blank (snd (split_line bs))"
proof -
  obtain pre where pre: "bs = pre @ crlf" "pre = [] \<or> last pre = LF" using assms(1) by (auto simp: ends_blank_def)
  have "pre \<noteq> []" using assms(2) pre(1) by (auto simp: split_line_def trim_end_crlf_def)
  then obtain xs ys where x: "pre = xs @ LF # ys" "LF \<notin> set xs" using pre(2) by (metis last_in_set split_list_first)
  then have "snd (split_line bs) = ys @ crlf" using pre(1) by (simp add: split_line_def)
  moreover have "ys = [] \<or> last ys = LF" using pre(2) x(1) by (auto split: if_splits)
  ultimately show ?thesis by (auto simp: ends_blank_def)
qed

lemma read_headers_more:
  assumes "good_segs (snd b)" and "ends_blank (buf_flat b)"
  shows "read_headers hs cl (fst b, snd b @ xs) = and_then (read_headers hs cl b) xs"
  using assms
proof (induction hs cl b rule: read_headers.induct)
  case (1 hs cl b)
  have "LF \<in> set (buf_flat b)" using "1.prems"(2) by (auto simp: ends_blank_def)
  note line = read_line_more [OF "1.prems"(1) this, of xs]
  obtain r b' where rl: "read_line b = (r, b')" by (metis prod.exhaust)
  show ?case
  proof (cases r)
    case (Ok raw)
    have ag: "parse_line (buf_flat b) = Ok (raw, buf_flat b')" "good_segs (snd b')"
      using read_line_agrees [OF "1.prems"(1)] rl Ok by (cases "parse_line (buf_flat b)"; auto)+
    then have sp: "split_line (buf_flat b) = (raw, buf_flat b')" by (auto simp: parse_line_def split: if_splits)
    show ?thesis
    proof (cases "trim_end_crlf raw = [] \<or> parse_header (trim_end_crlf raw) = None")
      case True
      then show ?thesis using line rl Ok
        by (cases b') (auto simp: read_headers.simps [of hs cl] Let_def)
    next
      case False
      then obtain name v where nv: "trim_end_crlf raw \<noteq> []" "parse_header (trim_end_crlf raw) = Some (name, v)" by auto
      have "ends_blank (buf_flat b')" using ends_blank_rest [OF "1.prems"(2)] sp nv(1) by simp
      from "1.IH" [OF _ refl refl nv(1) nv(2) refl ag(2) this] rl Ok
      have "read_headers (hm_push name v hs) (next_length name v cl) (fst b', snd b' @ xs)
        = and_then (read_headers (hm_push name v hs) (next_length name v cl) b') xs" by simp
      then show ?thesis using line rl Ok nv
        by (cases b') (simp add: read_headers.simps [of hs cl] Let_def)
    qed
  qed (use line rl in \<open>cases b'; simp add: read_headers.simps [of hs cl]\<close>)+
qed

text \<open>
  A head without \<^verbatim>\<open>Content-Length\<close>, in segments of its own: the response is complete with an empty body, and
  the segments after it are left on the connection.
\<close>

definition bare_head :: "nat \<Rightarrow> headers \<Rightarrow> bytes" where
  "bare_head code hl = ''HTTP/1.1 '' @ show_nat code @ '' '' @ reason_phrase code @ crlf @ concat (map header_lines hl) @ crlf"

definition bare_headers :: "headers \<Rightarrow> bool" where
  "bare_headers hl \<longleftrightarrow> list_all carriable hl \<and> distinct (map fst hl)
     \<and> (\<forall>kv\<in>set hl. \<not> eq_ignore_ascii_case (fst kv) ''content-length'')"

lemma header_lines_end: "concat (map header_lines hl) = [] \<or> last (concat (map header_lines hl)) = LF"
proof (induction hl)
  case (Cons kv hl)
  have "header_lines kv = [] \<or> last (header_lines kv) = LF"
  proof (cases "snd kv" rule: rev_cases)
    case (snoc vs v)
    then show ?thesis by (cases kv) (simp add: header_lines_def header_line_def)
  qed (cases kv, simp add: header_lines_def)
  with Cons show ?case by (auto simp: last_append)
qed simp

lemma read_bare_head:
  assumes "good_segs ss" and "flat ss = bare_head code hl" and "code \<le> u16_max" and "bare_headers hl"
  shows "read_response_buf ([], ss @ rest) =
    (Ok \<lparr>rs_status = of_nat code, rs_headers = filter nonempty_values hl, rs_body = []\<rparr>, [], rest)"
proof -
  let ?st = "''HTTP/1.1 '' @ show_nat code @ '' '' @ reason_phrase code"
  let ?hl = "concat (map header_lines hl) @ crlf"
  have bl: "buf_flat ([], ss) = ?st @ crlf @ ?hl" using assms(2) by (simp add: buf_flat_def bare_head_def)
  have pl: "parse_line (buf_flat ([], ss)) = Ok (?st @ crlf, ?hl)"
    unfolding bl by (rule parse_line_crlf [OF status_line_carriable(2,1)])
  then obtain b1 where l: "read_line ([], ss) = (Ok (?st @ crlf), b1)" "buf_flat b1 = ?hl" "good_segs (snd b1)"
    using agrees_OkD [of "read_line ([], ss)" "?st @ crlf" ?hl] read_line_agrees [of "([], ss)"] assms(1) by auto
  have "ends_blank ?hl" using header_lines_end [of hl] by (auto simp: ends_blank_def)
  note more = read_headers_more [OF l(3), of "[]" None rest, unfolded l(2), OF this]
  have "parse_headers [] None ?hl = Ok ((filter nonempty_values hl, None), [])"
    using parse_headers_list [of hl "[]" None crlf] parse_headers_blank [of "filter nonempty_values hl" None "[]"] assms(4)
    by (simp add: bare_headers_def)
  then obtain b2 where h: "read_headers [] None b1 = (Ok (filter nonempty_values hl, None), b2)" "buf_flat b2 = []" "good_segs (snd b2)"
    using agrees_OkD [of "read_headers [] None b1" "(filter nonempty_values hl, None)" "[]"] read_headers_agrees [OF l(3), of "[]" None] l(2) by auto
  have b2: "b2 = ([], [])" using h(2,3) good_flat_empty by (cases b2) (simp add: buf_flat_def)
  have "read_line ([], ss @ rest) = (Ok (?st @ crlf), fst b1, snd b1 @ rest)"
    using read_line_more [of "([], ss)" rest] l(1) bl assms(1) by (simp add: and_then_def)
  moreover have "read_headers [] None (fst b1, snd b1 @ rest) = (Ok (filter nonempty_values hl, None), [], rest)"
    using more h(1) b2 by simp
  moreover have "parse_status (?st @ crlf) = Ok code" using parse_status_written [OF assms(3), of "reason_phrase code"] by simp
  ultimately show ?thesis by (simp add: read_response_buf_def read_body_def)
qed

end
