(* ===== verification/Balancer.thy ===== *)
theory Balancer
  imports Rust_Strings
begin

text \<open>
  The load balancer, \<^verbatim>\<open>crates/service-proxy/src/upstream/balancer.rs\<close>: the shared counters, the
  five selectors and their dispatch. Atomic counters are words of the source's width; a state
  change is the returned state, also when the call panics. The random generator is a parameter
  \<open>r\<close>: \<open>r k n\<close> is the \<open>k\<close>-th draw of a call from the range \<open>0..n\<close>.

  The interface of the load-counting selectors is the locale \<open>counting_selector\<close>, interpreted for
  the three of them; the accounting theorems are proved once, inside it.
\<close>

type_synonym rng = "nat \<Rightarrow> nat \<Rightarrow> nat"

text \<open>\<^verbatim>\<open>random_range(0..n)\<close> returns a value of the range, which must not be empty.\<close>

definition rng_ok :: "rng \<Rightarrow> bool" where
  "rng_ok r \<longleftrightarrow> (\<forall>k n. 0 < n \<longrightarrow> r k n < n)"

section \<open>Data\<close>

definition LB_ROUND_ROBIN :: string where "LB_ROUND_ROBIN = ''round-robin''"
definition LB_LEAST_CONN :: string where "LB_LEAST_CONN = ''least-conn''"
definition LB_P2C :: string where "LB_P2C = ''p2c''"

record UpstreamStat =
  st_addr :: string
  st_total :: i64
  st_inflight :: i64

record Fixed =
  fx_addr :: string

record RoundRobin =
  rr_addrs :: "string list"
  rr_counter :: u64

record Counters =
  c_addrs :: "string list"
  c_total :: "i64 list"
  c_inflight :: "i64 list"

record CountingRoundRobin =
  crr_counters :: Counters
  crr_counter :: u64

record LeastConn =
  lc_counters :: Counters

record P2C =
  p2c_counters :: Counters

datatype SelectorKind =
    FixedK Fixed
  | RoundRobinK RoundRobin
  | CountingRoundRobinK CountingRoundRobin
  | LeastConnK LeastConn
  | P2CK P2C

section \<open>Operations\<close>

subsection \<open>\<^verbatim>\<open>Fixed\<close> and \<^verbatim>\<open>RoundRobin\<close>\<close>

definition fixed_new :: "string \<Rightarrow> Fixed" where
  "fixed_new a = \<lparr>fx_addr = a\<rparr>"

definition fixed_next :: "Fixed \<Rightarrow> (string \<times> i32, unit) outcome \<times> Fixed" where
  "fixed_next s = (Ok (fx_addr s, -1), s)"

definition fixed_release :: "i32 \<Rightarrow> Fixed \<Rightarrow> (unit, unit) outcome \<times> Fixed" where
  "fixed_release tok s = (Ok (), s)"

definition rr_new :: "string list \<Rightarrow> RoundRobin" where
  "rr_new as = \<lparr>rr_addrs = as, rr_counter = 0\<rparr>"

definition rr_next :: "RoundRobin \<Rightarrow> (string \<times> i32, unit) outcome \<times> RoundRobin" where
  "rr_next s =
     (let i = rr_counter s; s' = s\<lparr>rr_counter := i + 1\<rparr>; n = length (rr_addrs s)
      in if n = 0 then (Panic, s')
         else (Ok (rr_addrs s ! (unat i mod n), -1), s'))"

definition rr_release :: "i32 \<Rightarrow> RoundRobin \<Rightarrow> (unit, unit) outcome \<times> RoundRobin" where
  "rr_release tok s = (Ok (), s)"

subsection \<open>\<^verbatim>\<open>Counters\<close>\<close>

definition counters_new :: "string list \<Rightarrow> Counters" where
  "counters_new as =
     \<lparr>c_addrs = as, c_total = replicate (length as) 0, c_inflight = replicate (length as) 0\<rparr>"

definition pick :: "nat \<Rightarrow> Counters \<Rightarrow> (string \<times> i32, unit) outcome \<times> Counters" where
  "pick idx c =
     (if idx \<ge> length (c_total c) then (Panic, c)
      else let c1 = c\<lparr>c_total := (c_total c)[idx := c_total c ! idx + 1]\<rparr>
      in if idx \<ge> length (c_inflight c1) then (Panic, c1)
      else let c2 = c1\<lparr>c_inflight := (c_inflight c1)[idx := c_inflight c1 ! idx + 1]\<rparr>
      in if idx \<ge> length (c_addrs c2) then (Panic, c2)
      else (Ok (c_addrs c2 ! idx, of_nat idx), c2))"

definition counters_release :: "i32 \<Rightarrow> Counters \<Rightarrow> (unit, unit) outcome \<times> Counters" where
  "counters_release tok c =
     (if 0 \<le> sint tok then
        (let i = nat (sint tok)
         in if i \<ge> length (c_inflight c) then (Panic, c)
            else (Ok (), c\<lparr>c_inflight := (c_inflight c)[i := c_inflight c ! i - 1]\<rparr>))
      else (Ok (), c))"

fun stats_from :: "bool \<Rightarrow> nat \<Rightarrow> string list \<Rightarrow> Counters \<Rightarrow> (UpstreamStat list, unit) outcome \<times> Counters" where
  "stats_from reset i [] c = (Ok [], c)"
| "stats_from reset i (a # as) c =
     (if i \<ge> length (c_total c) then (Panic, c)
      else let total = c_total c ! i;
               c1 = (if reset then c\<lparr>c_total := (c_total c)[i := c_total c ! i - total]\<rparr> else c)
      in if i \<ge> length (c_inflight c1) then (Panic, c1)
      else (case stats_from reset (Suc i) as c1 of
              (Ok xs, c2) \<Rightarrow> (Ok (\<lparr>st_addr = a, st_total = total, st_inflight = c_inflight c1 ! i\<rparr> # xs), c2)
            | (q, c2) \<Rightarrow> (q, c2)))"

definition counters_stats :: "bool \<Rightarrow> Counters \<Rightarrow> (UpstreamStat list, unit) outcome \<times> Counters" where
  "counters_stats reset c = stats_from reset 0 (c_addrs c) c"

subsection \<open>\<^verbatim>\<open>CountingRoundRobin\<close>\<close>

definition crr_new :: "string list \<Rightarrow> CountingRoundRobin" where
  "crr_new as = \<lparr>crr_counters = counters_new as, crr_counter = 0\<rparr>"

definition crr_next :: "CountingRoundRobin \<Rightarrow> (string \<times> i32, unit) outcome \<times> CountingRoundRobin" where
  "crr_next s =
     (let i = crr_counter s; s' = s\<lparr>crr_counter := i + 1\<rparr>; n = length (c_addrs (crr_counters s))
      in if n = 0 then (Panic, s')
         else (case pick (unat i mod n) (crr_counters s') of
                 (q, c') \<Rightarrow> (q, s'\<lparr>crr_counters := c'\<rparr>)))"

definition crr_release :: "i32 \<Rightarrow> CountingRoundRobin \<Rightarrow> (unit, unit) outcome \<times> CountingRoundRobin" where
  "crr_release tok s =
     (case counters_release tok (crr_counters s) of (q, c') \<Rightarrow> (q, s\<lparr>crr_counters := c'\<rparr>))"

definition crr_stats :: "bool \<Rightarrow> CountingRoundRobin \<Rightarrow> (UpstreamStat list, unit) outcome \<times> CountingRoundRobin" where
  "crr_stats reset s =
     (case counters_stats reset (crr_counters s) of (q, c') \<Rightarrow> (q, s\<lparr>crr_counters := c'\<rparr>))"

subsection \<open>\<^verbatim>\<open>LeastConn\<close>\<close>

definition lc_new :: "string list \<Rightarrow> LeastConn" where
  "lc_new as = \<lparr>lc_counters = counters_new as\<rparr>"

text \<open>The scan \<^verbatim>\<open>for i in 1..addrs.len()\<close>, with the running minimum and the number of ties.\<close>

fun lc_scan :: "rng \<Rightarrow> i64 list \<Rightarrow> nat list \<Rightarrow> nat \<Rightarrow> i64 \<Rightarrow> nat \<Rightarrow> (nat, unit) outcome" where
  "lc_scan r infl [] best best_load ties = Ok best"
| "lc_scan r infl (i # is) best best_load ties =
     (if i \<ge> length infl then Panic
      else let load = infl ! i
      in if sint load < sint best_load then lc_scan r infl is i load 1
         else if load = best_load then
           lc_scan r infl is (if r i (ties + 1) = 0 then i else best) best_load (ties + 1)
         else lc_scan r infl is best best_load ties)"

definition lc_next :: "rng \<Rightarrow> LeastConn \<Rightarrow> (string \<times> i32, unit) outcome \<times> LeastConn" where
  "lc_next r s =
     (let c = lc_counters s
      in if c_inflight c = [] then (Panic, s)
         else (case lc_scan r (c_inflight c) [1..<length (c_addrs c)] 0 (c_inflight c ! 0) 1 of
                 Ok best \<Rightarrow> (case pick best c of (q, c') \<Rightarrow> (q, s\<lparr>lc_counters := c'\<rparr>))
               | _ \<Rightarrow> (Panic, s)))"

definition lc_release :: "i32 \<Rightarrow> LeastConn \<Rightarrow> (unit, unit) outcome \<times> LeastConn" where
  "lc_release tok s =
     (case counters_release tok (lc_counters s) of (q, c') \<Rightarrow> (q, s\<lparr>lc_counters := c'\<rparr>))"

definition lc_stats :: "bool \<Rightarrow> LeastConn \<Rightarrow> (UpstreamStat list, unit) outcome \<times> LeastConn" where
  "lc_stats reset s =
     (case counters_stats reset (lc_counters s) of (q, c') \<Rightarrow> (q, s\<lparr>lc_counters := c'\<rparr>))"

subsection \<open>\<^verbatim>\<open>P2C\<close>\<close>

definition p2c_new :: "string list \<Rightarrow> P2C" where
  "p2c_new as = \<lparr>p2c_counters = counters_new as\<rparr>"

text \<open>The two candidates: \<open>j\<close> is drawn from \<open>0..n-1\<close> and moved past \<open>i\<close>.\<close>

definition p2c_choices :: "rng \<Rightarrow> nat \<Rightarrow> nat \<times> nat" where
  "p2c_choices r n =
     (let i = r 0 n; j = r 1 (n - 1) in (i, if j \<ge> i then j + 1 else j))"

definition p2c_next :: "rng \<Rightarrow> P2C \<Rightarrow> (string \<times> i32, unit) outcome \<times> P2C" where
  "p2c_next r s =
     (let c = p2c_counters s; n = length (c_addrs c)
      in if n = 0 \<or> n - 1 = 0 then (Panic, s)
         else let (i, j) = p2c_choices r n
         in if j \<ge> length (c_inflight c) \<or> i \<ge> length (c_inflight c) then (Panic, s)
         else let k = (if sint (c_inflight c ! j) < sint (c_inflight c ! i) then j else i)
         in case pick k c of (q, c') \<Rightarrow> (q, s\<lparr>p2c_counters := c'\<rparr>))"

definition p2c_release :: "i32 \<Rightarrow> P2C \<Rightarrow> (unit, unit) outcome \<times> P2C" where
  "p2c_release tok s =
     (case counters_release tok (p2c_counters s) of (q, c') \<Rightarrow> (q, s\<lparr>p2c_counters := c'\<rparr>))"

definition p2c_stats :: "bool \<Rightarrow> P2C \<Rightarrow> (UpstreamStat list, unit) outcome \<times> P2C" where
  "p2c_stats reset s =
     (case counters_stats reset (p2c_counters s) of (q, c') \<Rightarrow> (q, s\<lparr>p2c_counters := c'\<rparr>))"

subsection \<open>\<^verbatim>\<open>SelectorKind\<close>\<close>

fun sel_next :: "rng \<Rightarrow> SelectorKind \<Rightarrow> (string \<times> i32, unit) outcome \<times> SelectorKind" where
  "sel_next r (FixedK s) = (case fixed_next s of (q, s') \<Rightarrow> (q, FixedK s'))"
| "sel_next r (RoundRobinK s) = (case rr_next s of (q, s') \<Rightarrow> (q, RoundRobinK s'))"
| "sel_next r (CountingRoundRobinK s) = (case crr_next s of (q, s') \<Rightarrow> (q, CountingRoundRobinK s'))"
| "sel_next r (LeastConnK s) = (case lc_next r s of (q, s') \<Rightarrow> (q, LeastConnK s'))"
| "sel_next r (P2CK s) = (case p2c_next r s of (q, s') \<Rightarrow> (q, P2CK s'))"

fun sel_release :: "i32 \<Rightarrow> SelectorKind \<Rightarrow> (unit, unit) outcome \<times> SelectorKind" where
  "sel_release t (FixedK s) = (case fixed_release t s of (q, s') \<Rightarrow> (q, FixedK s'))"
| "sel_release t (RoundRobinK s) = (case rr_release t s of (q, s') \<Rightarrow> (q, RoundRobinK s'))"
| "sel_release t (CountingRoundRobinK s) = (case crr_release t s of (q, s') \<Rightarrow> (q, CountingRoundRobinK s'))"
| "sel_release t (LeastConnK s) = (case lc_release t s of (q, s') \<Rightarrow> (q, LeastConnK s'))"
| "sel_release t (P2CK s) = (case p2c_release t s of (q, s') \<Rightarrow> (q, P2CK s'))"

fun sel_stats :: "bool \<Rightarrow> SelectorKind \<Rightarrow> (UpstreamStat list option, unit) outcome \<times> SelectorKind" where
  "sel_stats b (CountingRoundRobinK s) =
     (case crr_stats b s of
        (Ok xs, s') \<Rightarrow> (Ok (Some xs), CountingRoundRobinK s') | (_, s') \<Rightarrow> (Panic, CountingRoundRobinK s'))"
| "sel_stats b (LeastConnK s) =
     (case lc_stats b s of
        (Ok xs, s') \<Rightarrow> (Ok (Some xs), LeastConnK s') | (_, s') \<Rightarrow> (Panic, LeastConnK s'))"
| "sel_stats b (P2CK s) =
     (case p2c_stats b s of
        (Ok xs, s') \<Rightarrow> (Ok (Some xs), P2CK s') | (_, s') \<Rightarrow> (Panic, P2CK s'))"
| "sel_stats b s = (Ok None, s)"

fun has_stats :: "SelectorKind \<Rightarrow> bool" where
  "has_stats (CountingRoundRobinK s) = True"
| "has_stats (LeastConnK s) = True"
| "has_stats (P2CK s) = True"
| "has_stats (FixedK s) = False"
| "has_stats (RoundRobinK s) = False"

definition new_selector :: "string list \<Rightarrow> string \<Rightarrow> SelectorKind" where
  "new_selector addrs strategy =
     (if strategy = LB_ROUND_ROBIN then CountingRoundRobinK (crr_new addrs)
      else if strategy = LB_LEAST_CONN then LeastConnK (lc_new addrs)
      else if strategy = LB_P2C then P2CK (p2c_new addrs)
      else if length addrs = 1 then FixedK (fixed_new (hd addrs))
      else RoundRobinK (rr_new addrs))"

declare LB_ROUND_ROBIN_def [sel_simps] and LB_LEAST_CONN_def [sel_simps] and LB_P2C_def [sel_simps]
  and new_selector_def [sel_simps] and counters_new_def [sel_simps] and crr_new_def [sel_simps]
  and lc_new_def [sel_simps] and p2c_new_def [sel_simps] and rr_new_def [sel_simps] and fixed_new_def [sel_simps]

section \<open>Accounting\<close>

text \<open>
  The abstract view of the counters: the multiset \<open>M\<close> of tokens handed out and not yet released,
  and the multiset \<open>H\<close> of tokens handed out since the last reset. Counter \<open>i\<close> holds the number of
  copies of token \<open>i\<close>. Indices must fit the non-negative half of \<^verbatim>\<open>i32\<close>.
\<close>

definition counters_wf :: "Counters \<Rightarrow> bool" where
  "counters_wf c \<longleftrightarrow> length (c_total c) = length (c_addrs c)
     \<and> length (c_inflight c) = length (c_addrs c) \<and> length (c_addrs c) \<le> 2 ^ 31"

definition accounts :: "Counters \<Rightarrow> i32 multiset \<Rightarrow> i32 multiset \<Rightarrow> bool" where
  "accounts c M H \<longleftrightarrow> counters_wf c
     \<and> (\<forall>i < length (c_addrs c). c_inflight c ! i = of_nat (count M (of_nat i)))
     \<and> (\<forall>i < length (c_addrs c). c_total c ! i = of_nat (count H (of_nat i)))
     \<and> (\<forall>t \<in># M. \<exists>i < length (c_addrs c). t = of_nat i)"

definition stat_of :: "Counters \<Rightarrow> nat \<Rightarrow> UpstreamStat" where
  "stat_of c i = \<lparr>st_addr = c_addrs c ! i, st_total = c_total c ! i, st_inflight = c_inflight c ! i\<rparr>"

lemma sint_of_nat_i32: "i < 2 ^ 31 \<Longrightarrow> sint (of_nat i :: 32 word) = int i"
  by (simp add: signed_of_nat signed_take_bit_int_eq_self)

lemma of_nat_i32_inj: "i < 2 ^ 31 \<Longrightarrow> j < 2 ^ 31 \<Longrightarrow> (of_nat i :: 32 word) = of_nat j \<longleftrightarrow> i = j"
  by (metis sint_of_nat_i32 of_nat_eq_iff)

lemma counters_new_accounts: "length as \<le> 2 ^ 31 \<Longrightarrow> accounts (counters_new as) {#} {#}"
  by (simp add: accounts_def counters_wf_def counters_new_def)

lemma pick_wf:
  "counters_wf c \<Longrightarrow> i < length (c_addrs c) \<Longrightarrow>
    pick i c = (Ok (c_addrs c ! i, of_nat i),
      c\<lparr>c_total := (c_total c)[i := c_total c ! i + 1], c_inflight := (c_inflight c)[i := c_inflight c ! i + 1]\<rparr>)"
  by (simp add: pick_def counters_wf_def)

lemma pick_accounts:
  assumes "accounts c M H" and i: "i < length (c_addrs c)"
  shows "accounts (snd (pick i c)) (add_mset (of_nat i) M) (add_mset (of_nat i) H)"
proof -
  have wf: "counters_wf c" using assms by (simp add: accounts_def)
  have inj: "j < length (c_addrs c) \<Longrightarrow> (of_nat i :: 32 word) = of_nat j \<longleftrightarrow> i = j" for j
    using wf i by (intro of_nat_i32_inj) (simp_all add: counters_wf_def)
  show ?thesis
    using assms wf by (auto simp: accounts_def pick_wf counters_wf_def nth_list_update inj add.commute)
qed

lemma release_token:
  assumes "counters_wf c" and "i < length (c_addrs c)"
  shows "counters_release (of_nat i) c = (Ok (), c\<lparr>c_inflight := (c_inflight c)[i := c_inflight c ! i - 1]\<rparr>)"
proof -
  have "sint (of_nat i :: 32 word) = int i"
    using assms by (intro sint_of_nat_i32) (simp add: counters_wf_def)
  then show ?thesis using assms by (simp add: counters_release_def counters_wf_def)
qed

lemma release_negative: "sint tok < 0 \<Longrightarrow> counters_release tok c = (Ok (), c)"
  by (simp add: counters_release_def)

lemma of_nat_count_minus:
  "t \<in># M \<Longrightarrow> (of_nat (count (M - {#t#}) t) :: 64 word) = of_nat (count M t) - 1"
  by (metis add_diff_cancel_right' count_add_mset insert_DiffM of_nat_Suc add.commute)

lemma release_accounts:
  assumes "accounts c M H" and t: "t \<in># M"
  shows "fst (counters_release t c) = Ok ()"
    and "accounts (snd (counters_release t c)) (M - {#t#}) H"
    and "c_addrs (snd (counters_release t c)) = c_addrs c"
proof -
  have wf: "counters_wf c" using assms by (simp add: accounts_def)
  obtain i where i: "i < length (c_addrs c)" "t = of_nat i" using assms by (auto simp: accounts_def)
  have inj: "j < length (c_addrs c) \<Longrightarrow> (of_nat i :: 32 word) = of_nat j \<longleftrightarrow> i = j" for j
    using wf i(1) by (intro of_nat_i32_inj) (simp_all add: counters_wf_def)
  note rel = release_token [OF wf i(1)]
  show "fst (counters_release t c) = Ok ()" and "c_addrs (snd (counters_release t c)) = c_addrs c"
    by (simp_all add: rel i(2))
  show "accounts (snd (counters_release t c)) (M - {#t#}) H"
    using assms wf i(1) of_nat_count_minus [OF t]
    by (auto simp: accounts_def rel i(2) counters_wf_def nth_list_update inj dest: in_diffD)
qed

lemma stats_from_spec:
  assumes "length (c_total c) = length (c_addrs c)" and "length (c_inflight c) = length (c_addrs c)"
    and "i \<le> length (c_addrs c)" and "as = drop i (c_addrs c)"
  shows "stats_from b i as c = (Ok (map (stat_of c) [i..<length (c_addrs c)]),
    if b then c\<lparr>c_total := take i (c_total c) @ replicate (length (c_addrs c) - i) 0\<rparr> else c)"
  using assms
proof (induction as arbitrary: i c)
  case Nil
  then show ?case by simp
next
  case (Cons a as)
  have i: "i < length (c_addrs c)" using Cons.prems(4) by (metis drop_eq_Nil leI list.distinct(1))
  have a: "a = c_addrs c ! i" and as: "as = drop (Suc i) (c_addrs c)"
    using Cons.prems(4) by (metis Cons_nth_drop_Suc i list.inject)+
  let ?c = "if b then c\<lparr>c_total := (c_total c)[i := 0]\<rparr> else c"
  have st: "map (stat_of ?c) [Suc i..<length (c_addrs c)] = map (stat_of c) [Suc i..<length (c_addrs c)]"
    by (auto simp: stat_of_def)
  have "stats_from b (Suc i) as ?c = (Ok (map (stat_of ?c) [Suc i..<length (c_addrs ?c)]),
      if b then ?c\<lparr>c_total := take (Suc i) (c_total ?c) @ replicate (length (c_addrs ?c) - Suc i) 0\<rparr> else ?c)"
    by (rule Cons.IH) (use Cons.prems i as in auto)
  moreover have "take (Suc i) ((c_total c)[i := 0]) @ replicate (length (c_addrs c) - Suc i) 0
      = take i (c_total c) @ replicate (length (c_addrs c) - i) 0"
    using i Cons.prems(1) by (simp add: take_Suc_conv_app_nth replicate_Suc [symmetric] Suc_diff_Suc del: replicate_Suc)
  moreover have "stat_of c i = \<lparr>st_addr = a, st_total = c_total c ! i, st_inflight = c_inflight c ! i\<rparr>"
    by (simp add: stat_of_def a)
  ultimately show ?case
    using Cons.prems(1,2) i st by (auto simp: upt_conv_Cons Let_def)
qed

lemma stats_accounts:
  assumes "accounts c M H"
  shows "fst (counters_stats b c) = Ok (map (stat_of c) [0..<length (c_addrs c)])"
    and "accounts (snd (counters_stats b c)) M (if b then {#} else H)"
    and "c_addrs (snd (counters_stats b c)) = c_addrs c"
  using assms stats_from_spec [of c 0 "c_addrs c" b]
  by (auto simp: counters_stats_def accounts_def counters_wf_def)

subsection \<open>The interface of the counting selectors\<close>

text \<open>
  What a selector built on \<^verbatim>\<open>Counters\<close> promises: with enough upstreams, \<^verbatim>\<open>next\<close> is \<^verbatim>\<open>pick\<close> of some
  index, and \<^verbatim>\<open>release\<close> and \<^verbatim>\<open>stats\<close> are those of the counters.
\<close>

locale counting_selector =
  fixes cnt :: "'s \<Rightarrow> Counters"
    and nxt :: "rng \<Rightarrow> 's \<Rightarrow> (string \<times> i32, unit) outcome \<times> 's"
    and rel :: "i32 \<Rightarrow> 's \<Rightarrow> (unit, unit) outcome \<times> 's"
    and sts :: "bool \<Rightarrow> 's \<Rightarrow> (UpstreamStat list, unit) outcome \<times> 's"
    and need :: nat
  assumes nxt_pick: "\<lbrakk> counters_wf (cnt s); need \<le> length (c_addrs (cnt s)); rng_ok r \<rbrakk> \<Longrightarrow>
      \<exists>i < length (c_addrs (cnt s)). fst (nxt r s) = fst (pick i (cnt s))
        \<and> cnt (snd (nxt r s)) = snd (pick i (cnt s))"
    and nxt_too_few: "\<lbrakk> counters_wf (cnt s); length (c_addrs (cnt s)) < need \<rbrakk> \<Longrightarrow> fst (nxt r s) = Panic"
    and rel_counters: "fst (rel t s) = fst (counters_release t (cnt s))
        \<and> cnt (snd (rel t s)) = snd (counters_release t (cnt s))"
    and sts_counters: "fst (sts b s) = fst (counters_stats b (cnt s))
        \<and> cnt (snd (sts b s)) = snd (counters_stats b (cnt s))"
begin

lemma nxt_accounts:
  assumes "accounts (cnt s) M H" and "need \<le> length (c_addrs (cnt s))" and "rng_ok r"
  shows "\<exists>i s'. i < length (c_addrs (cnt s)) \<and> nxt r s = (Ok (c_addrs (cnt s) ! i, of_nat i), s')
     \<and> accounts (cnt s') (add_mset (of_nat i) M) (add_mset (of_nat i) H)
     \<and> c_addrs (cnt s') = c_addrs (cnt s)"
proof -
  have wf: "counters_wf (cnt s)" using assms(1) by (simp add: accounts_def)
  obtain i where i: "i < length (c_addrs (cnt s))" "fst (nxt r s) = fst (pick i (cnt s))"
      "cnt (snd (nxt r s)) = snd (pick i (cnt s))"
    using nxt_pick [OF wf assms(2,3)] by blast
  have "accounts (cnt (snd (nxt r s))) (add_mset (of_nat i) M) (add_mset (of_nat i) H)"
    using pick_accounts [OF assms(1) i(1)] i(3) by simp
  moreover have "nxt r s = (Ok (c_addrs (cnt s) ! i, of_nat i), snd (nxt r s))"
    using i(2) pick_wf [OF wf i(1)] by (metis fst_conv prod.collapse)
  moreover have "c_addrs (cnt (snd (nxt r s))) = c_addrs (cnt s)"
    using i(3) pick_wf [OF wf i(1)] by simp
  ultimately show ?thesis using i(1) by blast
qed

lemma rel_accounts:
  assumes "accounts (cnt s) M H" and "t \<in># M"
  shows "\<exists>s'. rel t s = (Ok (), s') \<and> accounts (cnt s') (M - {#t#}) H \<and> c_addrs (cnt s') = c_addrs (cnt s)"
  using release_accounts [OF assms] rel_counters [of t s] by (metis prod.collapse)

lemma sts_accounts:
  assumes "accounts (cnt s) M H"
  shows "\<exists>s'. sts b s = (Ok (map (stat_of (cnt s)) [0..<length (c_addrs (cnt s))]), s')
     \<and> accounts (cnt s') M (if b then {#} else H) \<and> c_addrs (cnt s') = c_addrs (cnt s)"
  using stats_accounts [OF assms, of b] sts_counters [of b s] by (metis prod.collapse)

end

subsection \<open>\<^verbatim>\<open>next\<close> of each selector\<close>

lemma lc_scan_min:
  assumes "best < length infl" and "infl ! best = bl" and "\<forall>i\<in>set is. i < length infl"
  shows "\<exists>b. lc_scan r infl is best bl ties = Ok b \<and> b \<in> insert best (set is)
     \<and> sint (infl ! b) \<le> sint bl \<and> (\<forall>i\<in>set is. sint (infl ! b) \<le> sint (infl ! i))"
  using assms
proof (induction "is" arbitrary: best bl ties)
  case Nil
  then show ?case by simp
next
  case (Cons i "is")
  consider "sint (infl ! i) < sint bl" | "infl ! i = bl" | "sint bl \<le> sint (infl ! i)" "infl ! i \<noteq> bl"
    by linarith
  then show ?case
  proof cases
    case 1
    with Cons.prems Cons.IH [of i "infl ! i" 1] show ?thesis by fastforce
  next
    case 2
    with Cons.prems Cons.IH [of "if r i (ties + 1) = 0 then i else best" bl "ties + 1"]
    show ?thesis by (fastforce split: if_splits)
  next
    case 3
    with Cons.prems Cons.IH [of best bl ties] show ?thesis by fastforce
  qed
qed

lemma lc_next_spec:
  assumes wf: "counters_wf (lc_counters s)" and ne: "c_addrs (lc_counters s) \<noteq> []"
  shows "\<exists>i < length (c_addrs (lc_counters s)).
     lc_next r s = (fst (pick i (lc_counters s)), s\<lparr>lc_counters := snd (pick i (lc_counters s))\<rparr>)
     \<and> (\<forall>j < length (c_addrs (lc_counters s)).
          sint (c_inflight (lc_counters s) ! i) \<le> sint (c_inflight (lc_counters s) ! j))"
proof -
  let ?c = "lc_counters s"
  have len: "length (c_inflight ?c) = length (c_addrs ?c)" "0 < length (c_addrs ?c)"
    using wf ne by (simp_all add: counters_wf_def)
  obtain b where b: "lc_scan r (c_inflight ?c) [1..<length (c_addrs ?c)] 0 (c_inflight ?c ! 0) 1 = Ok b"
      "b \<in> insert 0 (set [1..<length (c_addrs ?c)])"
      "sint (c_inflight ?c ! b) \<le> sint (c_inflight ?c ! 0)"
      "\<forall>i\<in>set [1..<length (c_addrs ?c)]. sint (c_inflight ?c ! b) \<le> sint (c_inflight ?c ! i)"
    using lc_scan_min [of 0 "c_inflight ?c" "c_inflight ?c ! 0" "[1..<length (c_addrs ?c)]" r 1] len by auto
  have "c_inflight ?c \<noteq> []" using len by auto
  then have "lc_next r s = (fst (pick b ?c), s\<lparr>lc_counters := snd (pick b ?c)\<rparr>)"
    using b(1) by (simp add: lc_next_def Let_def split_beta)
  moreover have "b < length (c_addrs ?c)" using b(2) len by auto
  moreover have "sint (c_inflight ?c ! b) \<le> sint (c_inflight ?c ! j)" if "j < length (c_addrs ?c)" for j
    using b(3,4) that by (cases "j = 0") auto
  ultimately show ?thesis by blast
qed

lemma p2c_choices_distinct:
  assumes "rng_ok r" and "2 \<le> n" and "p2c_choices r n = (i, j)"
  shows "i < n" and "j < n" and "i \<noteq> j"
proof -
  have "r 0 n < n" and "r 1 (n - 1) < n - 1" using assms(1,2) by (auto simp: rng_ok_def)
  with assms(3) show "i < n" and "j < n" and "i \<noteq> j"
    by (auto simp: p2c_choices_def Let_def split: if_splits)
qed

lemma p2c_next_spec:
  assumes wf: "counters_wf (p2c_counters s)" and n: "2 \<le> length (c_addrs (p2c_counters s))" and "rng_ok r"
  shows "\<exists>i j k. p2c_choices r (length (c_addrs (p2c_counters s))) = (i, j)
     \<and> i < length (c_addrs (p2c_counters s)) \<and> j < length (c_addrs (p2c_counters s)) \<and> i \<noteq> j
     \<and> k \<in> {i, j}
     \<and> sint (c_inflight (p2c_counters s) ! k) \<le> sint (c_inflight (p2c_counters s) ! i)
     \<and> sint (c_inflight (p2c_counters s) ! k) \<le> sint (c_inflight (p2c_counters s) ! j)
     \<and> p2c_next r s = (fst (pick k (p2c_counters s)), s\<lparr>p2c_counters := snd (pick k (p2c_counters s))\<rparr>)"
proof -
  let ?c = "p2c_counters s"
  obtain i j where ij: "p2c_choices r (length (c_addrs ?c)) = (i, j)" by fastforce
  note d = p2c_choices_distinct [OF assms(3) n ij]
  define k where "k = (if sint (c_inflight ?c ! j) < sint (c_inflight ?c ! i) then j else i)"
  have "p2c_next r s = (fst (pick k ?c), s\<lparr>p2c_counters := snd (pick k ?c)\<rparr>)"
    using wf n d ij by (auto simp: p2c_next_def Let_def k_def counters_wf_def split_beta)
  moreover have "k \<in> {i, j}" "sint (c_inflight ?c ! k) \<le> sint (c_inflight ?c ! i)"
      "sint (c_inflight ?c ! k) \<le> sint (c_inflight ?c ! j)"
    by (auto simp: k_def)
  ultimately show ?thesis using d ij by blast
qed

lemma crr_next_spec:
  assumes "c_addrs (crr_counters s) \<noteq> []"
  shows "crr_next s =
    (fst (pick (unat (crr_counter s) mod length (c_addrs (crr_counters s))) (crr_counters s)),
     s\<lparr>crr_counter := crr_counter s + 1,
       crr_counters := snd (pick (unat (crr_counter s) mod length (c_addrs (crr_counters s))) (crr_counters s))\<rparr>)"
  using assms by (simp add: crr_next_def Let_def split_beta)

interpretation crr: counting_selector crr_counters "\<lambda>r. crr_next" crr_release crr_stats 1
proof (unfold_locales, goal_cases)
  case (1 s r)
  have "unat (crr_counter s) mod length (c_addrs (crr_counters s)) < length (c_addrs (crr_counters s))"
    by (rule mod_less_divisor) (use 1 in linarith)
  moreover have "c_addrs (crr_counters s) \<noteq> []" using 1 by auto
  ultimately show ?case
    by (intro exI [of _ "unat (crr_counter s) mod length (c_addrs (crr_counters s))"]) (simp add: crr_next_spec)
qed (auto simp: crr_next_def crr_release_def crr_stats_def Let_def split_beta)

interpretation lc: counting_selector lc_counters lc_next lc_release lc_stats 1
proof (unfold_locales, goal_cases)
  case (1 s r)
  then show ?case using lc_next_spec [of s r] by fastforce
qed (auto simp: lc_next_def lc_release_def lc_stats_def counters_wf_def Let_def split_beta)

interpretation p2c: counting_selector p2c_counters p2c_next p2c_release p2c_stats 2
proof (unfold_locales, goal_cases)
  case (1 s r)
  then show ?case using p2c_next_spec [of s r] by fastforce
qed (auto simp: p2c_next_def p2c_release_def p2c_stats_def Let_def split_beta)

section \<open>Sessions\<close>

text \<open>
  Any interleaving of the calls that the request handlers and the stats endpoint make on a
  shared selector: tokens are taken by \<^verbatim>\<open>next\<close>, every token taken is given back at most once, and
  snapshots may reset the totals. \<open>M\<close> are the tokens out, \<open>H\<close> those taken since the last reset.
\<close>

inductive sel_session :: "SelectorKind \<Rightarrow> SelectorKind \<Rightarrow> i32 multiset \<Rightarrow> i32 multiset \<Rightarrow> bool" for s0 where
  fresh: "sel_session s0 s0 {#} {#}"
| take_token: "\<lbrakk> sel_session s0 s M H; rng_ok r; sel_next r s = (Ok (a, t), s') \<rbrakk> \<Longrightarrow>
    sel_session s0 s' (add_mset t M) (add_mset t H)"
| give_back: "\<lbrakk> sel_session s0 s M H; t \<in># M; sel_release t s = (q, s') \<rbrakk> \<Longrightarrow>
    sel_session s0 s' (M - {#t#}) H"
| snapshot: "\<lbrakk> sel_session s0 s M H; sel_stats b s = (q, s') \<rbrakk> \<Longrightarrow>
    sel_session s0 s' M (if b then {#} else H)"

fun counters_of :: "SelectorKind \<Rightarrow> Counters option" where
  "counters_of (CountingRoundRobinK s) = Some (crr_counters s)"
| "counters_of (LeastConnK s) = Some (lc_counters s)"
| "counters_of (P2CK s) = Some (p2c_counters s)"
| "counters_of (FixedK s) = None"
| "counters_of (RoundRobinK s) = None"

definition sel_need :: "SelectorKind \<Rightarrow> nat" where
  "sel_need s = (case s of P2CK _ \<Rightarrow> 2 | _ \<Rightarrow> 1)"

text \<open>The states after \<open>m\<close> calls of \<^verbatim>\<open>next\<close> in a row.\<close>

fun crr_nexts :: "nat \<Rightarrow> CountingRoundRobin \<Rightarrow> CountingRoundRobin" where
  "crr_nexts 0 s = s"
| "crr_nexts (Suc m) s = snd (crr_next (crr_nexts m s))"

fun rr_nexts :: "nat \<Rightarrow> RoundRobin \<Rightarrow> RoundRobin" where
  "rr_nexts 0 s = s"
| "rr_nexts (Suc m) s = snd (rr_next (rr_nexts m s))"

lemma has_stats_counters: "has_stats s \<longleftrightarrow> (\<exists>c. counters_of s = Some c)"
  by (cases s) auto

text \<open>The interface laws, lifted to the dispatching selector.\<close>

lemma sel_next_accounts:
  assumes "counters_of s = Some c" and "accounts c M H" and "rng_ok r"
    and "sel_need s \<le> length (c_addrs c)"
  shows "\<exists>i s' c'. i < length (c_addrs c) \<and> sel_next r s = (Ok (c_addrs c ! i, of_nat i), s')
     \<and> counters_of s' = Some c' \<and> accounts c' (add_mset (of_nat i) M) (add_mset (of_nat i) H)
     \<and> c_addrs c' = c_addrs c"
proof (cases s)
  case (CountingRoundRobinK x)
  with assms crr.nxt_accounts [of x M H r] show ?thesis by (auto simp: sel_need_def)
next
  case (LeastConnK x)
  with assms lc.nxt_accounts [of x M H r] show ?thesis by (auto simp: sel_need_def)
next
  case (P2CK x)
  with assms p2c.nxt_accounts [of x M H r] show ?thesis by (auto simp: sel_need_def)
qed (use assms(1) in simp_all)

lemma sel_next_too_few:
  assumes "counters_of s = Some c" and "counters_wf c" and "length (c_addrs c) < sel_need s"
  shows "fst (sel_next r s) = Panic"
  using assms crr.nxt_too_few lc.nxt_too_few p2c.nxt_too_few
  by (cases s) (auto simp: sel_need_def split_beta)

lemma sel_release_accounts:
  assumes "counters_of s = Some c" and "accounts c M H" and "t \<in># M"
  shows "\<exists>s' c'. sel_release t s = (Ok (), s') \<and> counters_of s' = Some c' \<and> accounts c' (M - {#t#}) H
     \<and> c_addrs c' = c_addrs c"
proof (cases s)
  case (CountingRoundRobinK x)
  with assms crr.rel_accounts [of x M H t] show ?thesis by auto
next
  case (LeastConnK x)
  with assms lc.rel_accounts [of x M H t] show ?thesis by auto
next
  case (P2CK x)
  with assms p2c.rel_accounts [of x M H t] show ?thesis by auto
qed (use assms(1) in simp_all)

lemma sel_stats_accounts:
  assumes "counters_of s = Some c" and "accounts c M H"
  shows "\<exists>s' c'. sel_stats b s = (Ok (Some (map (stat_of c) [0..<length (c_addrs c)])), s')
     \<and> counters_of s' = Some c' \<and> accounts c' M (if b then {#} else H) \<and> c_addrs c' = c_addrs c"
proof (cases s)
  case (CountingRoundRobinK x)
  with assms crr.sts_accounts [of x M H b] show ?thesis by auto
next
  case (LeastConnK x)
  with assms lc.sts_accounts [of x M H b] show ?thesis by auto
next
  case (P2CK x)
  with assms p2c.sts_accounts [of x M H b] show ?thesis by auto
qed (use assms(1) in simp_all)

lemma sel_session_inv:
  assumes "sel_session s0 s M H" and "counters_of s0 = Some c0" and "accounts c0 {#} {#}"
  shows "\<exists>c. counters_of s = Some c \<and> accounts c M H \<and> c_addrs c = c_addrs c0"
  using assms
proof (induction rule: sel_session.induct)
  case fresh
  then show ?case by simp
next
  case (take_token s M H r a t s')
  then obtain c where c: "counters_of s = Some c" "accounts c M H" "c_addrs c = c_addrs c0" by blast
  have "sel_need s \<le> length (c_addrs c)"
    using sel_next_too_few [OF c(1), of r] c(2) take_token.hyps(3)
    by (metis accounts_def fst_conv not_le outcome.distinct(3))
  from sel_next_accounts [OF c(1,2) take_token.hyps(2) this] show ?case
    using take_token.hyps(3) c(3) by auto
next
  case (give_back s M H t q s')
  then show ?case using sel_release_accounts by (metis prod.inject)
next
  case (snapshot s M H b q s')
  then show ?case using sel_stats_accounts by (metis prod.inject)
qed

lemma new_selector_counters:
  "has_stats (new_selector as st) \<Longrightarrow> counters_of (new_selector as st) = Some (counters_new as)"
  by (simp add: new_selector_def crr_new_def lc_new_def p2c_new_def split: if_splits)

lemma counters_of_session:
  assumes "sel_session s0 s M H" and "\<not> has_stats s0" shows "\<not> has_stats s"
  using assms
proof (induction rule: sel_session.induct)
  case (take_token s M H r a t s')
  then show ?case by (cases s) (auto split: prod.splits)
next
  case (give_back s M H t q s')
  then show ?case by (cases s) (auto split: prod.splits)
next
  case (snapshot s M H b q s')
  then show ?case by (cases s) auto
qed simp

lemma session_snapshot:
  assumes "sel_session (new_selector as strategy) s M H" and "has_stats s" and "length as \<le> 2 ^ 31"
  shows "fst (sel_stats b s) = Ok (Some (map (\<lambda>i.
     \<lparr>st_addr = as ! i, st_total = of_nat (count H (of_nat i)), st_inflight = of_nat (count M (of_nat i))\<rparr>)
     [0..<length as]))"
proof -
  have "has_stats (new_selector as strategy)"
    using counters_of_session [OF assms(1)] assms(2) by blast
  then have "counters_of (new_selector as strategy) = Some (counters_new as)"
    by (rule new_selector_counters)
  then obtain c where c: "counters_of s = Some c" "accounts c M H" "c_addrs c = as"
    using sel_session_inv [OF assms(1) _ counters_new_accounts [OF assms(3)]]
    by (auto simp: counters_new_def)
  show ?thesis using sel_stats_accounts [OF c(1,2), of b] c(2,3)
    by (auto simp: stat_of_def accounts_def)
qed

text \<open>C18: Least-connections sends the request to an upstream with the fewest in-flight requests,
  whatever the tie-breaking draws.\<close>

theorem least_conn_picks_minimum:
  assumes "counters_wf (lc_counters s)" and "c_addrs (lc_counters s) \<noteq> []"
  shows "\<exists>i < length (c_addrs (lc_counters s)).
     fst (lc_next r s) = Ok (c_addrs (lc_counters s) ! i, of_nat i)
     \<and> (\<forall>j < length (c_addrs (lc_counters s)).
          sint (c_inflight (lc_counters s) ! i) \<le> sint (c_inflight (lc_counters s) ! j))"
  using lc_next_spec [OF assms, of r] pick_wf [OF assms(1)] by fastforce

theorem least_conn_picks_minimum_witness:
  "fst (lc_next (\<lambda>_ _. 0) \<lparr>lc_counters = \<lparr>c_addrs = [''a'', ''b'', ''c''], c_total = [0, 0, 0],
      c_inflight = [10, 0, 3]\<rparr>\<rparr>) = Ok (''b'', 1)"
proof -
  let ?s = "\<lparr>lc_counters = \<lparr>c_addrs = [''a'', ''b'', ''c''], c_total = [0, 0, 0],
      c_inflight = [10, 0, 3]\<rparr>\<rparr>"
  have "counters_wf (lc_counters ?s)" and "c_addrs (lc_counters ?s) \<noteq> []"
    by (simp_all add: counters_wf_def)
  from least_conn_picks_minimum [OF this, of "\<lambda>_ _. 0"]
  obtain i where i: "i < 3" "fst (lc_next (\<lambda>_ _. 0) ?s) = Ok ([''a'', ''b'', ''c''] ! i, of_nat i)"
    "sint ([10, 0, 3 :: 64 word] ! i) \<le> 0"
    by (auto simp del: lc_next_def simp: numeral_3_eq_3 dest!: spec [of _ 1])
  moreover from i(1) have "i = 0 \<or> i = 1 \<or> i = 2" by linarith
  ultimately show ?thesis by auto
qed

text \<open>C20: Power-of-two-choices compares two distinct upstreams and sends the request to one that
  is at most as loaded as the other.\<close>

theorem p2c_picks_less_loaded:
  assumes "counters_wf (p2c_counters s)" and "2 \<le> length (c_addrs (p2c_counters s))" and "rng_ok r"
  shows "\<exists>k j. k < length (c_addrs (p2c_counters s)) \<and> j < length (c_addrs (p2c_counters s)) \<and> k \<noteq> j
     \<and> {k, j} = {fst (p2c_choices r (length (c_addrs (p2c_counters s)))),
                  snd (p2c_choices r (length (c_addrs (p2c_counters s))))}
     \<and> sint (c_inflight (p2c_counters s) ! k) \<le> sint (c_inflight (p2c_counters s) ! j)
     \<and> fst (p2c_next r s) = Ok (c_addrs (p2c_counters s) ! k, of_nat k)"
proof -
  obtain i j k where "p2c_choices r (length (c_addrs (p2c_counters s))) = (i, j)"
    "i < length (c_addrs (p2c_counters s))" "j < length (c_addrs (p2c_counters s))" "i \<noteq> j" "k \<in> {i, j}"
    "sint (c_inflight (p2c_counters s) ! k) \<le> sint (c_inflight (p2c_counters s) ! i)"
    "sint (c_inflight (p2c_counters s) ! k) \<le> sint (c_inflight (p2c_counters s) ! j)"
    "p2c_next r s = (fst (pick k (p2c_counters s)), s\<lparr>p2c_counters := snd (pick k (p2c_counters s))\<rparr>)"
    using p2c_next_spec [OF assms] by blast
  then show ?thesis
    using pick_wf [OF assms(1), of k]
    by (intro exI [of _ k] exI [of _ "if k = i then j else i"]) auto
qed

theorem p2c_picks_less_loaded_witness:
  "fst (p2c_next (\<lambda>_ _. 0) \<lparr>p2c_counters = \<lparr>c_addrs = [''x'', ''y''], c_total = [0, 0], c_inflight = [5, 0]\<rparr>\<rparr>)
     = Ok (''y'', 1)"
proof -
  let ?s = "\<lparr>p2c_counters = \<lparr>c_addrs = [''x'', ''y''], c_total = [0, 0], c_inflight = [5, 0]\<rparr>\<rparr>"
  have "counters_wf (p2c_counters ?s)" "2 \<le> length (c_addrs (p2c_counters ?s))" "rng_ok (\<lambda>_ _. 0)"
    by (simp_all add: counters_wf_def rng_ok_def)
  from p2c_picks_less_loaded [OF this]
  obtain k j where k: "k < 2" "j < 2" "k \<noteq> j" "sint ([5, 0 :: 64 word] ! k) \<le> sint ([5, 0 :: 64 word] ! j)"
    "fst (p2c_next (\<lambda>_ _. 0) ?s) = Ok ([''x'', ''y''] ! k, of_nat k)"
    by (auto simp: numeral_2_eq_2)
  from k(1-3) consider "k = 0" "j = 1" | "k = 1" "j = 0" by linarith
  then show ?thesis
  proof cases
    case 1
    with k(4) show ?thesis by simp
  next
    case 2
    with k(5) show ?thesis by simp
  qed
qed

lemma crr_nexts_state:
  assumes "as \<noteq> []" and "length as \<le> 2 ^ 31" and "m < 2 ^ 64"
  shows "counters_wf (crr_counters (crr_nexts m (crr_new as)))
    \<and> c_addrs (crr_counters (crr_nexts m (crr_new as))) = as
    \<and> crr_counter (crr_nexts m (crr_new as)) = of_nat m
    \<and> (\<forall>i < length as. c_total (crr_counters (crr_nexts m (crr_new as))) ! i =
         of_nat (m div length as + (if i < m mod length as then 1 else 0)))"
  using assms(3)
proof (induction m)
  case 0
  then show ?case using assms by (simp add: crr_new_def counters_new_def counters_wf_def)
next
  case (Suc m)
  let ?s = "crr_nexts m (crr_new as)"
  have IH: "counters_wf (crr_counters ?s)" "c_addrs (crr_counters ?s) = as" "crr_counter ?s = of_nat m"
    "\<And>i. i < length as \<Longrightarrow> c_total (crr_counters ?s) ! i =
         of_nat (m div length as + (if i < m mod length as then 1 else 0))"
    using Suc by simp_all
  have k: "m mod length as < length as" using assms(1) by simp
  have u: "unat (of_nat m :: 64 word) = m" using Suc.prems by (simp add: unat_of_nat)
  have st: "snd (crr_next ?s) = ?s\<lparr>crr_counter := of_nat m + 1,
      crr_counters := (crr_counters ?s)
        \<lparr>c_total := (c_total (crr_counters ?s))[m mod length as := c_total (crr_counters ?s) ! (m mod length as) + 1],
         c_inflight := (c_inflight (crr_counters ?s))[m mod length as := c_inflight (crr_counters ?s) ! (m mod length as) + 1]\<rparr>\<rparr>"
    using crr_next_spec [of ?s] pick_wf [OF IH(1), of "m mod length as"] IH(2,3) u k assms(1) by simp
  have len: "length (c_total (crr_counters ?s)) = length as" using IH(1,2) by (simp add: counters_wf_def)
  have tot: "(c_total (crr_counters ?s))[m mod length as := c_total (crr_counters ?s) ! (m mod length as) + 1] ! i
      = of_nat (Suc m div length as + (if i < Suc m mod length as then 1 else 0))" if i: "i < length as" for i
    using IH(4) [OF i] i k len by (auto simp: div_Suc mod_Suc nth_list_update)
  have "counters_wf (crr_counters (snd (crr_next ?s)))"
    using IH(1,2) st by (simp add: counters_wf_def)
  moreover have "c_addrs (crr_counters (snd (crr_next ?s))) = as"
    using IH(2) st by simp
  moreover have "crr_counter (snd (crr_next ?s)) = of_nat (Suc m)"
    using st by (simp add: add.commute)
  moreover have "c_total (crr_counters (snd (crr_next ?s))) =
      (c_total (crr_counters ?s))[m mod length as := c_total (crr_counters ?s) ! (m mod length as) + 1]"
    using st by simp
  ultimately show ?case using tot by (simp only: crr_nexts.simps) simp
qed

text \<open>Without concurrency, after \<open>m\<close> requests over \<open>n\<close> upstreams, upstream \<open>i\<close>
  got \<open>m div n\<close> of them, and one more if \<open>i < m mod n\<close>.\<close>

lemma round_robin_fair:
  assumes "as \<noteq> []" and "length as \<le> 2 ^ 31" and "m < 2 ^ 64" and "i < length as"
  shows "c_total (crr_counters (crr_nexts m (crr_new as))) ! i =
     of_nat (m div length as + (if i < m mod length as then 1 else 0))"
  using crr_nexts_state [OF assms(1-3)] assms(4) by simp

text \<open>C38: Exactly when a freshly built selector cannot serve a request: \<^verbatim>\<open>next\<close> panics if no
  upstream is configured, or if power-of-two-choices is configured with a single upstream.\<close>

theorem new_selector_panics_iff:
  assumes "rng_ok r" and "length as \<le> 2 ^ 31"
  shows "fst (sel_next r (new_selector as strategy)) = Panic \<longleftrightarrow>
     as = [] \<or> (strategy = LB_P2C \<and> length as = 1)"
proof (cases "has_stats (new_selector as strategy)")
  case True
  let ?s = "new_selector as strategy"
  have c: "counters_of ?s = Some (counters_new as)" by (rule new_selector_counters [OF True])
  have acc: "accounts (counters_new as) {#} {#}" by (rule counters_new_accounts [OF assms(2)])
  have len: "c_addrs (counters_new as) = as" by (simp add: counters_new_def)
  have need: "sel_need ?s = (if strategy = LB_P2C then 2 else 1)"
    using True by (auto simp: new_selector_def sel_need_def LB_P2C_def LB_LEAST_CONN_def LB_ROUND_ROBIN_def)
  show ?thesis
  proof (cases "sel_need ?s \<le> length as")
    case True
    then show ?thesis using sel_next_accounts [OF c acc assms(1)] need len by (auto split: if_splits)
  next
    case False
    then have "fst (sel_next r ?s) = Panic"
      using sel_next_too_few [OF c] acc len by (simp add: accounts_def)
    with False show ?thesis using need by (cases "length as") (auto split: if_splits)
  qed
next
  case False
  then show ?thesis
    by (auto simp: new_selector_def fixed_next_def rr_new_def rr_next_def Let_def split: if_splits)
qed

theorem new_selector_panics_iff_witness:
  "fst (sel_next (\<lambda>_ _. 0) (new_selector [''a''] LB_P2C)) = Panic"
  using new_selector_panics_iff [of "\<lambda>_ _. 0" "[''a'']" LB_P2C] by (simp add: rng_ok_def)

lemma rr_nexts_state: "rr_nexts m (rr_new as) = \<lparr>rr_addrs = as, rr_counter = of_nat m\<rparr>"
  by (induction m) (simp_all add: rr_new_def rr_next_def Let_def add.commute)

text \<open>Plain round-robin without counters cycles through the upstreams in order: the \<open>m\<close>-th
  call (counting from zero) returns address \<open>m mod n\<close> with the token that release ignores.\<close>

lemma round_robin_cycles:
  assumes "as \<noteq> []" and "m < 2 ^ 64"
  shows "fst (rr_next (rr_nexts m (rr_new as))) = Ok (as ! (m mod length as), -1)"
  using assms by (simp add: rr_nexts_state rr_next_def Let_def unat_of_nat)

section \<open>No panic in any session\<close>

text \<open>The selectors without counters: their addresses stay, and they never index past them.\<close>

lemma plain_session:
  assumes "sel_session s0 s M H" and "s0 = FixedK x \<or> s0 = RoundRobinK y"
  shows "s0 = FixedK x \<and> s = s0 \<or> (s0 = RoundRobinK y \<and> (\<exists>z. s = RoundRobinK z \<and> rr_addrs z = rr_addrs y))"
  using assms
proof (induction rule: sel_session.induct)
  case (take_token s M H r a t s')
  then show ?case by (auto simp: fixed_next_def rr_next_def Let_def split: if_splits)
next
  case (give_back s M H t q s')
  then show ?case by (auto simp: fixed_release_def rr_release_def)
qed auto

lemma need_session:
  assumes "sel_session s0 s M H"
  shows "sel_need s = sel_need s0"
  using assms
proof (induction rule: sel_session.induct)
  case (take_token s M H r a t s')
  then show ?case by (cases s) (auto simp: sel_need_def split: prod.splits)
next
  case (give_back s M H t q s')
  then show ?case by (cases s) (auto simp: sel_need_def split: prod.splits)
next
  case (snapshot s M H b q s')
  then show ?case by (cases s) (auto simp: sel_need_def split: prod.splits outcome.splits)
qed simp

text \<open>C22: Index safety of the selectors: with enough upstreams for the strategy (two for power-of-two-choices,
  one for the others), in every state that calls of \<^verbatim>\<open>next\<close>, \<^verbatim>\<open>release\<close> and \<^verbatim>\<open>stats\<close> can reach, none
  of the three panics: \<^verbatim>\<open>next\<close> returns a configured upstream, every token that is out can be
  released, and statistics can be read, with or without reset.\<close>

theorem selector_never_panics:
  assumes "sel_session (new_selector as strategy) s M H" and "length as \<le> 2 ^ 31" and "rng_ok r"
    and "as \<noteq> []" and "strategy \<noteq> LB_P2C \<or> 1 < length as"
  shows "(\<exists>a tok. fst (sel_next r s) = Ok (a, tok) \<and> a \<in> set as) \<and> (\<forall>t \<in># M. fst (sel_release t s) = Ok ())
    \<and> (\<exists>st. fst (sel_stats b s) = Ok st)"
proof (cases "has_stats (new_selector as strategy)")
  case True
  obtain c where c: "counters_of s = Some c" "accounts c M H" "c_addrs c = as"
    using sel_session_inv [OF assms(1) new_selector_counters [OF True] counters_new_accounts [OF assms(2)]]
    by (auto simp: counters_new_def)
  have "sel_need s \<le> length (c_addrs c)"
    using need_session [OF assms(1)] assms(4,5) c(3)
    by (auto simp: sel_need_def new_selector_def numeral_2_eq_2 Suc_le_eq split: if_splits)
  from sel_next_accounts [OF c(1,2) assms(3) this] sel_release_accounts [OF c(1,2)] sel_stats_accounts [OF c(1,2), of b] c(3)
  show ?thesis by fastforce
next
  case False
  then consider x where "new_selector as strategy = FixedK x" "fx_addr x \<in> set as"
    | y where "new_selector as strategy = RoundRobinK y" "rr_addrs y = as"
    using assms(4) by (auto simp: new_selector_def rr_new_def fixed_new_def split: if_splits)
  then show ?thesis
  proof cases
    case (1 x)
    then have "s = FixedK x" using plain_session [OF assms(1)] by fastforce
    with 1 show ?thesis by (simp add: fixed_next_def fixed_release_def)
  next
    case (2 y)
    then obtain z where "s = RoundRobinK z" "rr_addrs z = as" using plain_session [OF assms(1)] by fastforce
    with assms(4) show ?thesis by (simp add: rr_next_def rr_release_def Let_def)
  qed
qed

theorem selector_never_panics_witness:
  "(\<exists>a tok. fst (sel_next (\<lambda>_ _. 0) (new_selector [''a'', ''b''] LB_P2C)) = Ok (a, tok) \<and> a \<in> {''a'', ''b''})
    \<and> (\<exists>st. fst (sel_stats True (new_selector [''a'', ''b''] LB_P2C)) = Ok st)"
  using selector_never_panics [OF sel_session.fresh [of "new_selector [''a'', ''b''] LB_P2C"], of "\<lambda>_ _. 0" True]
  by (simp add: rng_ok_def)

end
