(* ===== verification/Conn_Pool.thy ===== *)
theory Conn_Pool
  imports Dial Balancer
begin

text \<open>
  The bounded per-upstream connection pool and the forwarders,
  \<^verbatim>\<open>crates/service-proxy/src/upstream/pool.rs\<close>, as one task runs them. A call that finds the pool
  at capacity registers with the pool's \<^verbatim>\<open>tokio::sync::Notify\<close> and is \<open>Pending\<close>; the interleaving
  of several tasks is the subject of theory \<^verbatim>\<open>Pool_Concurrency\<close>.

  \<^verbatim>\<open>Notify\<close> is not part of the repository: its operations are the parameter \<open>notify_api\<close>. All
  parameters that stand for code outside the repository travel in one record.
\<close>

section \<open>The runtime parameters\<close>

text \<open>
  \<open>nt_wait t\<close> is the first poll of \<^verbatim>\<open>notified()\<close> by task \<open>t\<close>, \<open>nt_done t\<close> a poll that either
  completes the future (with the state after it) or leaves it pending.
\<close>

record 'n notify_api =
  nt_new :: 'n
  nt_one :: "'n \<Rightarrow> 'n"
  nt_wait :: "nat \<Rightarrow> 'n \<Rightarrow> 'n"
  nt_done :: "nat \<Rightarrow> 'n \<Rightarrow> 'n option"

record 'n runtime =
  rt_notify :: "'n notify_api"
  rt_net :: network
  rt_order :: "headers \<Rightarrow> headers"
  rt_rng :: rng
  rt_task :: nat

section \<open>Data\<close>

record 'n Pool =
  p_addr :: string
  p_max_size :: usize
  p_idle :: "tcp list"
  p_outstanding :: usize
  p_notify :: 'n

record 'n Manager =
  m_pools :: "string \<Rightarrow> 'n Pool option"

datatype 'n ForwarderKind = DialF | PoolF "'n Manager"

section \<open>Operations\<close>

definition pool_new :: "'n notify_api \<Rightarrow> string \<Rightarrow> usize \<Rightarrow> 'n Pool" where
  "pool_new nt addr max_size =
     \<lparr>p_addr = addr, p_max_size = max_size, p_idle = [], p_outstanding = 0, p_notify = nt_new nt\<rparr>"

text \<open>
  One pass of the loop of \<^verbatim>\<open>get\<close>: pop an idle connection, else claim a slot with \<^verbatim>\<open>fetch_add\<close> and
  dial (giving the slot back if that fails), else undo the claim and wait for a notification.
\<close>

definition pool_get :: "'n runtime \<Rightarrow> 'n Pool \<Rightarrow> (tcp, UpstreamError) outcome \<times> 'n Pool" where
  "pool_get rt p =
     (if p_idle p \<noteq> [] then (Ok (last (p_idle p)), p\<lparr>p_idle := butlast (p_idle p)\<rparr>)
      else let prev = p_outstanding p; p1 = p\<lparr>p_outstanding := prev + 1\<rparr>
      in if prev < p_max_size p then
           (case dial (rt_net rt) (p_addr p) of
              Ok c \<Rightarrow> (Ok c, p1)
            | Err e \<Rightarrow> (Err e, p1\<lparr>p_outstanding := p_outstanding p1 - 1\<rparr>)
            | Panic \<Rightarrow> (Panic, p1)
            | Pending \<Rightarrow> (Pending, p1))
         else let p2 = p1\<lparr>p_outstanding := p_outstanding p1 - 1\<rparr>
           in (Pending, p2\<lparr>p_notify := nt_wait (rt_notify rt) (rt_task rt) (p_notify p2)\<rparr>))"

definition pool_put :: "'n runtime \<Rightarrow> tcp \<Rightarrow> bool \<Rightarrow> 'n Pool \<Rightarrow> 'n Pool" where
  "pool_put rt conn healthy p =
     (if \<not> healthy then
        p\<lparr>p_outstanding := p_outstanding p - 1, p_notify := nt_one (rt_notify rt) (p_notify p)\<rparr>
      else if length (p_idle p) < unat (p_max_size p) then
        p\<lparr>p_idle := p_idle p @ [conn], p_notify := nt_one (rt_notify rt) (p_notify p)\<rparr>
      else
        p\<lparr>p_outstanding := p_outstanding p - 1, p_notify := nt_one (rt_notify rt) (p_notify p)\<rparr>)"

definition manager_new :: "'n notify_api \<Rightarrow> string list \<Rightarrow> usize \<Rightarrow> 'n Manager" where
  "manager_new nt addrs size_per_upstream =
     \<lparr>m_pools = foldl (\<lambda>m a. m(a \<mapsto> pool_new nt a size_per_upstream)) Map.empty addrs\<rparr>"

definition manager_pool :: "'n Manager \<Rightarrow> string \<Rightarrow> 'n Pool option" where
  "manager_pool m addr = m_pools m addr"

text \<open>
  A panic inside \<^verbatim>\<open>forward\<close> unwinds past \<^verbatim>\<open>put\<close>: the connection is dropped, the slot is not
  given back.
\<close>

definition forward_pooled :: "'n runtime \<Rightarrow> 'n Pool \<Rightarrow> Request \<Rightarrow> (Response, UpstreamError) outcome \<times> 'n Pool" where
  "forward_pooled rt p req =
     (case pool_get rt p of
        (Ok conn, p1) \<Rightarrow>
          (case forward (rt_order rt) req conn of
             (Ok resp, conn') \<Rightarrow> (Ok resp, pool_put rt conn' True p1)
           | (Err e, conn') \<Rightarrow> (Err e, pool_put rt conn' False p1)
           | (Panic, conn') \<Rightarrow> (Panic, p1)
           | (Pending, conn') \<Rightarrow> (Pending, p1))
      | (Err e, p1) \<Rightarrow> (Err e, p1)
      | (Panic, p1) \<Rightarrow> (Panic, p1)
      | (Pending, p1) \<Rightarrow> (Pending, p1))"

text \<open>\<^verbatim>\<open>ForwarderKind::forward\<close>: the pools of the manager are shared, so the state is returned.\<close>

fun forwarder_forward :: "'n runtime \<Rightarrow> string \<Rightarrow> Request \<Rightarrow> 'n ForwarderKind
    \<Rightarrow> (Response, UpstreamError) outcome \<times> 'n ForwarderKind" where
  "forwarder_forward rt addr req DialF = (forward_http (rt_order rt) (rt_net rt) addr req, DialF)"
| "forwarder_forward rt addr req (PoolF m) =
     (case manager_pool m addr of
        None \<Rightarrow> (Err (ParseError (''no pool for '' @ addr)), PoolF m)
      | Some p \<Rightarrow>
          (case forward_pooled rt p req of
             (r, p') \<Rightarrow> (r, PoolF (m\<lparr>m_pools := (m_pools m)(addr \<mapsto> p')\<rparr>))))"

section \<open>Properties\<close>

text \<open>
  The invariant between calls, with \<open>held\<close> connections lent out: the counter is exactly the number
  of idle and lent connections, and that number does not exceed the maximum.
\<close>

definition pool_inv :: "nat \<Rightarrow> 'n Pool \<Rightarrow> bool" where
  "pool_inv held p \<longleftrightarrow> unat (p_outstanding p) = length (p_idle p) + held
     \<and> length (p_idle p) + held \<le> unat (p_max_size p)"

lemma pool_new_inv: "pool_inv 0 (pool_new nt addr n)"
  by (simp add: pool_inv_def pool_new_def)

lemma dial_cases: obtains c where "dial net a = Ok c" | e where "dial net a = Err e"
  by (cases "net a") (auto simp: dial_def)

lemma pool_get_inv:
  assumes "pool_inv held p"
  shows "case pool_get rt p of
      (Ok c, p') \<Rightarrow> pool_inv (Suc held) p'
    | (Err e, p') \<Rightarrow> pool_inv held p' \<and> p_idle p = [] \<and> dial (rt_net rt) (p_addr p) = Err e
    | (Panic, p') \<Rightarrow> False
    | (Pending, p') \<Rightarrow> pool_inv held p' \<and> p_idle p = [] \<and> held = unat (p_max_size p)"
proof (cases "p_idle p = []")
  case False
  then show ?thesis using assms by (cases "p_idle p") (auto simp: pool_get_def pool_inv_def)
next
  case True
  show ?thesis
  proof (cases "p_outstanding p < p_max_size p")
    case lt: True
    then have "unat (p_outstanding p) < unat (p_max_size p)" by (simp add: word_less_nat_alt)
    then have "unat (p_outstanding p + 1) = Suc (unat (p_outstanding p))"
      using unat_le_64 [of "p_max_size p"] by (intro unat_Suc_64) simp
    with True lt assms \<open>unat _ < unat _\<close> show ?thesis
      by (cases rule: dial_cases [of "rt_net rt" "p_addr p"]) (auto simp: pool_get_def pool_inv_def Let_def)
  next
    case False
    then have "unat (p_max_size p) \<le> unat (p_outstanding p)" by (simp add: word_le_nat_alt not_less)
    with True False assms show ?thesis by (auto simp: pool_get_def pool_inv_def Let_def)
  qed
qed

lemma pool_put_inv: "pool_inv (Suc held) p \<Longrightarrow> pool_inv held (pool_put rt c h p)"
  using unat_pred_64 [of "p_outstanding p"] by (auto simp: pool_inv_def pool_put_def)

lemma pool_put_keeps_healthy: "pool_inv (Suc held) p \<Longrightarrow> p_idle (pool_put rt c True p) = p_idle p @ [c]"
  by (simp add: pool_inv_def pool_put_def)

lemma manager_new_lookup:
  "manager_pool (manager_new nt as n) a = (if a \<in> set as then Some (pool_new nt a n) else None)"
proof -
  have "foldl (\<lambda>m a. m(a \<mapsto> pool_new nt a n)) m0 as a = (if a \<in> set as then Some (pool_new nt a n) else m0 a)" for m0
    by (induction as arbitrary: m0) auto
  then show ?thesis by (simp add: manager_pool_def manager_new_def)
qed

lemma forward_pooled_cases:
  obtains (got) c p1 where "pool_get rt p = (Ok c, p1)"
  | (refused) e p1 where "pool_get rt p = (Err e, p1)" "forward_pooled rt p req = (Err e, p1)"
  | (panicked) p1 where "pool_get rt p = (Panic, p1)" "forward_pooled rt p req = (Panic, p1)"
  | (waits) p1 where "pool_get rt p = (Pending, p1)" "forward_pooled rt p req = (Pending, p1)"
proof (cases "pool_get rt p")
  case (Pair q p1)
  then show ?thesis using that by (cases q) (auto simp: forward_pooled_def)
qed

lemma pooled_request_slots:
  assumes "pool_inv held p" and "returned (fst (forward_pooled rt p req))"
  shows "pool_inv held (snd (forward_pooled rt p req))"
proof (cases rule: forward_pooled_cases [where rt = rt and p = p and req = req])
  case (got c p1)
  then have "pool_inv (Suc held) p1" using pool_get_inv [OF assms(1), of rt] by simp
  then show ?thesis using got assms(2) pool_put_inv
    by (auto simp: forward_pooled_def split: prod.splits outcome.splits)
qed (use pool_get_inv [OF assms(1), of rt] assms(2) in auto)

text \<open>Connection reuse of a pooled request: after a response the connection that carried it (in its
  state after the exchange) is on top of the idle stack, above the connections that were not
  taken; after an error the connection that was taken is not put back.\<close>

lemma pooled_request_reuse:
  assumes "pool_inv held p"
  shows "(\<forall>resp. fst (forward_pooled rt p req) = Ok resp \<longrightarrow>
       (\<exists>c c'. fst (pool_get rt p) = Ok c \<and> forward (rt_order rt) req c = (Ok resp, c')
          \<and> p_idle (snd (forward_pooled rt p req)) = butlast (p_idle p) @ [c']))
     \<and> (\<forall>e. fst (forward_pooled rt p req) = Err e \<longrightarrow>
          p_idle (snd (forward_pooled rt p req)) = butlast (p_idle p))"
proof (cases rule: forward_pooled_cases [where rt = rt and p = p and req = req])
  case (got c p1)
  have inv1: "pool_inv (Suc held) p1" using pool_get_inv [OF assms, of rt] got by simp
  have idle: "p_idle p1 = butlast (p_idle p)"
    using got by (auto simp: pool_get_def Let_def split: if_splits outcome.splits)
  have bad: "p_idle (pool_put rt c' False p1) = p_idle p1" for c' by (simp add: pool_put_def)
  show ?thesis using got idle bad pool_put_keeps_healthy [OF inv1]
    by (auto simp: forward_pooled_def split: prod.splits outcome.splits)
next
  case (refused e p1)
  then have "p_idle p = [] \<and> p_idle p1 = []"
    by (auto simp: pool_get_def Let_def split: if_splits outcome.splits)
  with refused show ?thesis by simp
qed auto

end
