(* ===== verification/Frontend.thy ===== *)
theory Frontend
  imports Conn_Pool
begin

text \<open>
  What all front ends of the proxy do with a request once they have read it: take an upstream from
  the selector, forward the request with the forwarder, give the token back
  (\<^verbatim>\<open>selector.next()\<close>, \<^verbatim>\<open>forwarder.forward(..).await\<close>, \<^verbatim>\<open>selector.release(tok)\<close>). The locale
  \<open>frontend\<close> is the contract of a handler with the shared selector and the shared pools; its
  consequences are proved once and hold for the handlers of HTTP/1.1, HTTP/2, gRPC, raw QUIC and
  HTTP/3.
\<close>

section \<open>One exchange\<close>

text \<open>
  A panic of the forwarder unwinds the handler before \<^verbatim>\<open>release\<close>; a forward that never completes
  never reaches it.
\<close>

definition exchange :: "'n runtime \<Rightarrow> (string \<Rightarrow> Request) \<Rightarrow> SelectorKind \<Rightarrow> 'n ForwarderKind
    \<Rightarrow> (string \<times> Response, string \<times> UpstreamError) outcome \<times> SelectorKind \<times> 'n ForwarderKind" where
  "exchange rt mk sel fwd =
     (case sel_next (rt_rng rt) sel of
        (Ok (addr, tok), sel1) \<Rightarrow>
          (case forwarder_forward rt addr (mk addr) fwd of
             (Ok resp, fwd1) \<Rightarrow>
               (case sel_release tok sel1 of
                  (Ok _, sel2) \<Rightarrow> (Ok (addr, resp), sel2, fwd1)
                | (_, sel2) \<Rightarrow> (Panic, sel2, fwd1))
           | (Err e, fwd1) \<Rightarrow>
               (case sel_release tok sel1 of
                  (Ok _, sel2) \<Rightarrow> (Err (addr, e), sel2, fwd1)
                | (_, sel2) \<Rightarrow> (Panic, sel2, fwd1))
           | (Panic, fwd1) \<Rightarrow> (Panic, sel1, fwd1)
           | (Pending, fwd1) \<Rightarrow> (Pending, sel1, fwd1))
      | (_, sel1) \<Rightarrow> (Panic, sel1, fwd))"

section \<open>The selector's addresses and the manager's pools\<close>

fun sel_addrs :: "SelectorKind \<Rightarrow> string set" where
  "sel_addrs (FixedK s) = {fx_addr s}"
| "sel_addrs (RoundRobinK s) = set (rr_addrs s)"
| "sel_addrs (CountingRoundRobinK s) = set (c_addrs (crr_counters s))"
| "sel_addrs (LeastConnK s) = set (c_addrs (lc_counters s))"
| "sel_addrs (P2CK s) = set (c_addrs (p2c_counters s))"

lemma new_selector_addrs: "sel_addrs (new_selector as st) = set as"
  by (auto simp: sel_simps length_Suc_conv)

lemma pick_addr: "pick i c = (q, c') \<Longrightarrow> c_addrs c' = c_addrs c \<and> (\<forall>a t. q = Ok (a, t) \<longrightarrow> a \<in> set (c_addrs c))"
  by (auto simp: pick_def Let_def split: if_splits)

lemma release_addr: "counters_release t c = (q, c') \<Longrightarrow> c_addrs c' = c_addrs c"
  by (auto simp: counters_release_def Let_def split: if_splits)

lemma sel_next_addr:
  "sel_next r s = (q, s') \<Longrightarrow> sel_addrs s' = sel_addrs s \<and> (\<forall>a t. q = Ok (a, t) \<longrightarrow> a \<in> sel_addrs s)"
  by (cases s)
     (auto simp: fixed_next_def rr_next_def crr_next_def lc_next_def p2c_next_def Let_def
       split: prod.splits if_splits outcome.splits dest!: pick_addr)

lemma sel_release_addr: "sel_release t s = (q, s') \<Longrightarrow> sel_addrs s' = sel_addrs s"
  by (cases s)
     (auto simp: fixed_release_def rr_release_def crr_release_def lc_release_def p2c_release_def
       split: prod.splits dest!: release_addr)

text \<open>
  The forwarder serves a selector if it dials directly, or has a pool for each of the selector's
  addresses; \<open>fwd_inv held\<close> is the slot accounting of all its pools, with \<open>held a\<close> connections lent
  out by the pool of \<open>a\<close>.
\<close>

fun serves :: "'n ForwarderKind \<Rightarrow> SelectorKind \<Rightarrow> bool" where
  "serves DialF s = True"
| "serves (PoolF m) s = (\<forall>a \<in> sel_addrs s. manager_pool m a \<noteq> None)"

fun fwd_inv :: "(string \<Rightarrow> nat) \<Rightarrow> 'n ForwarderKind \<Rightarrow> bool" where
  "fwd_inv held DialF = True"
| "fwd_inv held (PoolF m) = (\<forall>a p. manager_pool m a = Some p \<longrightarrow> pool_inv (held a) p)"

lemma serves_new: "serves (PoolF (manager_new nt as n)) (new_selector as st)"
  by (simp add: new_selector_addrs manager_new_lookup)

lemma fwd_inv_new: "fwd_inv (\<lambda>_. 0) (PoolF (manager_new nt as n))"
  by (auto simp: manager_new_lookup pool_new_inv split: if_splits)

lemma forwarder_keeps:
  assumes "forwarder_forward rt a req f = (q, f')"
  shows "serves f s \<Longrightarrow> serves f' s"
    and "fwd_inv held f \<Longrightarrow> returned q \<Longrightarrow> fwd_inv held f'"
proof -
  show "serves f s \<Longrightarrow> serves f' s"
    using assms by (cases f) (auto simp: manager_pool_def split: option.splits prod.splits)
  assume inv: "fwd_inv held f" and ret: "returned q"
  show "fwd_inv held f'"
  proof (cases f)
    case (PoolF m)
    show ?thesis
    proof (cases "manager_pool m a")
      case (Some p)
      then have "pool_inv (held a) p" using inv PoolF by simp
      moreover obtain p' where fp: "forward_pooled rt p req = (q, p')" "f' = PoolF (m\<lparr>m_pools := (m_pools m)(a \<mapsto> p')\<rparr>)"
        using assms PoolF Some by (auto split: prod.splits)
      ultimately have "pool_inv (held a) p'"
        using pooled_request_slots [of "held a" p rt req] ret by simp
      then show ?thesis using inv PoolF fp(2) by (auto simp: manager_pool_def)
    qed (use assms inv PoolF in auto)
  qed (use assms in simp)
qed

section \<open>What one exchange does to the shared state\<close>

lemma exchange_cases:
  assumes "exchange rt mk s f = (r, s', f')"
  obtains (refused) q where "sel_next (rt_rng rt) s = (q, s')" "f' = f" "r = Panic" "\<forall>x. q \<noteq> Ok x"
  | (broken) a t q where "sel_next (rt_rng rt) s = (Ok (a, t), s')"
      "forwarder_forward rt a (mk a) f = (q, f')" "\<not> returned q" "\<not> returned r"
  | (released) a t s1 q u where "sel_next (rt_rng rt) s = (Ok (a, t), s1)"
      "forwarder_forward rt a (mk a) f = (q, f')" "returned q" "sel_release t s1 = (u, s')"
      "u = Ok () \<Longrightarrow> r = map_outcome (Pair a) (Pair a) q" "u \<noteq> Ok () \<Longrightarrow> r = Panic"
  using assms unfolding exchange_def
  by (auto split: prod.splits outcome.splits)

text \<open>The pool accounting of \<^verbatim>\<open>forward\<close>, the addresses, and the session of the selector.\<close>

lemma serves_cong: "sel_addrs s' = sel_addrs s \<Longrightarrow> serves f s' = serves f s"
  by (cases f) simp_all

lemma exchange_serves:
  assumes "exchange rt mk s f = (r, s', f')" and "serves f s"
  shows "serves f' s'"
proof -
  have "serves f' s" using assms(1)
    by (rule exchange_cases) (use assms(2) forwarder_keeps(1) in auto)
  moreover have "sel_addrs s' = sel_addrs s"
    using assms(1) by (rule exchange_cases) (use sel_next_addr sel_release_addr in metis)+
  ultimately show ?thesis using serves_cong by blast
qed

lemma exchange_slots:
  assumes "exchange rt mk s f = (r, s', f')" and "fwd_inv held f" and "returned r"
  shows "fwd_inv held f'"
  using assms(1) by (rule exchange_cases) (use assms(2,3) forwarder_keeps(2) in auto)

lemma exchange_session:
  assumes "exchange rt mk s f = (r, s', f')" and "sel_session s0 s M H" and "rng_ok (rt_rng rt)" and "returned r"
  shows "\<exists>t. sel_session s0 s' M (add_mset t H)"
  using assms(1)
proof (rule exchange_cases)
  fix a t s1 q u
  assume "sel_next (rt_rng rt) s = (Ok (a, t), s1)" and rel: "sel_release t s1 = (u, s')"
  then have "sel_session s0 s1 (add_mset t M) (add_mset t H)"
    using sel_session.take_token [OF assms(2,3)] by blast
  from sel_session.give_back [OF this _ rel] show ?thesis by auto
qed (use assms(4) in auto)

text \<open>The parse errors of \<^verbatim>\<open>dial.rs\<close> cannot be mistaken for a missing pool.\<close>

definition own_parse_error :: "string \<Rightarrow> bool" where
  "own_parse_error m \<longleftrightarrow> m = ''empty status line'' \<or> m = ''missing status code'' \<or> m = ''bad status code''
     \<or> (\<exists>l. m = ''bad header: '' @ l)"

lemma own_parse_error_pool: "\<not> own_parse_error (''no pool for '' @ a)"
  by (simp add: own_parse_error_def)

lemma own_parse_errorI:
  "own_parse_error ''empty status line''" "own_parse_error ''missing status code''"
  "own_parse_error ''bad status code''" "own_parse_error (''bad header: '' @ l)"
  by (simp_all add: own_parse_error_def)

lemma io_not_parse [simp]: "map_err IoFailed r \<noteq> Err (ParseError m)"
  by (cases r) auto

lemma parse_status_errors: "parse_status l = Err (ParseError m) \<Longrightarrow> own_parse_error m"
  unfolding parse_status_def
  by (auto simp del: append_Cons split: if_splits list.splits option.splits intro: own_parse_errorI)

lemma read_headers_errors:
  "fst (read_headers hs cl b) = Err (ParseError m) \<Longrightarrow> own_parse_error m"
proof (induction hs cl b rule: read_headers.induct)
  case (1 hs cl b)
  obtain q b' where rl: "read_line b = (q, b')" by (cases "read_line b")
  show ?case
  proof (cases q)
    case (Ok raw)
    show ?thesis
    proof (cases "parse_header (trim_end_crlf raw)")
      case None
      then show ?thesis
        using "1.prems" rl Ok own_parse_errorI(4) [of "trim_end_crlf raw"]
        by (simp add: read_headers.simps [of hs cl b] Let_def split: if_splits)
    next
      case (Some nv)
      then show ?thesis
        using "1.prems" "1.IH" [OF rl [symmetric] Ok refl _ Some] rl Ok
        by (cases nv) (simp add: read_headers.simps [of hs cl b] Let_def split: if_splits)
    qed
  qed (use "1.prems" rl in \<open>simp_all add: read_headers.simps [of hs cl b]\<close>)
qed

lemma read_body_errors: "fst (read_body cl b) \<noteq> Err (ParseError m)"
  by (simp add: read_body_def split: option.splits prod.splits)

lemma read_response_errors: "fst (read_response c) = Err (ParseError m) \<Longrightarrow> own_parse_error m"
  unfolding read_response_def read_response_buf_def
  by (auto split: prod.splits outcome.splits dest: parse_status_errors
      read_headers_errors [of "[]" None, unfolded fst_conv] intro: read_headers_errors [of "[]" None])
     (metis fst_conv read_headers_errors read_body_errors)+

lemma forward_errors: "fst (forward ho req c) = Err (ParseError m) \<Longrightarrow> own_parse_error m"
  by (auto simp: forward_def write_request_def split: prod.splits outcome.splits intro: read_response_errors)

lemma forward_errors': "forward ho req c = (Err (ParseError m), c') \<Longrightarrow> own_parse_error m"
  using forward_errors [of ho req c m] by simp

lemma dial_errors: "dial net a \<noteq> Err (ParseError m)"
  by (simp add: dial_def split: connect_result.splits)

lemma forwarder_errors:
  assumes "forwarder_forward rt a req f = (Err (ParseError m), f')" and "serves f s" and "a \<in> sel_addrs s"
  shows "own_parse_error m"
proof (cases f)
  case DialF
  then show ?thesis
    using assms(1) dial_errors by (auto simp: forward_http_def intro: forward_errors split: outcome.splits)
next
  case (PoolF mgr)
  then obtain p where "manager_pool mgr a = Some p" using assms(2,3) by auto
  then show ?thesis using assms(1) PoolF dial_errors
    by (auto simp: forward_pooled_def pool_get_def Let_def split: prod.splits outcome.splits if_splits
        dest: forward_errors')
qed

lemma exchange_pool_found:
  assumes "exchange rt mk s f = (Err (a, ParseError m), s', f')" and "serves f s"
  shows "own_parse_error m"
  using assms(1)
proof (rule exchange_cases)
  fix b t s1 q u
  assume n: "sel_next (rt_rng rt) s = (Ok (b, t), s1)" and fw: "forwarder_forward rt b (mk b) f = (q, f')"
    and r: "u = Ok () \<Longrightarrow> Err (a, ParseError m) = map_outcome (Pair b) (Pair b) q" "u \<noteq> Ok () \<Longrightarrow> Err (a, ParseError m) = Panic"
  have "b \<in> sel_addrs s" using sel_next_addr [OF n] by blast
  moreover have "q = Err (ParseError m)" using r by (cases q; cases "u = Ok ()") auto
  ultimately show ?thesis using forwarder_errors assms(2) fw by blast
qed auto

text \<open>The in-flight counters are determined by the tokens that are out.\<close>

lemma session_inflight:
  assumes "sel_session (new_selector as st) s M H" and "length as \<le> 2 ^ 31"
  shows "map_option c_inflight (counters_of s) =
    (if has_stats (new_selector as st) then Some (map (\<lambda>i. of_nat (count M (of_nat i))) [0..<length as]) else None)"
proof (cases "has_stats (new_selector as st)")
  case True
  obtain c where "counters_of s = Some c" "accounts c M H" "c_addrs c = as"
    using sel_session_inv [OF assms(1) new_selector_counters [OF True] counters_new_accounts [OF assms(2)]]
    by (auto simp: counters_new_def)
  then show ?thesis using True by (auto simp: accounts_def counters_wf_def intro!: nth_equalityI)
next
  case False
  then show ?thesis using counters_of_session [OF assms(1)] by (simp add: has_stats_counters)
qed

section \<open>When an exchange succeeds\<close>

lemma session_release:
  assumes "sel_session (new_selector as st) s M H" and "length as \<le> 2 ^ 31" and "rng_ok r"
    and "sel_next r s = (Ok (a, t), s1)"
  shows "\<exists>s2. sel_release t s1 = (Ok (), s2)"
proof -
  have ses: "sel_session (new_selector as st) s1 (add_mset t M) (add_mset t H)"
    using sel_session.take_token [OF assms(1,3,4)] .
  show ?thesis
  proof (cases "has_stats (new_selector as st)")
    case True
    obtain c where "counters_of s1 = Some c" "accounts c (add_mset t M) (add_mset t H)"
      using sel_session_inv [OF ses new_selector_counters [OF True] counters_new_accounts [OF assms(2)]] by auto
    from sel_release_accounts [OF this, of t] show ?thesis by auto
  next
    case False
    then have "\<not> has_stats s1" using counters_of_session [OF ses] by simp
    then show ?thesis by (cases s1) (auto simp: fixed_release_def rr_release_def)
  qed
qed

lemma exchange_returns:
  assumes "sel_session (new_selector as st) sel M H" and "length as \<le> 2 ^ 31" and "rng_ok (rt_rng rt)"
    and "sel_next (rt_rng rt) sel = (Ok (addr, tok), sel1)"
    and "forwarder_forward rt addr (mk addr) f = (q, f')" and "returned q"
  obtains sel2 where "sel_release tok sel1 = (Ok (), sel2)"
    and "exchange rt mk sel f = (map_outcome (Pair addr) (Pair addr) q, sel2, f')"
proof -
  obtain sel2 where rel: "sel_release tok sel1 = (Ok (), sel2)" using session_release [OF assms(1-4)] by blast
  show ?thesis using that [OF rel] rel assms(4-6) by (cases q) (auto simp: exchange_def)
qed

text \<open>An upstream whose answer is a response in the proxy's own format.\<close>

definition answers :: "tcp \<Rightarrow> (headers \<Rightarrow> headers) \<Rightarrow> Response \<Rightarrow> bool" where
  "answers up ho' resp \<longleftrightarrow> wr_fault up = None \<and> good_segs (rx up) \<and> hash_order ho' \<and> sendable resp
     \<and> (\<exists>rest. flat (rx up) = response_bytes ho' resp @ rest)"

definition relayed :: "(headers \<Rightarrow> headers) \<Rightarrow> Response \<Rightarrow> Response" where
  "relayed ho' resp = \<lparr>rs_status = rs_status resp, rs_headers = sent_headers ho' resp, rs_body = rs_body resp\<rparr>"

lemma forward_answers:
  assumes "answers up ho' resp"
  shows "fst (forward ho req up) = Ok (relayed ho' resp)"
proof -
  obtain rest where up: "wr_fault up = None" "good_segs (rx up)" "hash_order ho'" "sendable resp"
    "flat (rx up) = response_bytes ho' resp @ rest" using assms by (auto simp: answers_def)
  have "forward ho req up = read_response (up\<lparr>tx := tx up @ request_bytes ho req\<rparr>)"
    using up(1) by (simp add: forward_def stream_simps)
  then show ?thesis
    using read_response_parse [of "up\<lparr>tx := tx up @ request_bytes ho req\<rparr>"] up(2,5)
      parse_response_written [OF up(3,4), of rest] by (simp add: relayed_def)
qed

text \<open>The same through the two forwarders: a direct dial, and a pool that has to dial.\<close>

lemma forwarder_dial_answers:
  assumes "rt_net rt addr = Connected up" and "answers up ho' resp"
  shows "forwarder_forward rt addr req DialF = (Ok (relayed ho' resp), DialF)"
  using assms forward_answers by (simp add: forward_http_def dial_def)

lemma forwarder_pool_answers:
  assumes "rt_net rt addr = Connected up" and "answers up ho' resp" and "addr \<in> set as" and "0 < n"
  shows "\<exists>f'. forwarder_forward rt addr req (PoolF (manager_new nt as n)) = (Ok (relayed ho' resp), f')"
proof -
  obtain up' where "forward (rt_order rt) req up = (Ok (relayed ho' resp), up')"
    using forward_answers [OF assms(2)] by (metis prod.collapse)
  then show ?thesis using assms(1,3,4)
    by (simp add: manager_new_lookup forward_pooled_def pool_get_def pool_new_def dial_def Let_def)
qed

section \<open>An upstream that cannot be dialled\<close>

text \<open>The connection is refused (or fails otherwise), or is not there in time.\<close>

definition undialable :: "network \<Rightarrow> string \<Rightarrow> io_error \<Rightarrow> bool" where
  "undialable net addr e \<longleftrightarrow> net addr = ConnectFailed e \<or> net addr = ConnectElapsed \<and> e = IoError TimedOut ''dial timeout''"

text \<open>A forwarder that has to dial: always without a pool, with a pool if nothing is idle and a slot is free.\<close>

fun has_to_dial :: "string \<Rightarrow> 'n ForwarderKind \<Rightarrow> bool" where
  "has_to_dial addr DialF = True"
| "has_to_dial addr (PoolF m) = (case manager_pool m addr of None \<Rightarrow> False
     | Some p \<Rightarrow> p_addr p = addr \<and> p_idle p = [] \<and> p_outstanding p < p_max_size p)"

lemma forwarder_undialable:
  assumes "undialable (rt_net rt) addr e" and "has_to_dial addr f"
  shows "fst (forwarder_forward rt addr req f) = Err (DialError e)"
proof -
  have "dial (rt_net rt) addr = Err (DialError e)" using assms(1) by (auto simp: undialable_def dial_def)
  with assms(2) show ?thesis
    by (cases f) (auto simp: forward_http_def forward_pooled_def pool_get_def Let_def split: option.splits)
qed

section \<open>A response without a length\<close>

lemma forward_bare_head:
  assumes "wr_fault c = None" and "rx c = head @ body" and "good_segs head" and "flat head = bare_head code hl"
    and "code \<le> u16_max" and "bare_headers hl"
  shows "forward ho req c = (Ok \<lparr>rs_status = of_nat code, rs_headers = filter nonempty_values hl, rs_body = []\<rparr>,
    c\<lparr>rx := body, tx := tx c @ request_bytes ho req\<rparr>)"
  using assms read_bare_head [OF assms(3-6)] by (simp add: forward_def stream_simps read_response_def)

text \<open>C27: A response without \<^verbatim>\<open>Content-Length\<close> poisons its pooled connection, if its body arrives apart from its
  head (no segment has bytes of both): whatever its status and headers, its body is taken to be
  empty and left unread, the connection goes back to the pool, and the next request on it is
  answered with what the body of the earlier response spells.\<close>

theorem unread_body_answers_next_request:
  assumes "p_idle p = []" and "p_outstanding p < p_max_size p" and "rt_net rt (p_addr p) = Connected c"
    and "wr_fault c = None" and "rx c = head @ body" and "good_segs head" and "good_segs body"
    and "flat head = bare_head code hl" and "code \<le> u16_max" and "bare_headers hl"
    and "flat body = response_bytes ho' resp @ rest" and "hash_order ho'" and "sendable resp"
    and "forward_pooled rt p req1 = (r1, p1)" and "forward_pooled rt p1 req2 = (r2, p2)"
  shows "r1 = Ok \<lparr>rs_status = of_nat code, rs_headers = filter nonempty_values hl, rs_body = []\<rparr> \<and> r2 = Ok (relayed ho' resp)"
proof -
  let ?r = "\<lparr>rs_status = of_nat code, rs_headers = filter nonempty_values hl, rs_body = []\<rparr>"
  let ?c1 = "c\<lparr>rx := body, tx := tx c @ request_bytes (rt_order rt) req1\<rparr>"
  have "0 < unat (p_max_size p)" using assms(2) by (simp add: word_less_nat_alt)
  then have p1: "r1 = Ok ?r" "p_idle p1 = [?c1]"
    using assms(1-3,14) forward_bare_head [OF assms(4,5,6,8,9,10)]
    by (auto simp: forward_pooled_def pool_get_def pool_put_def dial_def Let_def)
  have "answers ?c1 ho' resp" using assms(4,7,11-13) by (auto simp: answers_def)
  from forward_answers [OF this, of "rt_order rt" req2] have "r2 = Ok (relayed ho' resp)"
    using assms(15) p1(2) by (auto simp: forward_pooled_def pool_get_def split: prod.splits)
  with p1(1) show ?thesis by blast
qed

text \<open>An upstream that answers the first request with a head and a body that looks like a response.\<close>

abbreviation example_smuggled :: Response where
  "example_smuggled \<equiv> \<lparr>rs_status = 500, rs_headers = [], rs_body = ''no''\<rparr>"

abbreviation example_split :: "unit runtime" where
  "example_split \<equiv> \<lparr>rt_notify = \<lparr>nt_new = (), nt_one = id, nt_wait = \<lambda>_. id, nt_done = \<lambda>_ _. None\<rparr>,
     rt_net = \<lambda>_. Connected \<lparr>rx = [Data (bare_head 200 []), Data (response_bytes id example_smuggled)], tx = [], wr_fault = None\<rparr>,
     rt_order = id, rt_rng = \<lambda>_ _. 0, rt_task = 0\<rparr>"

theorem unread_body_answers_next_request_witness:
  "\<exists>p1 p2. forward_pooled example_split (pool_new (rt_notify example_split) ''u:1'' 1)
      \<lparr>rq_method = ''GET'', rq_path = ''/a'', rq_host = [], rq_headers = [], rq_body = []\<rparr>
    = (Ok \<lparr>rs_status = 200, rs_headers = [], rs_body = []\<rparr>, p1)
    \<and> forward_pooled example_split p1 \<lparr>rq_method = ''GET'', rq_path = ''/b'', rq_host = [], rq_headers = [], rq_body = []\<rparr>
    = (Ok (relayed id example_smuggled), p2)"
proof -
  let ?q = "\<lambda>p. \<lparr>rq_method = ''GET'', rq_path = p, rq_host = [], rq_headers = [], rq_body = []\<rparr> :: Request"
  obtain r1 p1 where f1: "forward_pooled example_split (pool_new (rt_notify example_split) ''u:1'' 1) (?q ''/a'') = (r1, p1)" by fastforce
  obtain r2 p2 where f2: "forward_pooled example_split p1 (?q ''/b'') = (r2, p2)" by fastforce
  have "r1 = Ok \<lparr>rs_status = of_nat 200, rs_headers = filter nonempty_values [], rs_body = []\<rparr> \<and> r2 = Ok (relayed id example_smuggled)"
    by (rule unread_body_answers_next_request [OF _ _ _ _ _ _ _ _ _ _ _ _ _ f1 f2, where head = "[Data (bare_head 200 [])]" and rest = "[]"
          and c = "\<lparr>rx = [Data (bare_head 200 []), Data (response_bytes id example_smuggled)], tx = [], wr_fault = None\<rparr>"
          and body = "[Data (response_bytes id example_smuggled)]" and hl = "[]"])
       (simp_all add: pool_new_def hash_order_def sendable_def isize_max_def response_bytes_def u16_max_def bare_headers_def bare_head_def)
  with f1 f2 show ?thesis by auto
qed

section \<open>The contract of a front end\<close>

text \<open>
  A handler either leaves selector and forwarder alone (the request could not be read) or makes
  one exchange; if the handler ran to its end, so did the exchange.
\<close>

locale frontend =
  fixes run :: "'n runtime \<Rightarrow> 'i \<Rightarrow> SelectorKind \<Rightarrow> 'n ForwarderKind \<Rightarrow> 'o \<times> SelectorKind \<times> 'n ForwarderKind"
    and ended :: "'o \<Rightarrow> bool"
  assumes shape: "run rt i s f = (r, s', f') \<Longrightarrow>
    s' = s \<and> f' = f \<or> (\<exists>mk x. exchange rt mk s f = (x, s', f') \<and> (ended r \<longrightarrow> returned x))"
begin

lemma keeps_session:
  assumes "run rt i s f = (r, s', f')" and "ended r" and "sel_session s0 s M H" and "rng_ok (rt_rng rt)"
  shows "\<exists>H'. sel_session s0 s' M H' \<and> H \<subseteq># H' \<and> size H' \<le> Suc (size H)"
  using shape [OF assms(1)]
proof (elim disjE exE conjE)
  fix mk x
  assume "exchange rt mk s f = (x, s', f')" and "ended r \<longrightarrow> returned x"
  then obtain t where "sel_session s0 s' M (add_mset t H)"
    using exchange_session assms(2-4) by blast
  then show ?thesis by (intro exI [of _ "add_mset t H"]) simp
qed (use assms(3) in auto)

lemma keeps_inflight:
  assumes "run rt i s f = (r, s', f')" and "ended r" and "sel_session (new_selector as st) s M H"
    and "rng_ok (rt_rng rt)" and "length as \<le> 2 ^ 31"
  shows "map_option c_inflight (counters_of s') = map_option c_inflight (counters_of s)"
  using keeps_session [OF assms(1-4)] session_inflight [OF _ assms(5)] assms(3) by metis

lemma keeps_slots:
  assumes "run rt i s f = (r, s', f')" and "ended r" and "fwd_inv held f"
  shows "fwd_inv held f'"
  using shape [OF assms(1)] exchange_slots assms(2,3) by blast

lemma keeps_serving:
  assumes "run rt i s f = (r, s', f')" and "serves f s"
  shows "serves f' s'"
  using shape [OF assms(1)] exchange_serves assms(2) by blast

end

end
