(* ===== verification/Pool_Concurrency.thy ===== *)
theory Pool_Concurrency
  imports Conn_Pool
begin

text \<open>
  The connection pool shared by many tasks: every atomic operation of \<^verbatim>\<open>Pool::get\<close> and \<^verbatim>\<open>Pool::put\<close>
  (\<^verbatim>\<open>crates/service-proxy/src/upstream/pool.rs\<close>) is one step, and the steps of different tasks
  interleave in any order. A step either belongs to the code (the mutex-protected pop and push,
  \<^verbatim>\<open>fetch_add\<close>, \<^verbatim>\<open>fetch_sub\<close>, \<^verbatim>\<open>notify_one\<close>, the polls of \<^verbatim>\<open>notified()\<close>) or is the environment's choice
  (a dial succeeds or fails, the exchange over a held connection ends well or badly).
\<close>

section \<open>Tasks and steps\<close>

text \<open>Where a task is inside \<^verbatim>\<open>get\<close> and \<^verbatim>\<open>put\<close>.\<close>

datatype 'c pc =
    GetPop                   \<comment> \<open>about to lock \<^verbatim>\<open>idle\<close> and pop\<close>
  | GetAdd                   \<comment> \<open>nothing idle, about to \<^verbatim>\<open>fetch_add\<close>\<close>
  | Dialing                  \<comment> \<open>claimed a slot, awaiting \<^verbatim>\<open>dial\<close>\<close>
  | DialFailed               \<comment> \<open>dial returned \<^verbatim>\<open>Err\<close>, about to \<^verbatim>\<open>fetch_sub\<close> and return it\<close>
  | GetUndo                  \<comment> \<open>at capacity, about to \<^verbatim>\<open>fetch_sub\<close>\<close>
  | GetAwait                 \<comment> \<open>about to poll \<^verbatim>\<open>notified()\<close> for the first time\<close>
  | Waiting                  \<comment> \<open>registered with the \<^verbatim>\<open>Notify\<close>\<close>
  | Holding 'c               \<comment> \<open>\<^verbatim>\<open>get\<close> returned a connection\<close>
  | PutPush 'c               \<comment> \<open>\<^verbatim>\<open>put(conn, true)\<close>, about to lock \<^verbatim>\<open>idle\<close>\<close>
  | PutSub                   \<comment> \<open>connection dropped, about to \<^verbatim>\<open>fetch_sub\<close>\<close>
  | PutNotify                \<comment> \<open>about to \<^verbatim>\<open>notify_one\<close>\<close>
  | Finished

record ('c, 'n) sys =
  s_max :: usize
  s_idle :: "'c list"
  s_out :: usize
  s_nt :: 'n
  s_tasks :: "'c pc list"

definition sys_init :: "'n notify_api \<Rightarrow> usize \<Rightarrow> nat \<Rightarrow> ('c, 'n) sys" where
  "sys_init nt m k = \<lparr>s_max = m, s_idle = [], s_out = 0, s_nt = nt_new nt, s_tasks = replicate k GetPop\<rparr>"

abbreviation at :: "('c, 'n) sys \<Rightarrow> nat \<Rightarrow> 'c pc \<Rightarrow> bool" where
  "at s t q \<equiv> t < length (s_tasks s) \<and> s_tasks s ! t = q"

inductive pstep :: "'n notify_api \<Rightarrow> ('c, 'n) sys \<Rightarrow> ('c, 'n) sys \<Rightarrow> bool" for nt where
  pop_some: "\<lbrakk> at s t GetPop; s_idle s \<noteq> [] \<rbrakk> \<Longrightarrow>
    pstep nt s (s\<lparr>s_idle := butlast (s_idle s), s_tasks := (s_tasks s)[t := Holding (last (s_idle s))]\<rparr>)"
| pop_none: "\<lbrakk> at s t GetPop; s_idle s = [] \<rbrakk> \<Longrightarrow> pstep nt s (s\<lparr>s_tasks := (s_tasks s)[t := GetAdd]\<rparr>)"
| add_claim: "\<lbrakk> at s t GetAdd; s_out s < s_max s \<rbrakk> \<Longrightarrow>
    pstep nt s (s\<lparr>s_out := s_out s + 1, s_tasks := (s_tasks s)[t := Dialing]\<rparr>)"
| add_full: "\<lbrakk> at s t GetAdd; \<not> s_out s < s_max s \<rbrakk> \<Longrightarrow>
    pstep nt s (s\<lparr>s_out := s_out s + 1, s_tasks := (s_tasks s)[t := GetUndo]\<rparr>)"
| dial_ok: "at s t Dialing \<Longrightarrow> pstep nt s (s\<lparr>s_tasks := (s_tasks s)[t := Holding c]\<rparr>)"
| dial_err: "at s t Dialing \<Longrightarrow> pstep nt s (s\<lparr>s_tasks := (s_tasks s)[t := DialFailed]\<rparr>)"
| dial_err_sub: "at s t DialFailed \<Longrightarrow> pstep nt s (s\<lparr>s_out := s_out s - 1, s_tasks := (s_tasks s)[t := Finished]\<rparr>)"
| undo: "at s t GetUndo \<Longrightarrow> pstep nt s (s\<lparr>s_out := s_out s - 1, s_tasks := (s_tasks s)[t := GetAwait]\<rparr>)"
| await: "at s t GetAwait \<Longrightarrow> pstep nt s (s\<lparr>s_nt := nt_wait nt t (s_nt s), s_tasks := (s_tasks s)[t := Waiting]\<rparr>)"
| woken: "\<lbrakk> at s t Waiting; nt_done nt t (s_nt s) = Some n \<rbrakk> \<Longrightarrow>
    pstep nt s (s\<lparr>s_nt := n, s_tasks := (s_tasks s)[t := GetPop]\<rparr>)"
| use_ok: "at s t (Holding c) \<Longrightarrow> pstep nt s (s\<lparr>s_tasks := (s_tasks s)[t := PutPush c']\<rparr>)"
| use_err: "at s t (Holding c) \<Longrightarrow> pstep nt s (s\<lparr>s_tasks := (s_tasks s)[t := PutSub]\<rparr>)"
| push: "\<lbrakk> at s t (PutPush c); length (s_idle s) < unat (s_max s) \<rbrakk> \<Longrightarrow>
    pstep nt s (s\<lparr>s_idle := s_idle s @ [c], s_tasks := (s_tasks s)[t := PutNotify]\<rparr>)"
| push_full: "\<lbrakk> at s t (PutPush c); \<not> length (s_idle s) < unat (s_max s) \<rbrakk> \<Longrightarrow>
    pstep nt s (s\<lparr>s_tasks := (s_tasks s)[t := PutSub]\<rparr>)"
| put_sub: "at s t PutSub \<Longrightarrow> pstep nt s (s\<lparr>s_out := s_out s - 1, s_tasks := (s_tasks s)[t := PutNotify]\<rparr>)"
| put_notify: "at s t PutNotify \<Longrightarrow> pstep nt s (s\<lparr>s_nt := nt_one nt (s_nt s), s_tasks := (s_tasks s)[t := Finished]\<rparr>)"

inductive preach :: "'n notify_api \<Rightarrow> usize \<Rightarrow> nat \<Rightarrow> ('c, 'n) sys \<Rightarrow> bool" for nt m k where
  start: "preach nt m k (sys_init nt m k)"
| step: "\<lbrakk> preach nt m k s; pstep nt s s' \<rbrakk> \<Longrightarrow> preach nt m k s'"

section \<open>The invariant\<close>

text \<open>
  Tasks that own a slot of the pool (a connection, or the right to dial one), and tasks whose
  \<^verbatim>\<open>fetch_add\<close> found the pool full and is not undone yet.
\<close>

fun owns_slot :: "'c pc \<Rightarrow> bool" where
  "owns_slot Dialing = True"
| "owns_slot DialFailed = True"
| "owns_slot (Holding c) = True"
| "owns_slot (PutPush c) = True"
| "owns_slot PutSub = True"
| "owns_slot _ = False"

fun overshoot :: "'c pc \<Rightarrow> bool" where
  "overshoot GetUndo = True"
| "overshoot _ = False"

fun_cases overshootE: "overshoot q"

definition slots :: "('c, 'n) sys \<Rightarrow> nat" where
  "slots s = length (s_idle s) + length (filter owns_slot (s_tasks s))"

definition overshoots :: "('c, 'n) sys \<Rightarrow> nat" where
  "overshoots s = length (filter overshoot (s_tasks s))"

definition sys_inv :: "('c, 'n) sys \<Rightarrow> bool" where
  "sys_inv s \<longleftrightarrow> unat (s_out s) = slots s + overshoots s
     \<and> slots s \<le> unat (s_max s)
     \<and> unat (s_max s) + length (s_tasks s) \<le> usize_max"

lemma filter_pos: "t < length ts \<Longrightarrow> P (ts ! t) \<Longrightarrow> 0 < length (filter P ts)"
  by (metis filter_empty_conv length_greater_0_conv nth_mem)

lemma filter_less: "t < length ts \<Longrightarrow> \<not> P (ts ! t) \<Longrightarrow> length (filter P ts) < length ts"
  using length_filter_less [of "ts ! t" ts P] by simp

text \<open>How one task's move changes a count of tasks.\<close>

lemma count_move:
  "t < length ts \<Longrightarrow>
    length (filter P (ts[t := q])) = length (filter P ts) + of_bool (P q) - of_bool (P (ts ! t))"
  using length_filter_update [of t ts P q] by (auto split: if_splits)

lemma sys_init_inv: "unat m + k \<le> usize_max \<Longrightarrow> sys_inv (sys_init nt m k)"
  by (simp add: sys_inv_def sys_init_def slots_def overshoots_def filter_replicate)

text \<open>Slots are claimed and given back by one task at a time; the moves that matter, one by one.\<close>

lemma inv_claim:
  assumes "sys_inv s" and "at s t GetAdd" and "s_out s < s_max s"
  shows "sys_inv (s\<lparr>s_out := s_out s + 1, s_tasks := (s_tasks s)[t := Dialing]\<rparr>)"
proof -
  have "unat (s_out s) < unat (s_max s)" using assms(3) by (simp add: word_less_nat_alt)
  moreover from this have "unat (s_out s + 1) = Suc (unat (s_out s))"
    using unat_le_64 [of "s_max s"] by (intro unat_Suc_64) simp
  ultimately show ?thesis
    using assms(1,2) by (simp add: sys_inv_def slots_def overshoots_def count_move)
qed

lemma inv_overshoot:
  assumes "sys_inv s" and "at s t GetAdd"
  shows "sys_inv (s\<lparr>s_out := s_out s + 1, s_tasks := (s_tasks s)[t := GetUndo]\<rparr>)"
proof -
  have "overshoots s < length (s_tasks s)"
    using assms(2) filter_less [of t "s_tasks s" overshoot] by (simp add: overshoots_def)
  then have "unat (s_out s + 1) = Suc (unat (s_out s))"
    using assms(1) by (intro unat_Suc_64) (simp add: sys_inv_def)
  then show ?thesis
    using assms by (simp add: sys_inv_def slots_def overshoots_def count_move)
qed

lemma inv_give_back:
  assumes "sys_inv s" and "at s t q" and "owns_slot q \<or> overshoot q"
    and "\<not> owns_slot q'" and "\<not> overshoot q'"
  shows "sys_inv (s\<lparr>s_out := s_out s - 1, s_tasks := (s_tasks s)[t := q']\<rparr>)"
proof -
  have "0 < slots s + overshoots s"
    using assms(2,3) filter_pos [of t "s_tasks s" owns_slot] filter_pos [of t "s_tasks s" overshoot]
    by (auto simp: slots_def overshoots_def)
  then have "unat (s_out s - 1) = unat (s_out s) - 1"
    using assms(1) by (intro unat_pred_64) (simp add: sys_inv_def)
  moreover have "\<not> (owns_slot q \<and> overshoot q)" by (cases q) auto
  ultimately show ?thesis
    using assms filter_pos [of t "s_tasks s" owns_slot] filter_pos [of t "s_tasks s" overshoot]
    by (auto simp: sys_inv_def slots_def overshoots_def count_move simp del: length_greater_0_conv)
qed

lemma inv_keep:
  assumes "sys_inv s" and "at s t q" and "owns_slot q = owns_slot q'" and "overshoot q = overshoot q'"
  shows "sys_inv (s\<lparr>s_nt := n, s_tasks := (s_tasks s)[t := q']\<rparr>)" and "sys_inv (s\<lparr>s_tasks := (s_tasks s)[t := q']\<rparr>)"
  using assms filter_pos [of t "s_tasks s" owns_slot] filter_pos [of t "s_tasks s" overshoot]
  by (auto simp: sys_inv_def slots_def overshoots_def count_move simp del: length_greater_0_conv)

lemma inv_pop:
  assumes "sys_inv s" and "at s t GetPop" and "s_idle s \<noteq> []"
  shows "sys_inv (s\<lparr>s_idle := butlast (s_idle s), s_tasks := (s_tasks s)[t := Holding c]\<rparr>)"
proof -
  obtain xs x where "s_idle s = xs @ [x]" using assms(3) by (cases "s_idle s" rule: rev_cases) auto
  then show ?thesis
    using assms(1,2) by (simp add: sys_inv_def slots_def overshoots_def count_move)
qed

lemma inv_push:
  assumes "sys_inv s" and "at s t (PutPush c)"
  shows "sys_inv (s\<lparr>s_idle := s_idle s @ [c], s_tasks := (s_tasks s)[t := PutNotify]\<rparr>)"
  using assms filter_pos [of t "s_tasks s" owns_slot]
  by (auto simp: sys_inv_def slots_def overshoots_def count_move simp del: length_greater_0_conv)

lemmas inv_moves = inv_claim inv_overshoot inv_give_back inv_keep inv_pop inv_push

lemma pstep_inv: "pstep nt s s' \<Longrightarrow> sys_inv s \<Longrightarrow> sys_inv s'"
proof (induction rule: pstep.induct)
  case (undo s t)
  then show ?case by (intro inv_give_back [of s t GetUndo]) auto
next
  case (dial_err_sub s t)
  then show ?case by (intro inv_give_back [of s t DialFailed]) auto
next
  case (put_sub s t)
  then show ?case by (intro inv_give_back [of s t PutSub]) auto
qed (simp_all add: inv_moves)

lemma pstep_frame: "pstep nt s s' \<Longrightarrow> s_max s' = s_max s \<and> length (s_tasks s') = length (s_tasks s)"
  by (induction rule: pstep.induct) simp_all

lemma preach_inv:
  assumes "preach nt m k s" and "unat m + k \<le> usize_max"
  shows "sys_inv s \<and> s_max s = m \<and> length (s_tasks s) = k"
  using assms
proof (induction rule: preach.induct)
  case start
  then show ?case using sys_init_inv by (simp add: sys_init_def)
next
  case (step s s')
  then show ?case using pstep_inv pstep_frame by metis
qed

section \<open>Executing the steps\<close>

text \<open>
  The step relation as a function of the scheduler's and the environment's choices: which task
  moves, whether its dial or exchange succeeds, and with which connection.
\<close>

fun pmove :: "'n notify_api \<Rightarrow> nat \<Rightarrow> bool \<Rightarrow> 'c \<Rightarrow> ('c, 'n) sys \<Rightarrow> ('c, 'n) sys option" where
  "pmove nt t good c s =
     (if t \<ge> length (s_tasks s) then None
      else case s_tasks s ! t of
          GetPop \<Rightarrow> Some (if s_idle s \<noteq> []
            then (s\<lparr>s_idle := butlast (s_idle s), s_tasks := (s_tasks s)[t := Holding (last (s_idle s))]\<rparr>) else (s\<lparr>s_tasks := (s_tasks s)[t := GetAdd]\<rparr>))
        | GetAdd \<Rightarrow> Some (s\<lparr>s_out := s_out s + 1, s_tasks := (s_tasks s)[t := (if s_out s < s_max s then Dialing else GetUndo)]\<rparr>)
        | Dialing \<Rightarrow> Some (s\<lparr>s_tasks := (s_tasks s)[t := (if good then Holding c else DialFailed)]\<rparr>)
        | DialFailed \<Rightarrow> Some (s\<lparr>s_out := s_out s - 1, s_tasks := (s_tasks s)[t := Finished]\<rparr>)
        | GetUndo \<Rightarrow> Some (s\<lparr>s_out := s_out s - 1, s_tasks := (s_tasks s)[t := GetAwait]\<rparr>)
        | GetAwait \<Rightarrow> Some (s\<lparr>s_nt := nt_wait nt t (s_nt s), s_tasks := (s_tasks s)[t := Waiting]\<rparr>)
        | Waiting \<Rightarrow> (case nt_done nt t (s_nt s) of None \<Rightarrow> None | Some n \<Rightarrow> Some (s\<lparr>s_nt := n, s_tasks := (s_tasks s)[t := GetPop]\<rparr>))
        | Holding d \<Rightarrow> Some (s\<lparr>s_tasks := (s_tasks s)[t := (if good then PutPush c else PutSub)]\<rparr>)
        | PutPush d \<Rightarrow> Some (if length (s_idle s) < unat (s_max s)
            then (s\<lparr>s_idle := s_idle s @ [d], s_tasks := (s_tasks s)[t := PutNotify]\<rparr>) else (s\<lparr>s_tasks := (s_tasks s)[t := PutSub]\<rparr>))
        | PutSub \<Rightarrow> Some (s\<lparr>s_out := s_out s - 1, s_tasks := (s_tasks s)[t := PutNotify]\<rparr>)
        | PutNotify \<Rightarrow> Some (s\<lparr>s_nt := nt_one nt (s_nt s), s_tasks := (s_tasks s)[t := Finished]\<rparr>)
        | Finished \<Rightarrow> None)"

declare pmove.simps [simp del]

lemma pmove_sound: "pmove nt t good c s = Some s' \<Longrightarrow> pstep nt s s'"
  by (cases "s_tasks s ! t")
     (auto simp: pmove.simps intro: pstep.intros split: if_splits option.splits)

lemma pmove_exI:
  "t < length (s_tasks s) \<Longrightarrow> pmove nt t good c s = Some s' \<Longrightarrow> \<exists>t good c. pmove nt t good c s = Some s'"
  by blast

lemma pstep_pmove: "pstep nt s s' \<Longrightarrow> \<exists>t good c. pmove nt t good c s = Some s'"
proof (induction rule: pstep.induct)
  case (dial_ok s t c)
  then show ?case by (intro exI [of _ t] exI [of _ True] exI [of _ c]) (simp add: pmove.simps)
next
  case (dial_err s t)
  then show ?case by (intro exI [of _ t] exI [of _ False]) (simp add: pmove.simps)
next
  case (use_ok s t d c)
  then show ?case by (intro exI [of _ t] exI [of _ True] exI [of _ c]) (simp add: pmove.simps)
next
  case (use_err s t d)
  then show ?case by (intro exI [of _ t] exI [of _ False]) (simp add: pmove.simps)
qed (elim conjE, rule pmove_exI [where good = True], assumption, simp add: pmove.simps)+

text \<open>The step relation and the function agree: the runs of the one are the runs of the other.\<close>

lemma pstep_iff_pmove: "pstep nt s s' \<longleftrightarrow> (\<exists>t good c. pmove nt t good c s = Some s')"
  using pmove_sound pstep_pmove by metis

section \<open>What the code relies on of the notifier\<close>

text \<open>
  The documented behaviour of \<^verbatim>\<open>tokio::sync::Notify\<close>, over two observations of its state: whether a
  permit is stored and which tasks are registered and not yet notified. \<^verbatim>\<open>notify_one\<close> wakes one
  registered task, or stores the permit if there is none; the first poll of \<^verbatim>\<open>notified()\<close> consumes a
  stored permit, or registers the task; a registered task stays pending until it is notified.
\<close>

definition notify_laws :: "'n notify_api \<Rightarrow> ('n \<Rightarrow> bool) \<Rightarrow> ('n \<Rightarrow> nat set) \<Rightarrow> bool" where
  "notify_laws nt permit pend \<longleftrightarrow>
     \<not> permit (nt_new nt) \<and> pend (nt_new nt) = {}
     \<and> (\<forall>n. pend n = {} \<longrightarrow> permit (nt_one nt n) \<and> pend (nt_one nt n) = {})
     \<and> (\<forall>n. pend n \<noteq> {} \<longrightarrow> (\<exists>w \<in> pend n. pend (nt_one nt n) = pend n - {w}) \<and> permit (nt_one nt n) = permit n)
     \<and> (\<forall>n t. permit n \<longrightarrow> \<not> permit (nt_wait nt t n) \<and> pend (nt_wait nt t n) = pend n)
     \<and> (\<forall>n t. \<not> permit n \<longrightarrow> \<not> permit (nt_wait nt t n) \<and> pend (nt_wait nt t n) = insert t (pend n))
     \<and> (\<forall>n t. nt_done nt t n = None \<longleftrightarrow> t \<in> pend n)
     \<and> (\<forall>n t n'. nt_done nt t n = Some n' \<longrightarrow> permit n' = permit n \<and> pend n' = pend n)"

lemma notify_lawsD:
  assumes "notify_laws nt permit pend"
  shows notify_new: "\<not> permit (nt_new nt)" "pend (nt_new nt) = {}"
    and notify_stores: "pend n = {} \<Longrightarrow> permit (nt_one nt n)" "pend n = {} \<Longrightarrow> pend (nt_one nt n) = {}"
    and notify_wakes: "pend n \<noteq> {} \<Longrightarrow> \<exists>w \<in> pend n. pend (nt_one nt n) = pend n - {w}"
      "pend n \<noteq> {} \<Longrightarrow> permit (nt_one nt n) = permit n"
    and notify_wait: "\<not> permit (nt_wait nt t n)"
      "pend (nt_wait nt t n) = (if permit n then pend n else insert t (pend n))"
    and notify_done: "nt_done nt t n = None \<longleftrightarrow> t \<in> pend n"
      "nt_done nt t n = Some n' \<Longrightarrow> permit n' = permit n" "nt_done nt t n = Some n' \<Longrightarrow> pend n' = pend n"
  using assms unfolding notify_laws_def by metis+

text \<open>A notifier with the documented behaviour, waking in order of registration.\<close>

definition fifo_notify :: "(bool \<times> nat list) notify_api" where
  "fifo_notify =
     \<lparr>nt_new = (False, []),
      nt_one = \<lambda>n. case snd n of [] \<Rightarrow> (True, []) | w # ws \<Rightarrow> (fst n, filter ((\<noteq>) w) ws),
      nt_wait = \<lambda>t n. if fst n then (False, snd n) else (False, snd n @ [t]),
      nt_done = \<lambda>t n. if t \<in> set (snd n) then None else Some n\<rparr>"

lemma fifo_notify_laws: "notify_laws fifo_notify fst (set \<circ> snd)"
  by (auto simp: notify_laws_def fifo_notify_def neq_Nil_conv split: list.splits if_splits)

lemma preach_pmove: "preach nt m k s \<Longrightarrow> pmove nt t good c s = Some s' \<Longrightarrow> preach nt m k s'"
  by (rule preach.step, assumption, rule pmove_sound)

text \<open>A schedule, run from a state: the moves of the listed tasks, with the environment's choices.\<close>

fun prun :: "'n notify_api \<Rightarrow> (nat \<times> bool \<times> 'c) list \<Rightarrow> ('c, 'n) sys \<Rightarrow> ('c, 'n) sys option" where
  "prun nt [] s = Some s"
| "prun nt ((t, good, c) # ms) s = (case pmove nt t good c s of None \<Rightarrow> None | Some s' \<Rightarrow> prun nt ms s')"

lemma prun_preach: "prun nt ms s = Some s' \<Longrightarrow> preach nt m k s \<Longrightarrow> preach nt m k s'"
  by (induction nt ms s rule: prun.induct) (auto split: option.splits intro: preach_pmove)

section \<open>Bounds that hold under every interleaving\<close>

text \<open>Two requests at a pool of one: the first holds a connection, the second has not undone its claim.\<close>

lemma example_held:
  "preach fifo_notify 1 2 \<lparr>s_max = 1, s_idle = [], s_out = 2, s_nt = (False, []), s_tasks = [Holding (7 :: nat), GetUndo]\<rparr>"
  by (rule prun_preach [OF _ preach.start, where ms = "[(0, True, 7), (0, True, 7), (0, True, 7), (1, True, 7), (1, True, 7)]"])
     (simp add: sys_init_def fifo_notify_def pmove.simps eval_nat_numeral)

text \<open>C2: However the tasks interleave, the connections that are idle, in use, or being dialled never
  exceed the configured maximum of the pool.\<close>

theorem pool_never_exceeds_max:
  assumes "preach nt m k s" and "unat m + k \<le> usize_max"
  shows "length (s_idle s) + length (filter owns_slot (s_tasks s)) \<le> unat m"
  using preach_inv [OF assms] by (auto simp: sys_inv_def slots_def)

theorem pool_never_exceeds_max_witness:
  "length [] + length (filter owns_slot [Holding (7 :: nat), GetUndo]) \<le> unat (1 :: usize)"
  using pool_never_exceeds_max [OF example_held] by (simp add: usize_max_def)

text \<open>The counter \<^verbatim>\<open>outstanding\<close> never leaks or wraps under interleaving: at any moment it is the
  number of idle connections, owned slots and not yet undone claims; in particular it is the
  number of idle connections whenever no task is inside the pool or holds a connection.\<close>

lemma outstanding_exact:
  assumes "preach nt m k s" and "unat m + k \<le> usize_max"
  shows "unat (s_out s) = length (s_idle s) + length (filter owns_slot (s_tasks s)) + length (filter overshoot (s_tasks s))"
  using preach_inv [OF assms] by (simp add: sys_inv_def slots_def overshoots_def)

text \<open>The branch of \<^verbatim>\<open>put\<close> that drops a healthy connection because the idle list is full is never
  taken: a task about to push always finds room.\<close>

lemma put_always_finds_room:
  assumes "preach nt m k s" and "unat m + k \<le> usize_max" and "t < length (s_tasks s)" and "s_tasks s ! t = PutPush c"
  shows "length (s_idle s) < unat (s_max s)"
proof -
  have "0 < length (filter owns_slot (s_tasks s))"
    using assms(3,4) by (intro filter_pos [of t]) auto
  moreover have "length (s_idle s) + length (filter owns_slot (s_tasks s)) \<le> unat (s_max s)"
    using preach_inv [OF assms(1,2)] by (auto simp: sys_inv_def slots_def)
  ultimately show ?thesis by linarith
qed

section \<open>Waiters can be stranded\<close>

lemma pmove_enabled:
  "(\<exists>good c s'. pmove nt t good c s = Some s') \<longleftrightarrow>
     t < length (s_tasks s) \<and> s_tasks s ! t \<noteq> Finished \<and> (s_tasks s ! t = Waiting \<longrightarrow> nt_done nt t (s_nt s) \<noteq> None)"
  by (cases "t < length (s_tasks s)"; cases "s_tasks s ! t") (simp_all add: pmove.simps split: option.splits)

definition stuck :: "'n notify_api \<Rightarrow> ('c, 'n) sys \<Rightarrow> bool" where
  "stuck nt s \<longleftrightarrow> (\<forall>t < length (s_tasks s). s_tasks s ! t = Finished
     \<or> s_tasks s ! t = Waiting \<and> nt_done nt t (s_nt s) = None)"

lemma stuck_iff: "stuck nt s \<longleftrightarrow> (\<forall>s'. \<not> pstep nt s s')"
  by (simp add: stuck_def pstep_iff_pmove) (metis pmove_enabled)

text \<open>C29: A failed dial strands the task that waits for its slot: \<^verbatim>\<open>get\<close> gives the slot back without
  \<^verbatim>\<open>notify_one\<close>. With \<^verbatim>\<open>max_size = 1\<close> and two requests the system can reach a state in which the
  pool is empty with nothing outstanding, one request has failed and the other waits, and no
  task can take a step any more.\<close>

theorem waiter_stranded_by_dial_error:
  assumes "notify_laws nt permit pend"
  shows "\<exists>s :: ('c, 'n) sys. preach nt 1 2 s \<and> s_tasks s = [Finished, Waiting] \<and> s_idle s = [] \<and> s_out s = 0
           \<and> (\<forall>s'. \<not> pstep nt s s')"
proof -
  note laws = notify_lawsD [OF assms]
  let ?n = "nt_wait nt 1 (nt_new nt)"
  let ?s = "\<lparr>s_max = 1, s_idle = [], s_out = 0, s_nt = ?n, s_tasks = [Finished, Waiting]\<rparr> :: ('c, 'n) sys"
  let ?m = "\<lambda>t g. (t, g, undefined :: 'c)"
  have "prun nt [?m 0 True, ?m 0 True, ?m 1 True, ?m 1 True, ?m 1 True, ?m 1 True, ?m 0 False, ?m 0 False]
      (sys_init nt 1 2) = Some ?s"
    by (simp add: sys_init_def pmove.simps eval_nat_numeral)
  then have "preach nt 1 2 ?s" by (rule prun_preach) (rule preach.start)
  moreover have "stuck nt ?s"
    using laws by (simp add: stuck_def less_Suc_eq eval_nat_numeral)
  ultimately show ?thesis unfolding stuck_iff by (intro exI [of _ ?s]) simp
qed

theorem waiter_stranded_by_dial_error_witness:
  "\<exists>s :: (nat, bool \<times> nat list) sys. preach fifo_notify 1 2 s \<and> s_tasks s = [Finished, Waiting] \<and> s_idle s = []
     \<and> s_out s = 0 \<and> (\<forall>s'. \<not> pstep fifo_notify s s')"
  by (rule waiter_stranded_by_dial_error [OF fifo_notify_laws])

text \<open>Runs in which no dial fails.\<close>

definition dials_ok_step :: "'n notify_api \<Rightarrow> ('c, 'n) sys \<Rightarrow> ('c, 'n) sys \<Rightarrow> bool" where
  "dials_ok_step nt s s' \<longleftrightarrow> pstep nt s s' \<and> DialFailed \<notin> set (s_tasks s')"

fun all_dials_ok :: "'n notify_api \<Rightarrow> (nat \<times> bool \<times> 'c) list \<Rightarrow> ('c, 'n) sys \<Rightarrow> bool" where
  "all_dials_ok nt [] s = True"
| "all_dials_ok nt ((t, good, c) # ms) s =
     (case pmove nt t good c s of None \<Rightarrow> True | Some s' \<Rightarrow> DialFailed \<notin> set (s_tasks s') \<and> all_dials_ok nt ms s')"

lemma prun_dials_ok: "prun nt ms s = Some s' \<Longrightarrow> all_dials_ok nt ms s \<Longrightarrow> (dials_ok_step nt)\<^sup>*\<^sup>* s s'"
proof (induction nt ms s rule: prun.induct)
  case (2 nt t good c ms s)
  then obtain s1 where mv: "pmove nt t good c s = Some s1" by (auto split: option.splits)
  with 2 have "(dials_ok_step nt)\<^sup>*\<^sup>* s1 s'" by simp
  moreover have "dials_ok_step nt s s1" using 2 mv pmove_sound [OF mv] by (simp add: dials_ok_step_def)
  ultimately show ?case by (rule converse_rtranclp_into_rtranclp [rotated])
qed simp

text \<open>C28: Two waiters can strand each other in a run in which no dial fails: the transient \<^verbatim>\<open>fetch_add\<close> of one
  waiter makes the other see a full pool, and the single permit of a closed connection is spent on
  a retry that fails that way. The pool ends empty with nothing outstanding and two requests
  waiting for ever.\<close>

theorem waiters_stranded_by_race:
  assumes "notify_laws nt permit pend"
  shows "\<exists>s :: ('c, 'n) sys. (dials_ok_step nt)\<^sup>*\<^sup>* (sys_init nt 1 3) s \<and> s_tasks s = [Finished, Waiting, Waiting]
           \<and> s_idle s = [] \<and> s_out s = 0 \<and> (\<forall>s'. \<not> pstep nt s s')"
proof -
  note laws = notify_lawsD [OF assms]
  let ?p = "nt_wait nt 1 (nt_one nt (nt_new nt))"
  have "pend ?p = {}" using laws by simp
  then obtain n where n: "nt_done nt 1 ?p = Some n" and "pend n = {}" and "\<not> permit n"
    using laws by (metis empty_iff not_None_eq)
  let ?n = "nt_wait nt 1 (nt_wait nt 2 n)"
  let ?s = "\<lparr>s_max = 1, s_idle = [], s_out = 0, s_nt = ?n, s_tasks = [Finished, Waiting, Waiting]\<rparr> :: ('c, 'n) sys"
  let ?m = "\<lambda>t g. (t, g, undefined :: 'c)"
  let ?ms = "[?m 0 True, ?m 0 True, ?m 0 True, ?m 1 True, ?m 1 True, ?m 0 False, ?m 0 True, ?m 0 True,
      ?m 2 True, ?m 2 True, ?m 1 True, ?m 1 True, ?m 1 True, ?m 1 True, ?m 1 True,
      ?m 2 True, ?m 2 True, ?m 1 True, ?m 1 True]"
  have "prun nt ?ms (sys_init nt 1 3) = Some ?s" and "all_dials_ok nt ?ms (sys_init nt 1 3)"
    using n by (simp_all add: sys_init_def pmove.simps eval_nat_numeral)
  then have "(dials_ok_step nt)\<^sup>*\<^sup>* (sys_init nt 1 3) ?s" by (rule prun_dials_ok)
  moreover have "stuck nt ?s"
    using laws \<open>\<not> permit n\<close> by (simp add: stuck_def less_Suc_eq eval_nat_numeral)
  ultimately show ?thesis unfolding stuck_iff by (intro exI [of _ ?s]) simp
qed

theorem waiters_stranded_by_race_witness:
  "\<exists>s :: (nat, bool \<times> nat list) sys. (dials_ok_step fifo_notify)\<^sup>*\<^sup>* (sys_init fifo_notify 1 3) s
     \<and> s_tasks s = [Finished, Waiting, Waiting] \<and> s_idle s = [] \<and> s_out s = 0 \<and> (\<forall>s'. \<not> pstep fifo_notify s s')"
  by (rule waiters_stranded_by_race [OF fifo_notify_laws])

section \<open>Every run ends\<close>

text \<open>
  A potential that every step lowers. A notification is worth five units, wherever it is: stored as
  a permit, or in a task that is notified and not yet rescheduled; it pays for the one retry it
  causes.
\<close>

fun weight :: "'c pc \<Rightarrow> nat" where
  "weight GetPop = 12"
| "weight GetAdd = 11"
| "weight Dialing = 10"
| "weight DialFailed = 1"
| "weight GetUndo = 10"
| "weight GetAwait = 9"
| "weight Waiting = 8"
| "weight (Holding c) = 9"
| "weight (PutPush c) = 8"
| "weight PutSub = 7"
| "weight PutNotify = 6"
| "weight Finished = 0"

definition task_weight :: "('n \<Rightarrow> nat set) \<Rightarrow> ('c, 'n) sys \<Rightarrow> nat \<Rightarrow> nat" where
  "task_weight pend s t = weight (s_tasks s ! t) + (if s_tasks s ! t = Waiting \<and> t \<notin> pend (s_nt s) then 5 else 0)"

definition potential :: "('n \<Rightarrow> bool) \<Rightarrow> ('n \<Rightarrow> nat set) \<Rightarrow> ('c, 'n) sys \<Rightarrow> nat" where
  "potential permit pend s = (\<Sum>t < length (s_tasks s). task_weight pend s t) + (if permit (s_nt s) then 5 else 0)"

lemma sum_split_at: "t < (k :: nat) \<Longrightarrow> (\<Sum>i < k. f i) = (f t :: nat) + (\<Sum>i \<in> {..<k} - {t}. f i)"
  by (intro sum.remove) auto

lemma task_weight_other:
  assumes "i \<noteq> t" and "pend (s_nt s') = pend (s_nt s) \<or> pend (s_nt s') = insert t (pend (s_nt s))"
    and "s_tasks s' = (s_tasks s)[t := q]"
  shows "task_weight pend s' i = task_weight pend s i"
  using assms by (auto simp: task_weight_def)

text \<open>A move that leaves the other tasks' notifications alone lowers the potential if it does so locally.\<close>

lemma potential_local:
  assumes "t < length (s_tasks s)" and "s_tasks s' = (s_tasks s)[t := q]"
    and "pend (s_nt s') = pend (s_nt s) \<or> pend (s_nt s') = insert t (pend (s_nt s))"
    and "task_weight pend s' t + (if permit (s_nt s') then 5 else 0)
       < task_weight pend s t + (if permit (s_nt s) then 5 else 0)"
  shows "potential permit pend s' < potential permit pend s"
proof -
  have "(\<Sum>i \<in> {..<length (s_tasks s)} - {t}. task_weight pend s' i)
      = (\<Sum>i \<in> {..<length (s_tasks s)} - {t}. task_weight pend s i)"
    using assms(2,3) by (intro sum.cong) (auto intro: task_weight_other)
  moreover have len: "length (s_tasks s') = length (s_tasks s)" using assms(2) by simp
  ultimately show ?thesis
    using assms(4) sum_split_at [OF assms(1), of "task_weight pend s"] sum_split_at [OF assms(1), of "task_weight pend s'"]
    unfolding potential_def len by linarith
qed

text \<open>A notification that wakes another task moves its five units there.\<close>

lemma potential_notify:
  assumes laws: "notify_laws nt permit pend" and at: "at s t PutNotify"
  shows "potential permit pend (s\<lparr>s_nt := nt_one nt (s_nt s), s_tasks := (s_tasks s)[t := Finished]\<rparr>)
       < potential permit pend s" (is "potential _ _ ?s' < _")
proof (cases "pend (s_nt s) = {}")
  case True
  then show ?thesis using at notify_lawsD [OF laws]
    by (intro potential_local [of t _ _ Finished]) (auto simp: task_weight_def)
next
  case False
  then obtain w where w: "w \<in> pend (s_nt s)" "pend (nt_one nt (s_nt s)) = pend (s_nt s) - {w}"
    and p: "permit (nt_one nt (s_nt s)) = permit (s_nt s)"
    using notify_lawsD [OF laws] by metis
  let ?k = "length (s_tasks s)"
  have "task_weight pend ?s' i \<le> task_weight pend s i + (if i = w then 5 else 0)" if "i \<in> {..<?k} - {t}" for i
    using that w by (auto simp: task_weight_def)
  then have "(\<Sum>i \<in> {..<?k} - {t}. task_weight pend ?s' i)
      \<le> (\<Sum>i \<in> {..<?k} - {t}. task_weight pend s i + (if i = w then 5 else 0))"
    by (rule sum_mono)
  also have "\<dots> \<le> (\<Sum>i \<in> {..<?k} - {t}. task_weight pend s i) + 5"
    by (simp add: sum.distrib)
  finally have "(\<Sum>i \<in> {..<?k} - {t}. task_weight pend ?s' i) \<le> (\<Sum>i \<in> {..<?k} - {t}. task_weight pend s i) + 5" .
  moreover have "task_weight pend ?s' t = 0" and "task_weight pend s t = 6"
    using at by (auto simp: task_weight_def)
  moreover have len: "length (s_tasks ?s') = ?k" and per: "permit (s_nt ?s') = permit (s_nt s)" using p by simp_all
  ultimately show ?thesis
    using at sum_split_at [of t ?k "task_weight pend s"] sum_split_at [of t ?k "task_weight pend ?s'"]
    unfolding potential_def len per by linarith
qed

lemma potential_decreases:
  assumes laws: "notify_laws nt permit pend" and "pstep nt s s'"
  shows "potential permit pend s' < potential permit pend s"
  using assms(2)
proof (induction rule: pstep.induct)
  case (put_notify s t)
  then show ?case using potential_notify [OF laws] by blast
next
  case (await s t)
  then show ?case using notify_lawsD [OF laws]
    by (intro potential_local [of t _ _ Waiting]) (auto simp: task_weight_def)
next
  case (woken s t n)
  then have "t \<notin> pend (s_nt s)" and "permit n = permit (s_nt s)" and "pend n = pend (s_nt s)"
    using notify_lawsD [OF laws] by (metis option.distinct(1))+
  then show ?case using woken by (intro potential_local [of t _ _ GetPop]) (auto simp: task_weight_def)
qed (elim conjE, rule potential_local, assumption, simp, simp, simp add: task_weight_def)+

lemma run_potential:
  assumes "notify_laws nt permit pend" and "(pstep nt ^^ n) s s'"
  shows "potential permit pend s' + n \<le> potential permit pend s"
  using assms(2)
proof (induction n arbitrary: s')
  case (Suc n)
  then obtain s1 where "(pstep nt ^^ n) s s1" and "pstep nt s1 s'" by auto
  with Suc.IH potential_decreases [OF assms(1)] show ?case by fastforce
qed simp

lemma runs_to_stuck:
  assumes "notify_laws nt permit pend"
  shows "\<exists>s'. (pstep nt)\<^sup>*\<^sup>* s s' \<and> stuck nt s'"
proof (induction s rule: measure_induct_rule [of "potential permit pend"])
  case (less s)
  show ?case
  proof (cases "stuck nt s")
    case False
    then obtain s1 where "pstep nt s s1" by (auto simp: stuck_iff)
    with less potential_decreases [OF assms this] show ?thesis by (meson converse_rtranclp_into_rtranclp)
  qed auto
qed

text \<open>C11: No livelock in the pool, failures included: a run of \<open>k\<close> requests that compete for a pool has at most
  \<open>12 k\<close> steps, however dials and exchanges fail and however often waiters are woken in vain; and
  from each of its states the run can go on to an end, in which every task has finished or sleeps
  without a notification on its way.\<close>

theorem pool_runs_end:
  assumes "notify_laws nt permit pend" and "(pstep nt ^^ n) (sys_init nt m k) s"
  shows "n \<le> 12 * k \<and> (\<exists>s'. (pstep nt)\<^sup>*\<^sup>* s s' \<and> (\<forall>t < length (s_tasks s'). s_tasks s' ! t = Finished
     \<or> s_tasks s' ! t = Waiting \<and> nt_done nt t (s_nt s') = None))"
proof -
  have "potential permit pend (sys_init nt m k :: ('b, 'a) sys) = 12 * k"
    using notify_new [OF assms(1)] by (simp add: sys_init_def potential_def task_weight_def)
  then show ?thesis
    using run_potential [OF assms] runs_to_stuck [OF assms(1), of s] by (simp add: stuck_def)
qed

theorem pool_runs_end_witness:
  "\<exists>s :: (nat, bool \<times> nat list) sys. (pstep fifo_notify ^^ 2) (sys_init fifo_notify 1 2) s \<and> 2 \<le> 12 * (2 :: nat)
     \<and> (\<exists>s'. (pstep fifo_notify)\<^sup>*\<^sup>* s s' \<and> (\<forall>t < length (s_tasks s'). s_tasks s' ! t = Finished
       \<or> s_tasks s' ! t = Waiting \<and> nt_done fifo_notify t (s_nt s') = None))"
proof -
  let ?i = "sys_init fifo_notify 1 2 :: (nat, bool \<times> nat list) sys"
  obtain s1 s2 where "pmove fifo_notify 0 True 7 ?i = Some s1" and "pmove fifo_notify 0 True 7 s1 = Some s2"
    by (simp add: pmove.simps sys_init_def eval_nat_numeral)
  then have "(pstep fifo_notify ^^ 2) ?i s2"
    by (simp add: numeral_2_eq_2 relcompp_apply) (meson pmove_sound)
  with pool_runs_end [OF fifo_notify_laws this] show ?thesis by blast
qed

section \<open>Without failures every request is served\<close>

text \<open>A step after which no dial and no exchange has failed.\<close>

definition calm :: "('c, 'n) sys \<Rightarrow> bool" where
  "calm s \<longleftrightarrow> DialFailed \<notin> set (s_tasks s) \<and> PutSub \<notin> set (s_tasks s)"

definition calm_step :: "'n notify_api \<Rightarrow> ('c, 'n) sys \<Rightarrow> ('c, 'n) sys \<Rightarrow> bool" where
  "calm_step nt s s' \<longleftrightarrow> pstep nt s s' \<and> calm s'"

text \<open>
  Tasks that found nothing idle and are on their way to sleep (or asleep), and tasks that will
  notify or take a connection. The invariants: a stored permit means that nobody is registered;
  only waiting tasks are registered; somebody gave up only if all slots are taken; and while a
  connection is idle and somebody goes to sleep, a notification is stored or a task is under way
  that takes the connection or notifies.
\<close>

fun gave_up :: "'c pc \<Rightarrow> bool" where
  "gave_up GetUndo = True"
| "gave_up GetAwait = True"
| "gave_up Waiting = True"
| "gave_up _ = False"

definition sleepy :: "('n \<Rightarrow> nat set) \<Rightarrow> ('c, 'n) sys \<Rightarrow> nat \<Rightarrow> bool" where
  "sleepy pend s t \<longleftrightarrow> (case s_tasks s ! t of
      GetAdd \<Rightarrow> True | GetUndo \<Rightarrow> True | GetAwait \<Rightarrow> True | Waiting \<Rightarrow> t \<in> pend (s_nt s) | _ \<Rightarrow> False)"

definition under_way :: "('n \<Rightarrow> nat set) \<Rightarrow> ('c, 'n) sys \<Rightarrow> nat \<Rightarrow> bool" where
  "under_way pend s t \<longleftrightarrow> (case s_tasks s ! t of
      GetPop \<Rightarrow> True | Dialing \<Rightarrow> True | Holding c \<Rightarrow> True | PutPush c \<Rightarrow> True | PutSub \<Rightarrow> True | PutNotify \<Rightarrow> True
    | Waiting \<Rightarrow> t \<notin> pend (s_nt s) | _ \<Rightarrow> False)"

definition notifier_inv :: "('n \<Rightarrow> bool) \<Rightarrow> ('n \<Rightarrow> nat set) \<Rightarrow> ('c, 'n) sys \<Rightarrow> bool" where
  "notifier_inv permit pend s \<longleftrightarrow> (permit (s_nt s) \<longrightarrow> pend (s_nt s) = {})
     \<and> (\<forall>t \<in> pend (s_nt s). at s t Waiting)"

definition wakeup_inv :: "('n \<Rightarrow> bool) \<Rightarrow> ('n \<Rightarrow> nat set) \<Rightarrow> ('c, 'n) sys \<Rightarrow> bool" where
  "wakeup_inv permit pend s \<longleftrightarrow>
     (s_idle s \<noteq> [] \<and> (\<exists>t < length (s_tasks s). sleepy pend s t)
        \<longrightarrow> permit (s_nt s) \<or> (\<exists>t < length (s_tasks s). under_way pend s t))"

definition full_inv :: "('c, 'n) sys \<Rightarrow> bool" where
  "full_inv s \<longleftrightarrow> (Bex (set (s_tasks s)) gave_up \<longrightarrow> slots s = unat (s_max s))"

lemma notifier_inv_step:
  assumes laws: "notify_laws nt permit pend" and "pstep nt s s'" and "notifier_inv permit pend s"
  shows "notifier_inv permit pend s'"
  using assms(2,3)
proof (induction rule: pstep.induct)
  case (put_notify s t)
  show ?case
  proof (cases "pend (s_nt s) = {}")
    case True
    then show ?thesis using notify_lawsD [OF laws] by (simp add: notifier_inv_def)
  next
    case False
    then obtain w where "pend (nt_one nt (s_nt s)) = pend (s_nt s) - {w}"
      and "permit (nt_one nt (s_nt s)) = permit (s_nt s)"
      using notify_lawsD [OF laws] by metis
    then show ?thesis using put_notify False by (auto simp: notifier_inv_def nth_list_update)
  qed
next
  case (await s t)
  then show ?case using notify_lawsD [OF laws] by (auto simp: notifier_inv_def nth_list_update)
next
  case (woken s t n)
  then have "t \<notin> pend n" and "permit n = permit (s_nt s)" and "pend n = pend (s_nt s)"
    using notify_lawsD [OF laws] by (metis option.distinct(1))+
  then show ?case using woken by (auto simp: notifier_inv_def nth_list_update)
qed (auto simp: notifier_inv_def nth_list_update)

lemma wakeup_moved:
  assumes "t < length (s_tasks s')" and "under_way pend s' t"
  shows "wakeup_inv permit pend s'"
  using assms by (auto simp: wakeup_inv_def)

lemma wakeup_at:
  assumes "t < length (s_tasks s)" and "length (s_tasks s') = length (s_tasks s)" and "under_way pend s' t"
  shows "wakeup_inv permit pend s'"
  using assms by (intro wakeup_moved [of t]) simp_all

lemma wakeup_same:
  assumes "wakeup_inv permit pend s" and "t < length (s_tasks s)" and "sleepy pend s t"
    and "s_tasks s' = (s_tasks s)[t := q]" and "s_idle s' = s_idle s"
    and "pend (s_nt s') = pend (s_nt s) \<or> pend (s_nt s') = insert t (pend (s_nt s))"
    and "permit (s_nt s') = permit (s_nt s)"
  shows "wakeup_inv permit pend s'"
proof -
  have "under_way pend s' i" if "under_way pend s i" for i
  proof -
    have "i \<noteq> t" using that assms(3) by (auto simp: under_way_def sleepy_def split: pc.splits)
    then show ?thesis using that assms(4,6) by (auto simp: under_way_def split: pc.splits)
  qed
  moreover have "\<exists>i < length (s_tasks s). sleepy pend s i" using assms(2,3) by blast
  ultimately show ?thesis using assms(1,4,5,7) unfolding wakeup_inv_def by (metis length_list_update)
qed

lemma wakeup_notify:
  assumes laws: "notify_laws nt permit pend" and "notifier_inv permit pend s" and "at s t PutNotify"
  shows "wakeup_inv permit pend (s\<lparr>s_nt := nt_one nt (s_nt s), s_tasks := (s_tasks s)[t := Finished]\<rparr>)"
proof (cases "pend (s_nt s) = {}")
  case True
  then show ?thesis using notify_lawsD [OF laws] by (simp add: wakeup_inv_def)
next
  case False
  then obtain w where w: "w \<in> pend (s_nt s)" "pend (nt_one nt (s_nt s)) = pend (s_nt s) - {w}"
    using notify_lawsD [OF laws] by metis
  then have at: "at s w Waiting" using assms(2) by (auto simp: notifier_inv_def)
  then have "w \<noteq> t" using assms(3) by auto
  then have "under_way pend (s\<lparr>s_nt := nt_one nt (s_nt s), s_tasks := (s_tasks s)[t := Finished]\<rparr>) w"
    using at w by (simp add: under_way_def)
  then show ?thesis by (rule wakeup_moved [rotated]) (use at in simp)
qed

lemma wakeup_await:
  assumes laws: "notify_laws nt permit pend" and "notifier_inv permit pend s" and "wakeup_inv permit pend s"
    and "at s t GetAwait"
  shows "wakeup_inv permit pend (s\<lparr>s_nt := nt_wait nt t (s_nt s), s_tasks := (s_tasks s)[t := Waiting]\<rparr>)"
proof (cases "permit (s_nt s)")
  case True
  then have "pend (nt_wait nt t (s_nt s)) = {}"
    using assms(2) by (simp add: notifier_inv_def notify_wait [OF laws])
  then have "under_way pend (s\<lparr>s_nt := nt_wait nt t (s_nt s), s_tasks := (s_tasks s)[t := Waiting]\<rparr>) t"
    using assms(4) by (simp add: under_way_def)
  then show ?thesis by (rule wakeup_moved [rotated]) (use assms(4) in simp)
next
  case False
  then show ?thesis using assms(3,4)
    by - (rule wakeup_same [of _ _ s t _ Waiting], simp_all add: sleepy_def notify_wait [OF laws])
qed

lemma wakeup_inv_step:
  assumes laws: "notify_laws nt permit pend" and "pstep nt s s'" and "notifier_inv permit pend s"
    and "wakeup_inv permit pend s" and "calm s" and "calm s'"
  shows "wakeup_inv permit pend s'"
  using assms(2-)
proof (induction rule: pstep.induct)
  case (pop_none s t)
  then show ?case by (simp add: wakeup_inv_def)
next
  case (add_full s t)
  then show ?case by - (rule wakeup_same [of _ _ s t _ GetUndo], simp_all add: sleepy_def)
next
  case (undo s t)
  then show ?case by - (rule wakeup_same [of _ _ s t _ GetAwait], simp_all add: sleepy_def)
next
  case (await s t)
  then show ?case using wakeup_await [OF laws] by blast
next
  case (put_notify s t)
  then show ?case using wakeup_notify [OF laws] by blast
next
  case (dial_err s t)
  then show ?case using set_update_memI [of t "s_tasks s" DialFailed] by (simp add: calm_def)
next
  case (dial_err_sub s t)
  then show ?case using nth_mem [of t "s_tasks s"] by (auto simp: calm_def)
qed (elim conjE, rule wakeup_at, assumption, simp, simp add: under_way_def)+

lemma calm_slots_mono:
  assumes "pstep nt s s'" and "calm s" and "calm s'"
  shows "slots s \<le> slots s'"
  using assms
proof (induction rule: pstep.induct)
  case (pop_some s t)
  then obtain xs x where "s_idle s = xs @ [x]" by (cases "s_idle s" rule: rev_cases) auto
  then show ?case using pop_some by (simp add: slots_def count_move)
next
  case (dial_err s t)
  then show ?case using set_update_memI [of t "s_tasks s" DialFailed] by (simp add: calm_def)
next
  case (dial_err_sub s t)
  then show ?case using nth_mem [of t "s_tasks s"] by (auto simp: calm_def)
next
  case (put_sub s t)
  then show ?case using nth_mem [of t "s_tasks s"] by (auto simp: calm_def)
qed (auto simp: slots_def count_move)

lemma full_inv_step:
  assumes "pstep nt s s'" and "calm s" and "calm s'" and "sys_inv s" and "full_inv s"
  shows "full_inv s'"
proof -
  have keep: "slots s' = unat (s_max s')" if "slots s = unat (s_max s)"
    using that calm_slots_mono [OF assms(1-3)] pstep_inv [OF assms(1,4)] pstep_frame [OF assms(1)]
    by (simp add: sys_inv_def)
  show ?thesis
  proof (cases "Bex (set (s_tasks s)) gave_up")
    case True
    then show ?thesis using assms(5) keep by (simp add: full_inv_def)
  next
    case none: False
    then have over: "overshoots s = 0"
      unfolding overshoots_def by (auto simp: filter_empty_conv elim!: overshootE)
    from assms(1) none show ?thesis
    proof cases
      case (add_full t)
      then have "slots s = unat (s_max s)"
        using over assms(4) by (auto simp: sys_inv_def word_less_nat_alt)
      then show ?thesis using keep by (simp add: full_inv_def)
    next
      case (undo t)
      then show ?thesis using none nth_mem [of t "s_tasks s"] by auto
    next
      case (await t)
      then show ?thesis using none nth_mem [of t "s_tasks s"] by auto
    qed (auto simp: full_inv_def dest!: set_update_subset_insert [THEN subsetD])
  qed
qed

lemma calm_run_inv:
  assumes laws: "notify_laws nt permit pend" and "unat m + k \<le> usize_max"
    and "(calm_step nt ^^ n) (sys_init nt m k) s"
  shows "sys_inv s \<and> calm s \<and> notifier_inv permit pend s \<and> wakeup_inv permit pend s \<and> full_inv s
     \<and> s_max s = m \<and> length (s_tasks s) = k \<and> potential permit pend s + n \<le> 12 * k"
  using assms(3)
proof (induction n arbitrary: s)
  case 0
  then show ?case using sys_init_inv [OF assms(2)] notify_new [OF laws]
    by (auto simp: sys_init_def calm_def notifier_inv_def wakeup_inv_def full_inv_def potential_def task_weight_def)
next
  case (Suc n)
  then obtain s0 where run: "(calm_step nt ^^ n) (sys_init nt m k) s0" and "calm_step nt s0 s" by auto
  then have stp: "pstep nt s0 s" and "calm s" by (auto simp: calm_step_def)
  note IH = Suc.IH [OF run]
  have "potential permit pend s < potential permit pend s0" by (rule potential_decreases [OF laws stp])
  then show ?case
    using IH \<open>calm s\<close> pstep_inv [OF stp] notifier_inv_step [OF laws stp] wakeup_inv_step [OF laws stp]
      full_inv_step [OF stp] pstep_frame [OF stp] by auto
qed

text \<open>A state in which nothing can move is one in which every request has finished.\<close>

lemma calm_not_stuck:
  assumes laws: "notify_laws nt permit pend" and "0 < s_max s" and "sys_inv s" and "calm s"
    and "notifier_inv permit pend s" and "wakeup_inv permit pend s" and "full_inv s" and "stuck nt s"
  shows "set (s_tasks s) \<subseteq> {Finished}"
proof (rule ccontr)
  assume "\<not> set (s_tasks s) \<subseteq> {Finished}"
  then obtain t where t: "t < length (s_tasks s)" "s_tasks s ! t \<noteq> Finished"
    by (metis in_set_conv_nth singletonI subsetI)
  then have wait: "s_tasks s ! t = Waiting" "t \<in> pend (s_nt s)"
    using assms(8) notify_done(1) [OF laws] by (auto simp: stuck_def)
  have still: "\<not> owns_slot (s_tasks s ! i)" "\<not> under_way pend s i" if "i < length (s_tasks s)" for i
    using that assms(8) notify_done(1) [OF laws] by (auto simp: stuck_def under_way_def)
  have "Bex (set (s_tasks s)) gave_up" using wait(1) nth_mem [OF t(1)] by (intro bexI [of _ Waiting]) auto
  then have "slots s = unat (s_max s)" using assms(7) by (simp add: full_inv_def)
  moreover have "filter owns_slot (s_tasks s) = []" using still(1) by (auto simp: filter_empty_conv in_set_conv_nth)
  ultimately have "length (s_idle s) = unat (s_max s)" by (simp add: slots_def)
  then have "s_idle s \<noteq> []" using assms(2) by (auto simp: word_less_nat_alt)
  moreover have "sleepy pend s t" using wait by (simp add: sleepy_def)
  ultimately have "permit (s_nt s)" using assms(6) t(1) still(2) by (auto simp: wakeup_inv_def)
  then show False using assms(5) wait(2) by (auto simp: notifier_inv_def)
qed

lemma calm_can_move:
  assumes "\<not> stuck nt s" and "sys_inv s" and "calm s"
  shows "\<exists>s'. calm_step nt s s'"
proof -
  obtain t where t: "t < length (s_tasks s)" "s_tasks s ! t \<noteq> Finished"
    "s_tasks s ! t = Waiting \<longrightarrow> nt_done nt t (s_nt s) \<noteq> None"
    using assms(1) by (auto simp: stuck_def)
  have good: "s_tasks s ! t \<noteq> DialFailed" "s_tasks s ! t \<noteq> PutSub"
    using assms(3) nth_mem [OF t(1)] by (auto simp: calm_def)
  have room: "length (s_idle s) < unat (s_max s)" if "s_tasks s ! t = PutPush d" for d
    using that assms(2) filter_pos [of t "s_tasks s" owns_slot] t(1)
    by (auto simp: sys_inv_def slots_def simp del: length_greater_0_conv)
  obtain s' where s': "pmove nt t True undefined s = Some s'"
    using t by (cases "s_tasks s ! t") (auto simp: pmove.simps)
  have "calm s'"
    using s' t good room assms(3) by (cases "s_tasks s ! t")
      (auto simp: pmove.simps calm_def dest!: set_update_subset_insert [THEN subsetD] split: if_splits option.splits)
  then show ?thesis using pmove_sound [OF s'] by (auto simp: calm_step_def)
qed

text \<open>C3: No lost wake-ups while upstreams work: for a pool of positive size, whatever the interleaving of
  \<open>k\<close> requests, as long as no dial and no exchange fails, a state that is not final has a next
  step, and a run has at most \<open>12 k\<close> steps; so every such run ends with all requests served.\<close>

theorem every_request_served:
  assumes "notify_laws nt permit pend" and "0 < m" and "unat m + k \<le> usize_max"
    and "(calm_step nt ^^ n) (sys_init nt m k) s"
  shows "n \<le> 12 * k \<and> (set (s_tasks s) \<subseteq> {Finished} \<or> (\<exists>s'. calm_step nt s s'))"
  using calm_run_inv [OF assms(1,3,4)] calm_not_stuck [OF assms(1)] calm_can_move assms(2) by fastforce

theorem every_request_served_witness:
  "3 \<le> 12 * (1 :: nat) \<and> (set [Holding (7 :: nat)] \<subseteq> {Finished} \<or> (\<exists>s'. calm_step fifo_notify
     \<lparr>s_max = 1, s_idle = [], s_out = 1, s_nt = (False, []), s_tasks = [Holding (7 :: nat)]\<rparr> s'))"
proof -
  let ?s = "\<lambda>o' q. \<lparr>s_max = 1, s_idle = [], s_out = o', s_nt = (False, []), s_tasks = [q :: nat pc]\<rparr>"
  have st: "calm_step fifo_notify (?s o1 q1) (?s o2 q2)"
    if "pmove fifo_notify 0 True 7 (?s o1 q1) = Some (?s o2 q2)" and "q2 \<noteq> DialFailed" and "q2 \<noteq> PutSub" for o1 o2 q1 q2
    using pmove_sound [OF that(1)] that(2,3) by (auto simp: calm_step_def calm_def)
  have "(calm_step fifo_notify ^^ Suc (Suc (Suc 0))) (?s 0 GetPop) (?s 1 (Holding 7))"
    by (rule relpowp_Suc_I [OF relpowp_Suc_I [OF relpowp_Suc_I [OF relpowp_0_I]], of _ _ "?s 0 GetAdd" "?s 1 Dialing"])
       (rule st, simp_all add: pmove.simps)+
  then have "(calm_step fifo_notify ^^ 3) (sys_init fifo_notify 1 1) (?s 1 (Holding 7))"
    by (simp add: sys_init_def fifo_notify_def numeral_3_eq_3)
  from every_request_served [OF fifo_notify_laws _ _ this] show ?thesis by (simp add: usize_max_def)
qed

section \<open>The sequential operations are runs\<close>

text \<open>
  The operations of theory \<^verbatim>\<open>Conn_Pool\<close>, which run one call of \<^verbatim>\<open>get\<close> or \<^verbatim>\<open>put\<close> undisturbed, are
  particular schedules of the step relation.
\<close>

definition sys_of :: "'n Pool \<Rightarrow> tcp pc list \<Rightarrow> (tcp, 'n) sys" where
  "sys_of p ts = \<lparr>s_max = p_max_size p, s_idle = p_idle p, s_out = p_outstanding p, s_nt = p_notify p, s_tasks = ts\<rparr>"

text \<open>The moves of one task, and schedules in which only that task moves.\<close>

definition tmove :: "'n notify_api \<Rightarrow> nat \<Rightarrow> ('c, 'n) sys \<Rightarrow> ('c, 'n) sys \<Rightarrow> bool" where
  "tmove nt t s s' \<longleftrightarrow> (\<exists>good c. pmove nt t good c s = Some s')"

lemma prun_moves: "prun nt (map (Pair t) ms) s = Some s' \<Longrightarrow> (tmove nt t)\<^sup>*\<^sup>* s s'"
proof (induction ms arbitrary: s)
  case (Cons m ms)
  obtain good c where m: "m = (good, c)" by (cases m)
  with Cons.prems obtain s1 where "pmove nt t good c s = Some s1" and "prun nt (map (Pair t) ms) s1 = Some s'"
    by (auto split: option.splits)
  then have "tmove nt t s s1" and "(tmove nt t)\<^sup>*\<^sup>* s1 s'"
    using tmove_def [of nt t s s1] Cons.IH by blast+
  then show ?case by (rule converse_rtranclp_into_rtranclp)
qed simp

lemma tmoves_steps: "(tmove nt t)\<^sup>*\<^sup>* s s' \<Longrightarrow> (pstep nt)\<^sup>*\<^sup>* s s'"
proof (induction rule: rtranclp_induct)
  case (step s1 s2)
  then have "pstep nt s1 s2" using tmove_def [of nt t s1 s2] by (auto intro: pmove_sound)
  with step.IH show ?case by (rule rtranclp.rtrancl_into_rtrancl)
qed simp

lemma pool_get_run:
  assumes "t < length ts" and "ts ! t = GetPop" and "rt_task rt = t"
  shows "case pool_get rt p of
      (Ok c, p') \<Rightarrow> (tmove (rt_notify rt) t)\<^sup>*\<^sup>* (sys_of p ts) (sys_of p' (ts[t := Holding c]))
    | (Err e, p') \<Rightarrow> (tmove (rt_notify rt) t)\<^sup>*\<^sup>* (sys_of p ts) (sys_of p' (ts[t := Finished]))
    | (Panic, p') \<Rightarrow> False
    | (Pending, p') \<Rightarrow> (tmove (rt_notify rt) t)\<^sup>*\<^sup>* (sys_of p ts) (sys_of p' (ts[t := Waiting]))"
proof -
  note run = prun_moves [where nt = "rt_notify rt" and s = "sys_of p ts" and t = t]
  consider "p_idle p \<noteq> []" | "p_idle p = []" "p_outstanding p < p_max_size p"
    | "p_idle p = []" "\<not> p_outstanding p < p_max_size p" by blast
  then show ?thesis
  proof cases
    case 1
    then show ?thesis using assms run [of "[(True, undefined)]"]
      by (simp add: pool_get_def sys_of_def pmove.simps)
  next
    case 2
    show ?thesis
    proof (cases rule: dial_cases [of "rt_net rt" "p_addr p"])
      case (1 c)
      then show ?thesis using 2 assms run [of "[(True, c), (True, c), (True, c)]"]
        by (simp add: pool_get_def sys_of_def pmove.simps)
    next
      case (2 e)
      let ?m = "\<lambda>g. (g, undefined)"
      show ?thesis using 2 \<open>p_idle p = []\<close> \<open>p_outstanding p < p_max_size p\<close> assms
          run [of "[?m True, ?m True, ?m False, ?m True]"]
        by (simp add: pool_get_def sys_of_def pmove.simps)
    qed
  next
    case 3
    let ?m = "(True, undefined)"
    show ?thesis using 3 assms run [of "[?m, ?m, ?m, ?m]"]
      by (simp add: pool_get_def sys_of_def pmove.simps Let_def)
  qed
qed

lemma pool_put_run:
  assumes "t < length ts" and "ts ! t = Holding c"
  shows "(tmove (rt_notify rt) t)\<^sup>*\<^sup>* (sys_of p ts) (sys_of (pool_put rt c' healthy p) (ts[t := Finished]))"
proof -
  note run = prun_moves [where nt = "rt_notify rt" and s = "sys_of p ts" and t = t]
  let ?m = "(True, c')"
  consider "\<not> healthy" | "healthy" "length (p_idle p) < unat (p_max_size p)"
    | "healthy" "\<not> length (p_idle p) < unat (p_max_size p)" by blast
  then show ?thesis
  proof cases
    case 1
    then show ?thesis using assms run [of "[(False, c'), ?m, ?m]"]
      by (simp add: pool_put_def sys_of_def pmove.simps)
  next
    case 2
    then show ?thesis using assms run [of "[?m, ?m, ?m]"]
      by (simp add: pool_put_def sys_of_def pmove.simps)
  next
    case 3
    then show ?thesis using assms run [of "[?m, ?m, ?m, ?m]"]
      by (simp add: pool_put_def sys_of_def pmove.simps)
  qed
qed

lemma pooled_request_moves:
  assumes "t < length ts" and "ts ! t = GetPop" and "rt_task rt = t"
    and "returned (fst (forward_pooled rt p req))"
  shows "(tmove (rt_notify rt) t)\<^sup>*\<^sup>* (sys_of p ts) (sys_of (snd (forward_pooled rt p req)) (ts[t := Finished]))"
proof (cases rule: forward_pooled_cases [where rt = rt and p = p and req = req])
  case (got c p1)
  have get: "(tmove (rt_notify rt) t)\<^sup>*\<^sup>* (sys_of p ts) (sys_of p1 (ts[t := Holding c]))"
    using pool_get_run [OF assms(1-3), of p] got by simp
  have "(tmove (rt_notify rt) t)\<^sup>*\<^sup>* (sys_of p1 (ts[t := Holding c])) (sys_of (pool_put rt c' h p1) (ts[t := Finished]))" for c' h
    using pool_put_run [of t "ts[t := Holding c]" c rt p1 c' h] assms(1) by simp
  with get have "(tmove (rt_notify rt) t)\<^sup>*\<^sup>* (sys_of p ts) (sys_of (pool_put rt c' h p1) (ts[t := Finished]))" for c' h
    by (rule rtranclp_trans)
  then show ?thesis using got assms(4) by (auto simp: forward_pooled_def split: prod.splits outcome.splits)
qed (use pool_get_run [OF assms(1-3), of p] assms(4) in auto)

section \<open>Cancelled requests\<close>

text \<open>
  A future can be dropped at each \<^verbatim>\<open>await\<close> (a client that resets its HTTP/2 or gRPC stream): at the lock of
  \<^verbatim>\<open>idle\<close> in \<^verbatim>\<open>get\<close> and in \<^verbatim>\<open>put\<close>, at \<^verbatim>\<open>dial\<close>, at \<^verbatim>\<open>notified()\<close>, and during the exchange over its
  connection. It unwinds nothing: a connection it has is closed, and neither \<^verbatim>\<open>put\<close> nor \<^verbatim>\<open>fetch_sub\<close>
  runs. What dropping a waiting future does to the notifier is left open. The second component
  collects the requests that were dropped while they had a slot.
\<close>

inductive dstep :: "'n notify_api \<Rightarrow> ('c, 'n) sys \<times> nat set \<Rightarrow> ('c, 'n) sys \<times> nat set \<Rightarrow> bool" for nt where
  run: "pstep nt s s' \<Longrightarrow> dstep nt (s, D) (s', D)"
| drop_get_lock: "at s t GetPop \<Longrightarrow> dstep nt (s, D) (s\<lparr>s_tasks := (s_tasks s)[t := Finished]\<rparr>, D)"
| drop_dialing: "at s t Dialing \<Longrightarrow> dstep nt (s, D) (s\<lparr>s_tasks := (s_tasks s)[t := Finished]\<rparr>, insert t D)"
| drop_waiting: "at s t Waiting \<Longrightarrow> dstep nt (s, D) (s\<lparr>s_nt := n, s_tasks := (s_tasks s)[t := Finished]\<rparr>, D)"
| drop_holding: "at s t (Holding c) \<Longrightarrow> dstep nt (s, D) (s\<lparr>s_tasks := (s_tasks s)[t := Finished]\<rparr>, insert t D)"
| drop_put_lock: "at s t (PutPush c) \<Longrightarrow> dstep nt (s, D) (s\<lparr>s_tasks := (s_tasks s)[t := Finished]\<rparr>, insert t D)"

text \<open>With respect to its counters, a state with lost slots is a state in which their tasks dial for ever.\<close>

definition as_dialing :: "nat set \<Rightarrow> 'c pc list \<Rightarrow> 'c pc list" where
  "as_dialing D ts = map (\<lambda>t. if t \<in> D then Dialing else ts ! t) [0..<length ts]"

definition lost_inv :: "('c, 'n) sys \<Rightarrow> nat set \<Rightarrow> bool" where
  "lost_inv s D \<longleftrightarrow> sys_inv (s\<lparr>s_tasks := as_dialing D (s_tasks s)\<rparr>)
     \<and> (\<forall>t \<in> D. t < length (s_tasks s) \<and> s_tasks s ! t = Finished)"

lemma as_dialing_update: "t \<notin> D \<Longrightarrow> as_dialing D (ts[t := q]) = (as_dialing D ts)[t := q]"
  by (cases "t < length ts") (auto simp: as_dialing_def nth_list_update intro!: nth_equalityI)

lemma as_dialing_insert: "t < length ts \<Longrightarrow> as_dialing (insert t D) (ts[t := q]) = (as_dialing D ts)[t := Dialing]"
  by (rule nth_equalityI) (auto simp: as_dialing_def nth_list_update)

lemma as_dialing_nth: "t < length ts \<Longrightarrow> as_dialing D ts ! t = (if t \<in> D then Dialing else ts ! t)"
  by (simp add: as_dialing_def)

lemma length_as_dialing [simp]: "length (as_dialing D ts) = length ts"
  by (simp add: as_dialing_def)

lemma pmove_as_dialing:
  assumes "pmove nt t good c s = Some s'" and "t \<notin> D"
  shows "pmove nt t good c (s\<lparr>s_tasks := as_dialing D (s_tasks s)\<rparr>) = Some (s'\<lparr>s_tasks := as_dialing D (s_tasks s')\<rparr>)"
  using assms by (cases "s_tasks s ! t")
    (auto simp: pmove.simps as_dialing_update as_dialing_nth split: if_splits option.splits)

lemma lost_inv_run:
  assumes "pstep nt s s'" and "lost_inv s D"
  shows "lost_inv s' D"
proof -
  obtain t good c where mv: "pmove nt t good c s = Some s'" using assms(1) pstep_pmove by blast
  have "t \<notin> D" and "t < length (s_tasks s)" using mv assms(2) by (auto simp: lost_inv_def pmove.simps split: if_splits)
  moreover obtain q where "s_tasks s' = (s_tasks s)[t := q]"
    using mv by (auto simp: pmove.simps split: if_splits pc.splits option.splits)
  ultimately show ?thesis using pstep_inv [OF pmove_sound [OF pmove_as_dialing [OF mv]]] assms(2)
    by (auto simp: lost_inv_def nth_list_update)
qed

text \<open>A dropped task with a slot is from then on one that dials; one without a slot just ends.\<close>

lemma lost_inv_slot:
  assumes "lost_inv s D" and "at s t q" and "owns_slot q" and "q \<noteq> Finished"
  shows "lost_inv (s\<lparr>s_tasks := (s_tasks s)[t := Finished]\<rparr>) (insert t D)"
proof -
  let ?s = "s\<lparr>s_tasks := as_dialing D (s_tasks s)\<rparr>"
  have "t \<notin> D" using assms by (auto simp: lost_inv_def)
  then have "at ?s t q" using assms(2) by (simp add: as_dialing_nth)
  then have "sys_inv (?s\<lparr>s_tasks := (s_tasks ?s)[t := Dialing]\<rparr>)"
    using inv_keep(2) [of ?s t q Dialing] assms(1,3) by (cases q) (simp_all add: lost_inv_def)
  then show ?thesis using assms(1,2) by (auto simp: lost_inv_def as_dialing_insert nth_list_update)
qed

lemma lost_inv_free:
  assumes "lost_inv s D" and "at s t q" and "\<not> owns_slot q" and "\<not> overshoot q" and "q \<noteq> Finished"
  shows "lost_inv (s\<lparr>s_nt := n, s_tasks := (s_tasks s)[t := Finished]\<rparr>) D"
    and "lost_inv (s\<lparr>s_tasks := (s_tasks s)[t := Finished]\<rparr>) D"
proof -
  let ?s = "s\<lparr>s_tasks := as_dialing D (s_tasks s)\<rparr>"
  have t: "t \<notin> D" using assms by (auto simp: lost_inv_def)
  then have "at ?s t q" using assms(2) by (simp add: as_dialing_nth)
  then have "sys_inv (?s\<lparr>s_nt := n, s_tasks := (s_tasks ?s)[t := Finished]\<rparr>)" "sys_inv (?s\<lparr>s_tasks := (s_tasks ?s)[t := Finished]\<rparr>)"
    using inv_keep [of ?s t q Finished] assms(1,3,4) by (simp_all add: lost_inv_def)
  then show "lost_inv (s\<lparr>s_nt := n, s_tasks := (s_tasks s)[t := Finished]\<rparr>) D"
    and "lost_inv (s\<lparr>s_tasks := (s_tasks s)[t := Finished]\<rparr>) D"
    using assms(1,2) t by (auto simp: lost_inv_def as_dialing_update nth_list_update)
qed

lemma dstep_lost: "dstep nt x x' \<Longrightarrow> lost_inv (fst x) (snd x) \<Longrightarrow> lost_inv (fst x') (snd x')"
proof (induction rule: dstep.induct)
  case (run s s' D)
  then show ?case using lost_inv_run by simp
next
  case (drop_get_lock s t D)
  then show ?case using lost_inv_free(2) [of s D t GetPop] by simp
next
  case (drop_waiting s t D n)
  then show ?case using lost_inv_free(1) [of s D t Waiting n] by simp
qed (auto intro: lost_inv_slot)

lemma dstep_frame:
  "dstep nt x x' \<Longrightarrow> s_max (fst x') = s_max (fst x) \<and> length (s_tasks (fst x')) = length (s_tasks (fst x)) \<and> snd x \<subseteq> snd x'"
  by (induction rule: dstep.induct) (auto dest: pstep_frame)

lemma dsteps_frame:
  assumes "(dstep nt)\<^sup>*\<^sup>* x x'"
  shows "s_max (fst x') = s_max (fst x) \<and> snd x \<subseteq> snd x' \<and> (lost_inv (fst x) (snd x) \<longrightarrow> lost_inv (fst x') (snd x'))"
  using assms
proof (induction rule: rtranclp_induct)
  case (step y z)
  then show ?case using dstep_frame [OF step.hyps(2)] dstep_lost [OF step.hyps(2)] by auto
qed simp

lemma as_dialing_owners:
  assumes "\<forall>t \<in> D. t < length ts \<and> ts ! t = Finished"
  shows "length (filter owns_slot (as_dialing D ts)) = length (filter owns_slot ts) + card D"
proof -
  let ?own = "{t. t < length ts \<and> owns_slot (ts ! t)}"
  have "{t. t < length ts \<and> owns_slot (as_dialing D ts ! t)} = ?own \<union> D"
    using assms by (auto simp: as_dialing_nth split: if_splits)
  moreover have "?own \<inter> D = {}" using assms by auto
  moreover have "finite D" using assms by (intro finite_subset [of D "{..<length ts}"]) auto
  ultimately show ?thesis by (simp add: length_filter_conv_card card_Un_disjoint)
qed

text \<open>C26: Cancelled requests wear the pool out: each request that is dropped while it dials or has a
  connection (in use, or about to be put back) takes one connection from the pool for ever, so that
  idle and used connections and lost slots together never exceed \<^verbatim>\<open>max_size\<close>. Once \<^verbatim>\<open>max_size\<close>
  requests were dropped so, there is no connection left, and no request will ever get or dial one,
  whatever happens afterwards.\<close>

theorem cancelled_requests_exhaust_pool:
  fixes s :: "('c, 'n) sys"
  assumes "(dstep nt)\<^sup>*\<^sup>* (sys_init nt m k, {}) (s, D)" and "unat m + k \<le> usize_max"
  shows "length (s_idle s) + length (filter owns_slot (s_tasks s)) + card D \<le> unat m
    \<and> (card D = unat m \<longrightarrow> (\<forall>s' D'. (dstep nt)\<^sup>*\<^sup>* (s, D) (s', D') \<longrightarrow> s_idle s' = [] \<and> filter owns_slot (s_tasks s') = []))"
proof -
  have bound: "length (s_idle x) + length (filter owns_slot (s_tasks x)) + card E \<le> unat m \<and> finite E"
    if "(dstep nt)\<^sup>*\<^sup>* (sys_init nt m k, {}) (x :: ('c, 'n) sys, E)" for x E
  proof -
    have "as_dialing {} (replicate k GetPop) = (replicate k GetPop :: 'c pc list)"
      by (rule nth_equalityI) (simp_all add: as_dialing_nth)
    then have "lost_inv (sys_init nt m k :: ('c, 'n) sys) {}"
      using sys_init_inv [OF assms(2), of nt] by (simp add: lost_inv_def sys_init_def)
    then have "lost_inv x E" and "s_max x = m" using dsteps_frame [OF that] by (simp_all add: sys_init_def)
    moreover from this have "finite E"
      by (intro finite_subset [of E "{..<length (s_tasks x)}"]) (auto simp: lost_inv_def)
    ultimately show ?thesis using as_dialing_owners [of E "s_tasks x"]
      by (auto simp: lost_inv_def sys_inv_def slots_def)
  qed
  have "s_idle s' = [] \<and> filter owns_slot (s_tasks s') = []"
    if "card D = unat m" and later: "(dstep nt)\<^sup>*\<^sup>* (s, D) (s', D')" for s' D'
  proof -
    have "(dstep nt)\<^sup>*\<^sup>* (sys_init nt m k, {}) (s', D')" using assms(1) later by (rule rtranclp_trans)
    note b = bound [OF this]
    moreover have "card D \<le> card D'" using dsteps_frame [OF later] b by (intro card_mono) simp_all
    ultimately have "length (s_idle s') + length (filter owns_slot (s_tasks s')) = 0" using that(1) by linarith
    then show ?thesis by simp
  qed
  then show ?thesis using bound [OF assms(1)] by blast
qed

lemma prun_dsteps: "prun nt ms s = Some s' \<Longrightarrow> (dstep nt)\<^sup>*\<^sup>* (s, D) (s', D)"
  by (induction nt ms s rule: prun.induct)
     (auto split: option.splits intro: converse_rtranclp_into_rtranclp dstep.run pmove_sound)

text \<open>A pool of two: one request is dropped while it dials, one while it uses its connection, and the third waits.\<close>

lemma example_worn_out:
  "(dstep fifo_notify)\<^sup>*\<^sup>* (sys_init fifo_notify 2 3, {})
     (\<lparr>s_max = 2, s_idle = [], s_out = 2, s_nt = (False, [2]), s_tasks = [Finished, Finished, Waiting :: nat pc]\<rparr>, {1, 0})"
proof -
  let ?s = "\<lambda>out n ts. \<lparr>s_max = 2, s_idle = [], s_out = out, s_nt = n, s_tasks = ts\<rparr> :: (nat, bool \<times> nat list) sys"
  let ?w = "?s 2 (False, [])"
  have "(dstep fifo_notify)\<^sup>*\<^sup>* (sys_init fifo_notify 2 3, {}) (?w [Dialing, Holding 7, GetPop], {})"
    by (rule prun_dsteps [where ms = "[(0, True, 7), (0, True, 7), (1, True, 7), (1, True, 7), (1, True, 7)]"])
       (simp add: sys_init_def pmove.simps fifo_notify_def eval_nat_numeral)
  moreover have "dstep fifo_notify (?w [Dialing, Holding 7, GetPop], {}) (?w [Finished, Holding 7, GetPop], {0})"
    using dstep.drop_dialing [of 0 "?w [Dialing, Holding 7, GetPop]" fifo_notify "{}"] by simp
  moreover have "dstep fifo_notify (?w [Finished, Holding 7, GetPop], {0}) (?w [Finished, Finished, GetPop], {1, 0})"
    using dstep.drop_holding [of 1 "?w [Finished, Holding 7, GetPop]" 7 fifo_notify "{0}"] by simp
  moreover have "(dstep fifo_notify)\<^sup>*\<^sup>* (?w [Finished, Finished, GetPop], {1, 0}) (?s 2 (False, [2]) [Finished, Finished, Waiting], {1, 0})"
    by (rule prun_dsteps [where ms = "replicate 4 (2, True, 7)"])
       (simp add: pmove.simps fifo_notify_def eval_nat_numeral)
  ultimately show ?thesis by (meson rtranclp.rtrancl_into_rtrancl rtranclp_trans)
qed

theorem cancelled_requests_exhaust_pool_witness:
  "\<exists>s :: (nat, bool \<times> nat list) sys. s_tasks s = [Finished, Finished, Waiting]
     \<and> (\<forall>s' D'. (dstep fifo_notify)\<^sup>*\<^sup>* (s, {1, 0}) (s', D') \<longrightarrow> s_idle s' = [] \<and> filter owns_slot (s_tasks s') = [])"
  using cancelled_requests_exhaust_pool [OF example_worn_out]
  by (intro exI [of _ "\<lparr>s_max = 2, s_idle = [], s_out = 2, s_nt = (False, [2]), s_tasks = [Finished, Finished, Waiting]\<rparr>"])
     (simp add: usize_max_def)

end
