(* ===== verification/Service_Concurrency.thy ===== *)
theory Service_Concurrency
  imports Frontend Pool_Concurrency
begin

text \<open>
  The whole request path under concurrency: any number of requests, of any front end, share one
  selector and the connection pools of all upstreams. Each request takes an upstream from the
  selector, goes through the atomic steps of that upstream's pool (theory \<^verbatim>\<open>Pool_Concurrency\<close>), and gives
  its token back; statistics are read in between, and futures are dropped at their \<^verbatim>\<open>await\<close>s. One
  call of \<^verbatim>\<open>next\<close>, \<^verbatim>\<open>release\<close> or \<^verbatim>\<open>stats\<close> is one step; a selection that panics is not (such a request never
  gets a token).
\<close>

section \<open>Requests and steps\<close>

datatype phase =
    Arrived                  \<comment> \<open>read, about to call \<^verbatim>\<open>selector.next()\<close>\<close>
  | Forwarding string i32    \<comment> \<open>inside \<^verbatim>\<open>forwarder.forward\<close>, with its upstream and its token\<close>
  | Dropped string i32       \<comment> \<open>the future was dropped inside \<^verbatim>\<open>forward\<close>, or unwound by a panic\<close>
  | Completed                \<comment> \<open>\<^verbatim>\<open>release\<close> was called\<close>

text \<open>
  The pools by address; an address without a pool is dialled for each request. Task \<open>t\<close> of every pool
  belongs to request \<open>t\<close>, and is \<open>Finished\<close> in the pools of all other upstreams.
\<close>

record ('c, 'n) world =
  w_sel :: SelectorKind
  w_pools :: "string \<Rightarrow> ('c, 'n) sys option"
  w_reqs :: "phase list"

definition start_get :: "string \<Rightarrow> nat \<Rightarrow> (string \<Rightarrow> ('c, 'n) sys option) \<Rightarrow> string \<Rightarrow> ('c, 'n) sys option" where
  "start_get a t ps = (case ps a of None \<Rightarrow> ps | Some s \<Rightarrow> ps(a \<mapsto> s\<lparr>s_tasks := (s_tasks s)[t := GetPop]\<rparr>))"

text \<open>Where \<^verbatim>\<open>get\<close>, \<^verbatim>\<open>put\<close> and the exchange itself wait: the locks of \<^verbatim>\<open>idle\<close>, \<^verbatim>\<open>dial\<close>, \<^verbatim>\<open>notified()\<close>, the connection.\<close>

fun at_await :: "'c pc \<Rightarrow> bool" where
  "at_await GetPop = True"
| "at_await Dialing = True"
| "at_await Waiting = True"
| "at_await (Holding c) = True"
| "at_await (PutPush c) = True"
| "at_await _ = False"

text \<open>
  A dropped task stays at the point where it was dropped and never moves again; what dropping a
  waiting future does to the notifier is left open.
\<close>

inductive sstep :: "'n notify_api \<Rightarrow> ('c, 'n) world \<Rightarrow> ('c, 'n) world \<Rightarrow> bool" for nt where
  select: "\<lbrakk> t < length (w_reqs w); w_reqs w ! t = Arrived; rng_ok r; sel_next r (w_sel w) = (Ok (a, tok), sel) \<rbrakk> \<Longrightarrow>
    sstep nt w (w\<lparr>w_sel := sel, w_pools := start_get a t (w_pools w), w_reqs := (w_reqs w)[t := Forwarding a tok]\<rparr>)"
| pool: "\<lbrakk> t < length (w_reqs w); w_reqs w ! t = Forwarding a tok; w_pools w a = Some s; pmove nt t good c s = Some s' \<rbrakk> \<Longrightarrow>
    sstep nt w (w\<lparr>w_pools := (w_pools w)(a \<mapsto> s')\<rparr>)"
| finish: "\<lbrakk> t < length (w_reqs w); w_reqs w ! t = Forwarding a tok;
      case w_pools w a of None \<Rightarrow> True | Some s \<Rightarrow> s_tasks s ! t = Finished;
      sel_release tok (w_sel w) = (Ok (), sel) \<rbrakk> \<Longrightarrow>
    sstep nt w (w\<lparr>w_sel := sel, w_reqs := (w_reqs w)[t := Completed]\<rparr>)"
| read_stats: "sel_stats b (w_sel w) = (q, sel) \<Longrightarrow> sstep nt w (w\<lparr>w_sel := sel\<rparr>)"
| drop_dialled: "\<lbrakk> t < length (w_reqs w); w_reqs w ! t = Forwarding a tok; w_pools w a = None \<rbrakk> \<Longrightarrow>
    sstep nt w (w\<lparr>w_reqs := (w_reqs w)[t := Dropped a tok]\<rparr>)"
| drop_pooled: "\<lbrakk> t < length (w_reqs w); w_reqs w ! t = Forwarding a tok; w_pools w a = Some s;
      at_await (s_tasks s ! t); s_tasks s ! t = Waiting \<or> n = s_nt s \<rbrakk> \<Longrightarrow>
    sstep nt w (w\<lparr>w_pools := (w_pools w)(a \<mapsto> s\<lparr>s_nt := n\<rparr>), w_reqs := (w_reqs w)[t := Dropped a tok]\<rparr>)"

text \<open>A proxy that has just started: no connection, and \<open>k\<close> requests to come.\<close>

definition world_start :: "SelectorKind \<Rightarrow> (string \<Rightarrow> ('c, 'n) sys option) \<Rightarrow> nat \<Rightarrow> ('c, 'n) world" where
  "world_start sel ps k = \<lparr>w_sel = sel, w_pools = ps, w_reqs = replicate k Arrived\<rparr>"

definition dial_pools :: "string \<Rightarrow> ('c, 'n) sys option" where
  "dial_pools a = None"

definition fresh_pools :: "'n notify_api \<Rightarrow> string list \<Rightarrow> usize \<Rightarrow> nat \<Rightarrow> string \<Rightarrow> ('c, 'n) sys option" where
  "fresh_pools nt as m k a = (if a \<in> set as
     then Some \<lparr>s_max = m, s_idle = [], s_out = 0, s_nt = nt_new nt, s_tasks = replicate k Finished\<rparr> else None)"

section \<open>The invariant\<close>

text \<open>
  Three invariants: the tokens of requests inside \<^verbatim>\<open>forward\<close> are the ones that the selector's session
  has handed out; the token is the index of the request's upstream; a pool is only used by requests
  for its upstream, and its slots are accounted for.
\<close>

fun token_mset :: "phase \<Rightarrow> i32 multiset" where
  "token_mset (Forwarding a tok) = {#tok#}"
| "token_mset (Dropped a tok) = {#tok#}"
| "token_mset _ = {#}"

fun bound_for :: "string \<Rightarrow> phase \<Rightarrow> bool" where
  "bound_for a (Forwarding b tok) = (a = b)"
| "bound_for a (Dropped b tok) = (a = b)"
| "bound_for a _ = False"

text \<open>Where the task of a request may be in the pool of an upstream.\<close>

fun hosts :: "string \<Rightarrow> phase \<Rightarrow> 'c pc \<Rightarrow> bool" where
  "hosts a (Forwarding b tok) q = (a = b \<or> q = Finished)"
| "hosts a (Dropped b tok) q = (a = b \<and> at_await q \<or> q = Finished)"
| "hosts a _ q = (q = Finished)"

lemma hosts_bound: "hosts a p q \<Longrightarrow> q \<noteq> Finished \<Longrightarrow> bound_for a p"
  by (cases p) auto

lemma hosts_finished [simp]: "hosts a p Finished"
  by (cases p) auto

fun routed :: "string list \<Rightarrow> phase \<Rightarrow> bool" where
  "routed as (Forwarding a tok) = (\<exists>i < length as. a = as ! i \<and> tok = of_nat i)"
| "routed as (Dropped a tok) = (\<exists>i < length as. a = as ! i \<and> tok = of_nat i)"
| "routed as _ = True"

definition tokens :: "phase list \<Rightarrow> i32 multiset" where
  "tokens ps = (\<Sum>p\<leftarrow>ps. token_mset p)"

definition session_ok :: "string list \<Rightarrow> string \<Rightarrow> ('c, 'n) world \<Rightarrow> bool" where
  "session_ok as st w \<longleftrightarrow> (\<exists>H. sel_session (new_selector as st) (w_sel w) (tokens (w_reqs w)) H)"

definition pool_ok :: "phase list \<Rightarrow> string \<Rightarrow> ('c, 'n) sys \<Rightarrow> bool" where
  "pool_ok ps a s \<longleftrightarrow> sys_inv s \<and> length (s_tasks s) = length ps
     \<and> (\<forall>t < length ps. hosts a (ps ! t) (s_tasks s ! t))"

definition pools_ok :: "('c, 'n) world \<Rightarrow> bool" where
  "pools_ok w \<longleftrightarrow> (\<forall>a s. w_pools w a = Some s \<longrightarrow> pool_ok (w_reqs w) a s)"

lemma tokens_update:
  assumes "t < length ps"
  shows "tokens (ps[t := q]) + token_mset (ps ! t) = tokens ps + token_mset q"
proof -
  have "ps = take t ps @ ps ! t # drop (Suc t) ps" using assms by (rule id_take_nth_drop)
  then have "tokens ps = tokens (take t ps) + token_mset (ps ! t) + tokens (drop (Suc t) ps)"
    by (metis (no_types) tokens_def add.assoc list.simps(9) map_append sum_list.Cons sum_list_append)
  moreover have "tokens (ps[t := q]) = tokens (take t ps) + token_mset q + tokens (drop (Suc t) ps)"
    using assms by (simp add: tokens_def upd_conv_take_nth_drop)
  ultimately show ?thesis by simp
qed

lemma tokens_take: "t < length ps \<Longrightarrow> ps ! t = Arrived \<Longrightarrow> tokens (ps[t := Forwarding a tok]) = add_mset tok (tokens ps)"
  using tokens_update [of t ps "Forwarding a tok"] by simp

lemma tokens_give:
  assumes "t < length ps" and "ps ! t = Forwarding a tok"
  shows "tok \<in># tokens ps" and "tokens (ps[t := Completed]) = tokens ps - {#tok#}"
proof -
  have "tokens ps = add_mset tok (tokens (ps[t := Completed]))"
    using tokens_update [OF assms(1), of Completed] assms(2) by simp
  then show "tok \<in># tokens ps" and "tokens (ps[t := Completed]) = tokens ps - {#tok#}" by simp_all
qed

lemma tokens_drop: "t < length ps \<Longrightarrow> ps ! t = Forwarding a tok \<Longrightarrow> tokens (ps[t := Dropped a tok]) = tokens ps"
  using tokens_update [of t ps "Dropped a tok"] by simp

lemma sstep_session:
  assumes "sstep nt w w'" and "session_ok as st w"
  shows "session_ok as st w'"
proof -
  obtain H where H: "sel_session (new_selector as st) (w_sel w) (tokens (w_reqs w)) H"
    using assms(2) by (auto simp: session_ok_def)
  from assms(1) show ?thesis
  proof cases
    case (select t r a tok sel)
    then show ?thesis using sel_session.take_token [OF H select(4,5)]
      by (auto simp: session_ok_def tokens_take)
  next
    case (finish t a tok sel)
    then show ?thesis using sel_session.give_back [OF H tokens_give(1) finish(5)]
      by (auto simp: session_ok_def tokens_give(2))
  next
    case (read_stats b q sel)
    then show ?thesis using sel_session.snapshot [OF H read_stats(2)] by (auto simp: session_ok_def)
  qed (use H in \<open>auto simp: session_ok_def tokens_drop\<close>)
qed

lemma pmove_inv: "pmove nt t good c s = Some s' \<Longrightarrow> sys_inv s \<Longrightarrow> sys_inv s'"
  by (rule pstep_inv [OF pmove_sound])

lemma pmove_others: "pmove nt t good c s = Some s' \<Longrightarrow> \<exists>q. s_tasks s' = (s_tasks s)[t := q]"
  by (auto simp: pmove.simps split: if_splits pc.splits option.splits)

lemma pool_ok_update:
  assumes "pool_ok ps a s" and "t < length ps" and "hosts a q (s_tasks s ! t)"
  shows "pool_ok (ps[t := q]) a s"
  using assms by (auto simp: pool_ok_def nth_list_update)

lemma pool_ok_start:
  assumes "pool_ok ps a s" and "t < length ps" and "ps ! t = Arrived"
  shows "pool_ok (ps[t := Forwarding a tok]) a (s\<lparr>s_tasks := (s_tasks s)[t := GetPop]\<rparr>)"
proof -
  have "s_tasks s ! t = Finished" using assms by (auto simp: pool_ok_def)
  then have "sys_inv (s\<lparr>s_tasks := (s_tasks s)[t := GetPop]\<rparr>)"
    using assms inv_keep(2) [of s t Finished GetPop] by (simp add: pool_ok_def)
  then show ?thesis using assms by (auto simp: pool_ok_def nth_list_update)
qed

lemma pool_ok_move:
  assumes "pool_ok ps a s" and "ps ! t = Forwarding a tok" and "pmove nt t good c s = Some s'"
  shows "pool_ok ps a s'"
proof -
  obtain q where "s_tasks s' = (s_tasks s)[t := q]" using pmove_others [OF assms(3)] by blast
  then show ?thesis using assms(1,2) pmove_inv [OF assms(3)]
    by (simp add: pool_ok_def) (metis hosts.simps(1) nth_list_update_neq)
qed

lemma sys_inv_nt [simp]: "sys_inv (s\<lparr>s_nt := n\<rparr>) = sys_inv s"
  by (simp add: sys_inv_def slots_def overshoots_def)

lemma pool_ok_drop:
  assumes "pool_ok ps a s" and "t < length ps" and "at_await (s_tasks s ! t)"
  shows "pool_ok (ps[t := Dropped a tok]) a (s\<lparr>s_nt := n\<rparr>)"
  using pool_ok_update [OF assms(1,2), of "Dropped a tok"] assms(3) by (simp add: pool_ok_def)

lemma pool_ok_idle:
  assumes "pool_ok ps a s" and "t < length ps" and "\<not> bound_for a (ps ! t)"
  shows "s_tasks s ! t = Finished"
  using assms hosts_bound by (auto simp: pool_ok_def)

lemma sstep_pools:
  assumes "sstep nt w w'" and "pools_ok w"
  shows "pools_ok w'"
proof -
  note ok = assms(2) [unfolded pools_ok_def, rule_format]
  from assms(1) show ?thesis
  proof cases
    case (select t r a tok sel)
    have "pool_ok ((w_reqs w)[t := Forwarding a tok]) b s" if new: "start_get a t (w_pools w) b = Some s" for b s
    proof (cases "b = a")
      case True
      then obtain s0 where "w_pools w a = Some s0" and "s = s0\<lparr>s_tasks := (s_tasks s0)[t := GetPop]\<rparr>"
        using new by (auto simp: start_get_def split: option.splits)
      then show ?thesis using pool_ok_start [OF ok select(2,3)] True by simp
    next
      case False
      then have "w_pools w b = Some s" using new by (auto simp: start_get_def split: option.splits)
      then show ?thesis using pool_ok_update [OF ok select(2)] pool_ok_idle [OF ok select(2)] select(3) by simp
    qed
    then show ?thesis using select(1) by (simp add: pools_ok_def)
  next
    case (pool t a tok s good c s')
    then show ?thesis using ok pool_ok_move [OF ok [OF pool(4)] _ pool(5)] by (auto simp: pools_ok_def)
  next
    case (finish t a tok sel)
    have "pool_ok ((w_reqs w)[t := Completed]) b s" if "w_pools w b = Some s" for b s
      using that finish(3,4) pool_ok_idle [OF ok finish(2), of b s]
      by (intro pool_ok_update [OF ok finish(2)]) (cases "b = a"; auto)+
    then show ?thesis using finish(1) by (simp add: pools_ok_def)
  next
    case (drop_dialled t a tok)
    have "pool_ok ((w_reqs w)[t := Dropped a tok]) b s" if "w_pools w b = Some s" for b s
      using that drop_dialled(3,4) pool_ok_idle [OF ok drop_dialled(2), of b s]
      by (intro pool_ok_update [OF ok drop_dialled(2)]) (cases "b = a"; auto)+
    then show ?thesis using drop_dialled(1) by (simp add: pools_ok_def)
  next
    case (drop_pooled t a tok s n)
    have "pool_ok ((w_reqs w)[t := Dropped a tok]) b s'" if "b \<noteq> a" and "w_pools w b = Some s'" for b s'
      using that drop_pooled(3) pool_ok_idle [OF ok drop_pooled(2), of b s']
      by (intro pool_ok_update [OF ok drop_pooled(2)]) auto
    then show ?thesis using drop_pooled(1) pool_ok_drop [OF ok [OF drop_pooled(4)] drop_pooled(2,5)] by (auto simp: pools_ok_def)
  qed (use ok in \<open>auto simp: pools_ok_def\<close>)
qed

lemma session_next_routed:
  assumes "sel_session (new_selector as st) s M H" and "has_stats (new_selector as st)" and "length as \<le> 2 ^ 31"
    and "rng_ok r" and "sel_next r s = (Ok (a, tok), s')"
  shows "\<exists>i < length as. a = as ! i \<and> tok = of_nat i"
proof -
  obtain c where c: "counters_of s = Some c" "accounts c M H" "c_addrs c = as"
    using sel_session_inv [OF assms(1) new_selector_counters [OF assms(2)] counters_new_accounts [OF assms(3)]]
    by (auto simp: counters_new_def)
  have "sel_need s \<le> length (c_addrs c)"
    using sel_next_too_few [OF c(1), of r] c(2) assms(5)
    by (metis accounts_def fst_conv not_le outcome.distinct(3))
  from sel_next_accounts [OF c(1,2) assms(4) this] show ?thesis using assms(5) c(3) by auto
qed

lemma sstep_routed:
  assumes "sstep nt w w'" and "session_ok as st w" and "has_stats (new_selector as st)" and "length as \<le> 2 ^ 31"
    and "list_all (routed as) (w_reqs w)"
  shows "list_all (routed as) (w_reqs w')"
proof -
  have upd: "list_all (routed as) ((w_reqs w)[t := q])" if "routed as q" for t q
    using that assms(5) set_update_subset_insert [of "w_reqs w" t q] by (auto simp: list_all_iff)
  have old: "routed as (w_reqs w ! t)" if "t < length (w_reqs w)" for t
    using that assms(5) by (simp add: list_all_length)
  from assms(1) show ?thesis
  proof cases
    case (select t r a tok sel)
    obtain H where H: "sel_session (new_selector as st) (w_sel w) (tokens (w_reqs w)) H"
      using assms(2) by (auto simp: session_ok_def)
    show ?thesis using session_next_routed [OF H assms(3,4) select(4,5)] upd select(1) by simp
  next
    case (drop_dialled t a tok)
    then show ?thesis using old [of t] upd [of "Dropped a tok"] by simp
  next
    case (drop_pooled t a tok s n)
    then show ?thesis using old [of t] upd [of "Dropped a tok"] by simp
  qed (use assms(5) upd [of Completed] in simp_all)
qed

section \<open>Reachable states\<close>

definition starts_fresh :: "'n notify_api \<Rightarrow> string list \<Rightarrow> usize \<Rightarrow> nat \<Rightarrow> (string \<Rightarrow> ('c, 'n) sys option) \<Rightarrow> bool" where
  "starts_fresh nt as m k ps \<longleftrightarrow> ps = dial_pools \<or> ps = fresh_pools nt as m k \<and> unat m + k \<le> usize_max"

definition pools_max :: "usize \<Rightarrow> ('c, 'n) world \<Rightarrow> bool" where
  "pools_max m w \<longleftrightarrow> (\<forall>a s. w_pools w a = Some s \<longrightarrow> s_max s = m)"

lemma pools_ok_start: "starts_fresh nt as m k ps \<Longrightarrow> pools_ok (world_start sel ps k)"
  by (auto simp: starts_fresh_def pools_ok_def pool_ok_def world_start_def dial_pools_def fresh_pools_def sys_inv_def
      slots_def overshoots_def filter_replicate split: if_splits)

lemma session_ok_start: "session_ok as st (world_start (new_selector as st) ps k)"
proof -
  have "tokens (replicate k Arrived) = {#}" by (induction k) (simp_all add: tokens_def)
  then show ?thesis using sel_session.fresh by (auto simp: session_ok_def world_start_def)
qed

lemma sstep_frame: "sstep nt w w' \<Longrightarrow> length (w_reqs w') = length (w_reqs w) \<and> (pools_max m w \<longrightarrow> pools_max m w')"
proof (induction rule: sstep.induct)
  case (pool t w a tok s good c s')
  then show ?case using pstep_frame [OF pmove_sound] by (fastforce simp: pools_max_def)
qed (auto simp: pools_max_def start_get_def split: option.splits if_splits)

lemma world_reach:
  assumes "(sstep nt)\<^sup>*\<^sup>* (world_start (new_selector as st) ps k) w" and "starts_fresh nt as m k ps"
  shows "session_ok as st w" and "pools_ok w" and "pools_max m w" and "length (w_reqs w) = k"
    and "has_stats (new_selector as st) \<Longrightarrow> length as \<le> 2 ^ 31 \<Longrightarrow> list_all (routed as) (w_reqs w)"
proof -
  have "session_ok as st w \<and> pools_ok w \<and> pools_max m w \<and> length (w_reqs w) = k
    \<and> (has_stats (new_selector as st) \<longrightarrow> length as \<le> 2 ^ 31 \<longrightarrow> list_all (routed as) (w_reqs w))"
    using assms(1)
  proof (induction rule: rtranclp_induct)
    case base
    have "pools_max m (world_start (new_selector as st) ps k)"
      using assms(2) by (auto simp: pools_max_def starts_fresh_def world_start_def dial_pools_def fresh_pools_def split: if_splits)
    then show ?case using session_ok_start pools_ok_start [OF assms(2)]
      by (simp add: world_start_def list_all_length)
  next
    case (step w1 w2)
    have "session_ok as st w2" and "pools_ok w2" using step sstep_session sstep_pools by blast+
    moreover have "length (w_reqs w2) = k" and "pools_max m w2" using step sstep_frame [OF step.hyps(2), of m] by simp_all
    moreover have "has_stats (new_selector as st) \<longrightarrow> length as \<le> 2 ^ 31 \<longrightarrow> list_all (routed as) (w_reqs w2)"
      using step.IH sstep_routed [OF step.hyps(2), of as st] by blast
    ultimately show ?case by blast
  qed
  then show "session_ok as st w" and "pools_ok w" and "pools_max m w" and "length (w_reqs w) = k"
    and "has_stats (new_selector as st) \<Longrightarrow> length as \<le> 2 ^ 31 \<Longrightarrow> list_all (routed as) (w_reqs w)" by blast+
qed

section \<open>Counting requests and slots\<close>

lemma count_tokens:
  assumes "list_all (routed as) ps" and "distinct as" and "length as \<le> 2 ^ 31" and "i < length as"
  shows "count (tokens ps) (of_nat i) = length (filter (bound_for (as ! i)) ps)"
  using assms(1)
proof (induction ps)
  case (Cons p ps)
  have same: "(of_nat j :: i32) = of_nat i \<longleftrightarrow> as ! i = as ! j" if "j < length as" for j
    using that assms(2-4) of_nat_i32_inj [of j i] by (auto simp: nth_eq_iff_index_eq)
  have "count (token_mset p) (of_nat i) = of_bool (bound_for (as ! i) p)"
    using Cons.prems same by (cases p) auto
  then show ?case using Cons by (simp add: tokens_def)
qed (simp add: tokens_def)

lemma length_filter_le_pointwise:
  assumes "length xs = length ys" and "\<And>i. i < length xs \<Longrightarrow> P (xs ! i) \<Longrightarrow> Q (ys ! i)"
  shows "length (filter P xs) \<le> length (filter Q ys)"
proof -
  have "{i. i < length xs \<and> P (xs ! i)} \<subseteq> {i. i < length ys \<and> Q (ys ! i)}" using assms by auto
  then have "card {i. i < length xs \<and> P (xs ! i)} \<le> card {i. i < length ys \<and> Q (ys ! i)}" by (intro card_mono) auto
  then show ?thesis by (simp add: length_filter_conv_card)
qed

lemma owners_bound:
  assumes "pool_ok ps a s"
  shows "length (filter owns_slot (s_tasks s)) \<le> length (filter (bound_for a) ps)"
proof (rule length_filter_le_pointwise)
  fix t
  assume "t < length (s_tasks s)" and "owns_slot (s_tasks s ! t)"
  then show "bound_for a (ps ! t)" using assms by (auto simp: pool_ok_def intro: hosts_bound)
qed (use assms in \<open>simp add: pool_ok_def\<close>)

lemma settled_no_overshoot:
  assumes "pool_ok ps a s" and "\<forall>p \<in> set ps. p = Completed \<or> (\<exists>b tok. p = Dropped b tok)"
  shows "filter overshoot (s_tasks s) = []"
proof -
  have "\<not> overshoot (s_tasks s ! t)" if "t < length ps" for t
  proof -
    have "hosts a (ps ! t) (s_tasks s ! t)" and "ps ! t = Completed \<or> (\<exists>b tok. ps ! t = Dropped b tok)"
      using that assms by (auto simp: pool_ok_def)
    then have "s_tasks s ! t = Finished \<or> at_await (s_tasks s ! t)" by auto
    then show ?thesis by (cases "s_tasks s ! t") auto
  qed
  then show ?thesis using assms(1) by (auto simp: pool_ok_def filter_empty_conv in_set_conv_nth)
qed

lemma world_snapshot:
  assumes "(sstep nt)\<^sup>*\<^sup>* (world_start (new_selector as st) ps k) w" and "starts_fresh nt as m k ps"
    and "has_stats (new_selector as st)" and "length as \<le> 2 ^ 31" and "distinct as"
  shows "\<exists>H :: i32 multiset. fst (sel_stats b (w_sel w)) = Ok (Some (map (\<lambda>i.
     \<lparr>st_addr = as ! i, st_total = of_nat (count H (of_nat i)),
      st_inflight = of_nat (length (filter (bound_for (as ! i)) (w_reqs w)))\<rparr>) [0..<length as]))"
proof -
  note reach = world_reach [OF assms(1,2)]
  obtain H where H: "sel_session (new_selector as st) (w_sel w) (tokens (w_reqs w)) H"
    using reach(1) by (auto simp: session_ok_def)
  have "has_stats (w_sel w)"
    using sel_session_inv [OF H new_selector_counters [OF assms(3)] counters_new_accounts [OF assms(4)]]
    by (auto simp: has_stats_counters)
  from session_snapshot [OF H this assms(4), of b] show ?thesis
    using count_tokens [OF reach(5) [OF assms(3,4)] assms(5,4)] by (intro exI [of _ H]) simp
qed

section \<open>Handlers are runs of the concurrent service\<close>

text \<open>
  A handler of the sequential model, with its request as task \<open>t\<close>, sees the pools as the concurrent
  model has them, whatever the other tasks are doing there.
\<close>

definition pools_of :: "'n ForwarderKind \<Rightarrow> (string \<Rightarrow> tcp pc list) \<Rightarrow> string \<Rightarrow> (tcp, 'n) sys option" where
  "pools_of f ts = (\<lambda>a. case f of DialF \<Rightarrow> None | PoolF m \<Rightarrow> map_option (\<lambda>p. sys_of p (ts a)) (manager_pool m a))"

definition world_of :: "SelectorKind \<Rightarrow> 'n ForwarderKind \<Rightarrow> (string \<Rightarrow> tcp pc list) \<Rightarrow> phase list \<Rightarrow> (tcp, 'n) world" where
  "world_of sel f ts ps = \<lparr>w_sel = sel, w_pools = pools_of f ts, w_reqs = ps\<rparr>"

lemma start_get_pools: "start_get a t (pools_of f ts) = pools_of f (ts(a := (ts a)[t := GetPop]))"
  by (rule ext) (auto simp: start_get_def pools_of_def sys_of_def split: ForwarderKind.splits option.splits)

lemma pool_moves_lift:
  assumes "(tmove nt t)\<^sup>*\<^sup>* s s'" and "t < length (w_reqs w)" and "w_reqs w ! t = Forwarding a tok" and "w_pools w a = Some s"
  shows "(sstep nt)\<^sup>*\<^sup>* w (w\<lparr>w_pools := (w_pools w)(a \<mapsto> s')\<rparr>)"
  using assms(1)
proof (induction rule: rtranclp_induct)
  case base
  have "(w_pools w)(a \<mapsto> s) = w_pools w" using assms(4) by (simp add: map_upd_triv)
  then show ?case by simp
next
  case (step s1 s2)
  obtain good c where mv: "pmove nt t good c s1 = Some s2" using step.hyps(2) tmove_def [of nt t s1 s2] by blast
  let ?w = "w\<lparr>w_pools := (w_pools w)(a \<mapsto> s1)\<rparr>"
  have "sstep nt ?w (w\<lparr>w_pools := (w_pools w)(a \<mapsto> s2)\<rparr>)"
    using sstep.pool [of t ?w a tok s1, OF _ _ _ mv] assms(2,3) by simp
  with step.IH show ?case by (rule rtranclp.rtrancl_into_rtrancl)
qed

text \<open>The forwarding part: from the start of \<^verbatim>\<open>get\<close> to the end of \<^verbatim>\<open>put\<close>.\<close>

lemma forwarder_is_run:
  assumes "forwarder_forward rt a req f = (q, f')" and "returned q" and "rt_task rt = t"
    and "t < length ps" and "ps ! t = Forwarding a tok" and "length (ts a) = length ps" and "ts a ! t = Finished"
  shows "(sstep (rt_notify rt))\<^sup>*\<^sup>* (world_of sel f (ts(a := (ts a)[t := GetPop])) ps) (world_of sel f' ts ps)"
proof (cases "pools_of f ts a")
  case None
  then have "f' = f" and "pools_of f (ts(a := (ts a)[t := GetPop])) = pools_of f ts"
    using assms(1) by (auto simp: pools_of_def fun_eq_iff split: ForwarderKind.splits option.splits)
  then show ?thesis by (simp add: world_of_def)
next
  case (Some s)
  let ?ts = "(ts a)[t := GetPop]"
  obtain m p where f: "f = PoolF m" "manager_pool m a = Some p"
    using Some by (auto simp: pools_of_def split: ForwarderKind.splits)
  obtain p' where p': "forward_pooled rt p req = (q, p')" "f' = PoolF (m\<lparr>m_pools := (m_pools m)(a \<mapsto> p')\<rparr>)"
    using assms(1) f by (auto split: prod.splits)
  have "(tmove (rt_notify rt) t)\<^sup>*\<^sup>* (sys_of p ?ts) (sys_of p' (?ts[t := Finished]))"
    using pooled_request_moves [of t ?ts rt p req] assms(2-4,6) p' by simp
  moreover have "?ts[t := Finished] = ts a" using assms(7) list_update_id [of "ts a" t] by simp
  ultimately have mv: "(tmove (rt_notify rt) t)\<^sup>*\<^sup>* (sys_of p ?ts) (sys_of p' (ts a))" by simp
  let ?w = "world_of sel f (ts(a := ?ts)) ps"
  have "(sstep (rt_notify rt))\<^sup>*\<^sup>* ?w (?w\<lparr>w_pools := (w_pools ?w)(a \<mapsto> sys_of p' (ts a))\<rparr>)"
    by (rule pool_moves_lift [OF mv]) (use assms(4,5) f in \<open>simp_all add: world_of_def pools_of_def\<close>)
  moreover have "(pools_of f (ts(a := ?ts)))(a \<mapsto> sys_of p' (ts a)) = pools_of f' ts"
    using f p' by (auto simp: pools_of_def fun_eq_iff manager_pool_def)
  ultimately show ?thesis by (simp add: world_of_def)
qed

lemma exchange_is_run:
  assumes "exchange rt mk s f = (r, s', f')" and "returned r" and "rng_ok (rt_rng rt)" and "rt_task rt = t"
    and "t < length ps" and "ps ! t = Arrived" and "\<And>a. length (ts a) = length ps" and "\<And>a. ts a ! t = Finished"
  shows "(sstep (rt_notify rt))\<^sup>*\<^sup>* (world_of s f ts ps) (world_of s' f' ts (ps[t := Completed]))"
  using assms(1)
proof (rule exchange_cases)
  fix a tok s1 q u
  assume nxt: "sel_next (rt_rng rt) s = (Ok (a, tok), s1)" and fw: "forwarder_forward rt a (mk a) f = (q, f')"
    and ret: "returned q" and rel: "sel_release tok s1 = (u, s')" and pan: "u \<noteq> Ok () \<Longrightarrow> r = Panic"
  let ?ps = "ps[t := Forwarding a tok]"
  have u: "u = Ok ()" using pan assms(2) by (cases "u = Ok ()") simp_all
  have "sstep (rt_notify rt) (world_of s f ts ps) (world_of s1 f (ts(a := (ts a)[t := GetPop])) ?ps)"
    using sstep.select [of t "world_of s f ts ps" "rt_rng rt" a tok s1] nxt assms(3,5,6)
    by (simp add: world_of_def start_get_pools)
  moreover have "(sstep (rt_notify rt))\<^sup>*\<^sup>* (world_of s1 f (ts(a := (ts a)[t := GetPop])) ?ps) (world_of s1 f' ts ?ps)"
    by (rule forwarder_is_run [OF fw ret assms(4)]) (use assms(5,7,8) in simp_all)
  moreover have "sstep (rt_notify rt) (world_of s1 f' ts ?ps) (world_of s' f' ts (ps[t := Completed]))"
    using sstep.finish [of t "world_of s1 f' ts ?ps" a tok s'] rel u assms(5,8)
    by (simp add: world_of_def pools_of_def sys_of_def split: ForwarderKind.splits option.splits)
  ultimately show ?thesis by (meson converse_rtranclp_into_rtranclp rtranclp.rtrancl_into_rtrancl)
qed (use assms(2) in auto)

text \<open>
  The same for a handler of any front end: it runs its request to completion, or could not read it
  and leaves the shared state alone.
\<close>

context frontend
begin

lemma is_run:
  assumes "run rt i s f = (r, s', f')" and "ended r" and "rng_ok (rt_rng rt)" and "rt_task rt = t"
    and "t < length ps" and "ps ! t = Arrived" and "\<And>a. length (ts a) = length ps" and "\<And>a. ts a ! t = Finished"
  shows "s' = s \<and> f' = f \<or> (sstep (rt_notify rt))\<^sup>*\<^sup>* (world_of s f ts ps) (world_of s' f' ts (ps[t := Completed]))"
  using shape [OF assms(1)] exchange_is_run [OF _ _ assms(3-6), where ts = ts] assms(2,7,8) by blast

end

section \<open>Properties\<close>

text \<open>One request to the first of two upstreams, as it starts, and after its future was dropped.\<close>

abbreviation example_as :: "string list" where "example_as \<equiv> [''a'', ''b'']"

abbreviation example_start :: "(nat, bool \<times> nat list) world" where
  "example_start \<equiv> world_start (new_selector example_as LB_ROUND_ROBIN) (fresh_pools fifo_notify example_as 1 1) 1"

lemma example_fresh: "starts_fresh fifo_notify example_as 1 1 (fresh_pools fifo_notify example_as 1 1)"
  by (simp add: starts_fresh_def usize_max_def)

lemma example_selected:
  "\<exists>sel. (sstep fifo_notify)\<^sup>*\<^sup>* example_start
     \<lparr>w_sel = sel, w_pools = start_get ''a'' 0 (fresh_pools fifo_notify example_as 1 1), w_reqs = [Forwarding ''a'' 0]\<rparr>"
proof -
  let ?r = "(\<lambda>_ _. 0) :: rng"
  obtain sel where "sel_next ?r (new_selector example_as LB_ROUND_ROBIN) = (Ok (''a'', 0), sel)"
    by (simp add: sel_simps crr_next_def pick_def Let_def)
  then have "sstep fifo_notify example_start
     \<lparr>w_sel = sel, w_pools = start_get ''a'' 0 (fresh_pools fifo_notify example_as 1 1), w_reqs = [Forwarding ''a'' 0]\<rparr>"
    using sstep.select [of 0 example_start ?r "''a''" 0 sel] by (simp add: world_start_def rng_ok_def)
  then show ?thesis by blast
qed

lemma example_dropped:
  "\<exists>sel ps. (sstep fifo_notify)\<^sup>*\<^sup>* example_start \<lparr>w_sel = sel, w_pools = ps, w_reqs = [Dropped ''a'' 0]\<rparr>"
proof -
  obtain sel where run: "(sstep fifo_notify)\<^sup>*\<^sup>* example_start
     \<lparr>w_sel = sel, w_pools = start_get ''a'' 0 (fresh_pools fifo_notify example_as 1 1), w_reqs = [Forwarding ''a'' 0]\<rparr>"
    using example_selected by blast
  let ?s = "\<lparr>s_max = 1, s_idle = [], s_out = 0, s_nt = nt_new fifo_notify, s_tasks = [GetPop]\<rparr> :: (nat, bool \<times> nat list) sys"
  let ?w = "\<lparr>w_sel = sel, w_pools = start_get ''a'' 0 (fresh_pools fifo_notify example_as 1 1), w_reqs = [Forwarding ''a'' 0]\<rparr>
    :: (nat, bool \<times> nat list) world"
  have "start_get ''a'' 0 (fresh_pools fifo_notify example_as 1 1) ''a'' = Some ?s"
    by (simp add: start_get_def fresh_pools_def)
  then have "sstep fifo_notify ?w \<lparr>w_sel = sel, w_pools = (w_pools ?w)(''a'' \<mapsto> ?s), w_reqs = [Dropped ''a'' 0]\<rparr>"
    using sstep.drop_pooled [of 0 ?w "''a''" 0 ?s "s_nt ?s" fifo_notify] by simp
  with run show ?thesis by (intro exI) (rule rtranclp.rtrancl_into_rtrancl)
qed

text \<open>C1: The statistics tell the truth about a proxy under load: however many requests run through the
  selector and the pools at once, are dropped, or complete, a snapshot shows for every upstream
  exactly the number of requests that are being forwarded to it or were dropped there; no more
  connections to it are in use or being dialled than that, and together with the idle ones they
  stay within the pool's maximum.\<close>

theorem service_accounts:
  assumes "(sstep nt)\<^sup>*\<^sup>* (world_start (new_selector as st) ps k) w" and "starts_fresh nt as m k ps"
    and "has_stats (new_selector as st)" and "length as \<le> 2 ^ 31" and "distinct as" and "i < length as"
  shows "\<exists>xs. fst (sel_stats b (w_sel w)) = Ok (Some xs) \<and> map st_addr xs = as
    \<and> st_inflight (xs ! i) = of_nat (length (filter (bound_for (as ! i)) (w_reqs w)))
    \<and> (\<forall>s. w_pools w (as ! i) = Some s \<longrightarrow>
         length (filter owns_slot (s_tasks s)) \<le> length (filter (bound_for (as ! i)) (w_reqs w))
         \<and> length (s_idle s) + length (filter owns_slot (s_tasks s)) \<le> unat m)"
proof -
  note reach = world_reach [OF assms(1,2)]
  have "length (filter owns_slot (s_tasks s)) \<le> length (filter (bound_for (as ! i)) (w_reqs w))
      \<and> length (s_idle s) + length (filter owns_slot (s_tasks s)) \<le> unat m" if "w_pools w (as ! i) = Some s" for s
  proof -
    have ok: "pool_ok (w_reqs w) (as ! i) s" and mx: "s_max s = m"
      using reach(2,3) that by (auto simp: pools_ok_def pools_max_def)
    then show ?thesis using owners_bound [OF ok] by (auto simp: pool_ok_def sys_inv_def slots_def)
  qed
  moreover obtain H :: "i32 multiset" where "fst (sel_stats b (w_sel w)) = Ok (Some (map (\<lambda>i.
     \<lparr>st_addr = as ! i, st_total = of_nat (count H (of_nat i)),
      st_inflight = of_nat (length (filter (bound_for (as ! i)) (w_reqs w)))\<rparr>) [0..<length as]))"
    using world_snapshot [OF assms(1-5)] by blast
  ultimately show ?thesis using assms(6) by (simp add: comp_def map_nth)
qed

theorem service_accounts_witness:
  "\<exists>(w :: (nat, bool \<times> nat list) world) xs. w_reqs w = [Forwarding ''a'' 0] \<and> w_pools w ''a'' \<noteq> None
    \<and> fst (sel_stats False (w_sel w)) = Ok (Some xs) \<and> map st_addr xs = [''a'', ''b''] \<and> st_inflight (xs ! 0) = 1
    \<and> (\<forall>s. w_pools w ''a'' = Some s \<longrightarrow> length (s_idle s) + length (filter owns_slot (s_tasks s)) \<le> 1)"
proof -
  obtain sel where run: "(sstep fifo_notify)\<^sup>*\<^sup>* example_start
     \<lparr>w_sel = sel, w_pools = start_get ''a'' 0 (fresh_pools fifo_notify example_as 1 1), w_reqs = [Forwarding ''a'' 0]\<rparr>"
    using example_selected by blast
  have "has_stats (new_selector example_as LB_ROUND_ROBIN)" by (simp add: sel_simps)
  from service_accounts [OF run example_fresh this, of 0 False] show ?thesis
    by (intro exI [of _ "\<lparr>w_sel = sel, w_pools = start_get ''a'' 0 (fresh_pools fifo_notify example_as 1 1), w_reqs = [Forwarding ''a'' 0]\<rparr>"])
       (auto simp: start_get_def fresh_pools_def)
qed

text \<open>C13: What is left when the load is gone: once every request has completed or was dropped, the
  in-flight count of each upstream is exactly the number of requests dropped there, and the
  outstanding connections of its pool are the idle ones and at most one for each of these. If none
  was dropped, nothing is in flight and nothing is outstanding but idle connections.\<close>

theorem service_settles:
  assumes "(sstep nt)\<^sup>*\<^sup>* (world_start (new_selector as st) ps k) w" and "starts_fresh nt as m k ps"
    and "has_stats (new_selector as st)" and "length as \<le> 2 ^ 31" and "distinct as" and "i < length as"
    and "\<forall>p \<in> set (w_reqs w). p = Completed \<or> (\<exists>a tok. p = Dropped a tok)"
  shows "\<exists>xs d. fst (sel_stats b (w_sel w)) = Ok (Some xs) \<and> st_inflight (xs ! i) = of_nat d
    \<and> d = length (filter (\<lambda>p. \<exists>tok. p = Dropped (as ! i) tok) (w_reqs w))
    \<and> (\<forall>s. w_pools w (as ! i) = Some s \<longrightarrow> length (s_idle s) \<le> unat (s_out s) \<and> unat (s_out s) \<le> length (s_idle s) + d)"
proof -
  let ?d = "length (filter (\<lambda>p. \<exists>tok. p = Dropped (as ! i) tok) (w_reqs w))"
  have "bound_for (as ! i) p = (\<exists>tok. p = Dropped (as ! i) tok)" if "p \<in> set (w_reqs w)" for p
    using that assms(7) by auto
  then have d: "filter (bound_for (as ! i)) (w_reqs w) = filter (\<lambda>p. \<exists>tok. p = Dropped (as ! i) tok) (w_reqs w)"
    by (rule filter_cong [OF refl])
  have "length (s_idle s) \<le> unat (s_out s) \<and> unat (s_out s) \<le> length (s_idle s) + ?d"
    if "w_pools w (as ! i) = Some s" for s
  proof -
    have ok: "pool_ok (w_reqs w) (as ! i) s"
      using world_reach(2) [OF assms(1,2)] that by (auto simp: pools_ok_def)
    then show ?thesis using owners_bound [OF ok] settled_no_overshoot [OF ok assms(7)]
      by (auto simp: pool_ok_def sys_inv_def slots_def overshoots_def d)
  qed
  moreover obtain H :: "i32 multiset" where "fst (sel_stats b (w_sel w)) = Ok (Some (map (\<lambda>i.
     \<lparr>st_addr = as ! i, st_total = of_nat (count H (of_nat i)),
      st_inflight = of_nat (length (filter (bound_for (as ! i)) (w_reqs w)))\<rparr>) [0..<length as]))"
    using world_snapshot [OF assms(1-5)] by blast
  ultimately show ?thesis using assms(6) d by auto
qed

theorem service_settles_witness:
  "\<exists>(w :: (nat, bool \<times> nat list) world) xs. w_reqs w = [Dropped ''a'' 0]
    \<and> fst (sel_stats False (w_sel w)) = Ok (Some xs) \<and> st_inflight (xs ! 0) = 1"
proof -
  obtain sel ps where run: "(sstep fifo_notify)\<^sup>*\<^sup>* example_start \<lparr>w_sel = sel, w_pools = ps, w_reqs = [Dropped ''a'' 0]\<rparr>"
    using example_dropped by blast
  have "has_stats (new_selector example_as LB_ROUND_ROBIN)" by (simp add: sel_simps)
  from service_settles [OF run example_fresh this, of 0 False] show ?thesis
    by (intro exI [of _ "\<lparr>w_sel = sel, w_pools = ps, w_reqs = [Dropped ''a'' 0]\<rparr>"]) auto
qed

end
