(* ===== verification/Balancer_Ties.thy ===== *)
theory Balancer_Ties
  imports Balancer
begin

text \<open>
  How \<^verbatim>\<open>LeastConn::next\<close> breaks ties: among upstreams with equal load the scan keeps a new candidate
  with probability one over the number of ties seen so far. Over all answers that the generator can
  give to the draws that the code makes, each of the least loaded upstreams is chosen equally often.
\<close>

section \<open>Independent draws\<close>

text \<open>
  All the ways in which \<^verbatim>\<open>random_range(0..m)\<close> can answer draw number \<open>k\<close>, for all draws with \<open>k < n\<close> and all
  ranges with \<open>m \<le> n\<close>: every answer below \<open>m\<close> is possible, and the answers do not depend on each
  other. Which of them are asked for is up to the code.
\<close>

definition draws :: "nat \<Rightarrow> rng set" where
  "draws n = {r. \<forall>k m. if k < n \<and> 0 < m \<and> m \<le> n then r k m < m else r k m = 0}"

definition answer :: "nat \<Rightarrow> nat \<Rightarrow> nat \<Rightarrow> rng \<Rightarrow> rng" where
  "answer k m v r = r(k := (r k)(m := v))"

lemma draws_below: "r \<in> draws n \<Longrightarrow> k < n \<Longrightarrow> 0 < m \<Longrightarrow> m \<le> n \<Longrightarrow> r k m < m"
  unfolding draws_def by auto

lemma draws_answer: "r \<in> draws n \<Longrightarrow> k < n \<Longrightarrow> v < m \<Longrightarrow> m \<le> n \<Longrightarrow> answer k m v r \<in> draws n"
  unfolding draws_def answer_def by auto

lemma finite_draws: "finite (draws n)"
proof -
  let ?rows = "{g. \<forall>m. (m \<in> {..n} \<longrightarrow> g m \<in> {..n}) \<and> (m \<notin> {..n} \<longrightarrow> g m = (0 :: nat))}"
  let ?all = "{r. \<forall>k. (k \<in> {..<n} \<longrightarrow> r k \<in> ?rows) \<and> (k \<notin> {..<n} \<longrightarrow> r k = (\<lambda>_. 0))}"
  have "finite ?rows" by (intro finite_set_of_finite_funs) simp_all
  then have "finite ?all" by (intro finite_set_of_finite_funs) simp_all
  moreover have "draws n \<subseteq> ?all"
  proof
    fix r
    assume r: "r \<in> draws n"
    have "r k m \<le> n \<and> (n < m \<longrightarrow> r k m = 0) \<and> (n \<le> k \<longrightarrow> r k m = 0)" for k m
    proof (cases "k < n \<and> 0 < m \<and> m \<le> n")
      case True
      then show ?thesis using draws_below [OF r, of k m] by simp
    next
      case False
      then have "r k m = 0" using r unfolding draws_def by (simp split: if_splits)
      then show ?thesis by simp
    qed
    then show "r \<in> ?all" by auto
  qed
  ultimately show ?thesis by (rule finite_subset [rotated])
qed

lemma draws_nonempty: "0 < card (draws n)"
proof -
  have "(\<lambda>_ _. 0) \<in> draws n" unfolding draws_def by simp
  then show ?thesis using finite_draws card_gt_0_iff by blast
qed

text \<open>A draw from \<open>m\<close> numbers that an event does not depend on has each answer in one \<open>m\<close>-th of the cases.\<close>

lemma independent_draw:
  assumes "\<And>r v. P (answer k m v r) \<longleftrightarrow> P r" and "k < n" and "v < m" and "m \<le> n"
  shows "m * card {r \<in> draws n. P r \<and> r k m = v} = card {r \<in> draws n. P r}"
proof -
  let ?A = "\<lambda>u. {r \<in> draws n. P r \<and> r k m = u}"
  have "{r \<in> draws n. P r} = (\<Union>u \<in> {..<m}. ?A u)" using draws_below assms(2-4) by fastforce
  then have "card {r \<in> draws n. P r} = (\<Sum>u \<in> {..<m}. card (?A u))"
    by (simp, intro card_UN_disjoint) (auto simp: finite_draws)
  moreover have "card (?A u) = card (?A v)" if "u < m" for u
  proof (rule bij_betw_same_card [of "answer k m v"])
    have same: "answer k m (r k m) r = r" "answer k m w (answer k m w' r) = answer k m w r" "answer k m w r k m = w" for w w' r
      by (simp_all add: answer_def)
    show "bij_betw (answer k m v) (?A u) (?A v)"
      by (rule bij_betw_byWitness [where f' = "answer k m u"])
         (use assms that draws_answer same in \<open>auto simp: same\<close>)
  qed
  ultimately show ?thesis by simp
qed

section \<open>The scan\<close>

text \<open>The loop variables \<^verbatim>\<open>best\<close>, \<^verbatim>\<open>best_load\<close> and \<^verbatim>\<open>ties\<close> before the iteration for upstream \<open>k\<close>.\<close>

fun scan_upto :: "rng \<Rightarrow> i64 list \<Rightarrow> nat \<Rightarrow> nat \<times> i64 \<times> nat" where
  "scan_upto r infl 0 = (0, infl ! 0, 1)"
| "scan_upto r infl (Suc k) =
     (if k = 0 then (0, infl ! 0, 1)
      else case scan_upto r infl k of (best, load, ties) \<Rightarrow>
        if sint (infl ! k) < sint load then (k, infl ! k, 1)
        else if infl ! k = load then (if r k (ties + 1) = 0 then k else best, load, ties + 1)
        else (best, load, ties))"

lemma lc_scan_upto:
  assumes "n \<le> length infl" and "0 < k" and "k \<le> n" and "scan_upto r infl k = (best, load, ties)"
  shows "lc_scan r infl [1..<n] 0 (infl ! 0) 1 = lc_scan r infl [k..<n] best load ties"
  using assms(2-4)
proof (induction k arbitrary: best load ties rule: nat_induct_non_zero)
  case (Suc k)
  obtain b l t where at: "scan_upto r infl k = (b, l, t)" by (metis prod_cases3)
  have "lc_scan r infl [1..<n] 0 (infl ! 0) 1 = lc_scan r infl [k..<n] b l t" using Suc at by simp
  also have "[k..<n] = k # [Suc k..<n]" using Suc.prems by (simp add: upt_conv_Cons)
  finally show ?case using Suc.prems Suc.hyps at assms(1) by (auto simp: Let_def split: if_splits)
qed simp

text \<open>The load and the number of ties do not depend on the draws; the candidate depends on earlier draws only.\<close>

definition scan_best :: "i64 list \<Rightarrow> nat \<Rightarrow> rng \<Rightarrow> nat" where
  "scan_best infl k r = fst (scan_upto r infl k)"

lemma scan_upto_answer: "k \<le> k' \<Longrightarrow> scan_upto (answer k' m v r) infl k = scan_upto r infl k"
  by (induction k) (auto simp: answer_def split: prod.splits)

definition least :: "i64 list \<Rightarrow> nat \<Rightarrow> i64 \<Rightarrow> bool" where
  "least infl k l \<longleftrightarrow> (\<exists>i < k. infl ! i = l) \<and> (\<forall>i < k. sint l \<le> sint (infl ! i))"

text \<open>After \<open>k\<close> upstreams the candidate is one of the least loaded so far, each of them equally often.\<close>

lemma scan_uniform:
  assumes "0 < k" and "k \<le> n"
  shows "\<exists>l. least infl k l \<and> (\<forall>r. snd (scan_upto r infl k) = (l, card {i. i < k \<and> infl ! i = l}) \<and> scan_best infl k r < k)
    \<and> (\<forall>j < k. infl ! j = l \<longrightarrow>
         card {i. i < k \<and> infl ! i = l} * card {r \<in> draws n. scan_best infl k r = j} = card (draws n))"
  using assms
proof (induction k rule: nat_induct_non_zero)
  case 1
  have "{i. i < 1 \<and> infl ! i = infl ! 0} = {0 :: nat}" by auto
  then show ?case by (intro exI [of _ "infl ! 0"]) (simp add: least_def scan_best_def)
next
  case (Suc k)
  then obtain l where l: "least infl k l" and st: "\<And>r. snd (scan_upto r infl k) = (l, card {i. i < k \<and> infl ! i = l})"
    and best: "\<And>r. scan_best infl k r < k"
    and uni: "\<And>j. j < k \<Longrightarrow> infl ! j = l \<Longrightarrow>
      card {i. i < k \<and> infl ! i = l} * card {r \<in> draws n. scan_best infl k r = j} = card (draws n)" by auto
  let ?t = "card {i. i < k \<and> infl ! i = l}"
  have up: "scan_upto r infl k = (scan_best infl k r, l, ?t)" for r
    using st [of r] by (simp add: scan_best_def prod_eq_iff)
  have k: "0 < k" "k < n" using Suc by simp_all
  consider (less) "sint (infl ! k) < sint l" | (tie) "infl ! k = l" | (more) "infl ! k \<noteq> l" "\<not> sint (infl ! k) < sint l" by blast
  then show ?case
  proof cases
    case less
    then have ne: "infl ! i \<noteq> infl ! k" if "i < k" for i using l that by (auto simp: least_def)
    then have one: "{i. i < Suc k \<and> infl ! i = infl ! k} = {k}" by (auto simp: less_Suc_eq)
    have nxt: "scan_upto r infl (Suc k) = (k, infl ! k, 1)" for r using less k up [of r] by simp
    have "sint (infl ! k) \<le> sint (infl ! i)" if "i < Suc k" for i using l less that by (fastforce simp: least_def less_Suc_eq)
    then have "least infl (Suc k) (infl ! k)" by (auto simp: least_def)
    moreover have "card {r \<in> draws n. k = j} = card (draws n)" if "j < Suc k" "infl ! j = infl ! k" for j
      using ne [of j] that by (cases "j = k") simp_all
    ultimately show ?thesis unfolding scan_best_def nxt by (intro exI [of _ "infl ! k"]) (simp add: one)
  next
    case tie
    then have ties: "{i. i < Suc k \<and> infl ! i = l} = insert k {i. i < k \<and> infl ! i = l}" by (auto simp: less_Suc_eq)
    then have t: "card {i. i < Suc k \<and> infl ! i = l} = Suc ?t" by simp
    have "?t \<le> card {..<k}" by (rule card_mono) auto
    then have le: "Suc ?t \<le> n" using k by simp
    have nxt: "scan_upto r infl (Suc k) = (if r k (Suc ?t) = 0 then k else scan_best infl k r, l, Suc ?t)" for r
      using tie k up [of r] by simp
    then have nb: "scan_best infl (Suc k) r = (if r k (Suc ?t) = 0 then k else scan_best infl k r)" for r
      by (simp add: scan_best_def)
    have ind: "Suc ?t * card {r \<in> draws n. P r \<and> r k (Suc ?t) = 0} = card {r \<in> draws n. P r}"
      if "\<And>r v. P (answer k (Suc ?t) v r) \<longleftrightarrow> P r" for P
      using independent_draw [of P k "Suc ?t" n 0] that k le by simp
    have "Suc ?t * card {r \<in> draws n. scan_best infl (Suc k) r = j} = card (draws n)" if j: "j < Suc k" "infl ! j = l" for j
    proof (cases "j = k")
      case True
      have "{r \<in> draws n. scan_best infl (Suc k) r = j} = {r \<in> draws n. True \<and> r k (Suc ?t) = 0}"
        using nb best [THEN less_imp_neq] True by auto
      then show ?thesis using ind [of "\<lambda>_. True"] by simp
    next
      case False
      let ?B = "{r \<in> draws n. scan_best infl k r = j}"
      let ?Z = "{r \<in> draws n. scan_best infl k r = j \<and> r k (Suc ?t) = 0}"
      have "{r \<in> draws n. scan_best infl (Suc k) r = j} = ?B - ?Z" using nb False by auto
      moreover have "card (?B - ?Z) = card ?B - card ?Z"
        by (rule card_Diff_subset) (auto intro: finite_subset [OF _ finite_draws])
      moreover have "Suc ?t * card ?Z = card ?B"
        by (rule ind) (simp add: scan_best_def scan_upto_answer)
      moreover have "?t * card ?B = card (draws n)" using uni j False by simp
      ultimately show ?thesis by (simp add: diff_mult_distrib2)
    qed
    moreover have "least infl (Suc k) l" using l tie by (auto simp: least_def less_Suc_eq)
    moreover have "snd (scan_upto r infl (Suc k)) = (l, Suc ?t) \<and> scan_best infl (Suc k) r < Suc k" for r
      using nxt [of r] nb [of r] best [of r] by (simp del: scan_upto.simps)
    ultimately show ?thesis unfolding t [symmetric] by blast
  next
    case more
    then have "{i. i < Suc k \<and> infl ! i = l} = {i. i < k \<and> infl ! i = l}" and "least infl (Suc k) l"
      using l by (auto simp: least_def less_Suc_eq)
    moreover have "scan_upto r infl (Suc k) = scan_upto r infl k" for r using more k up [of r] by simp
    moreover from this have "scan_best infl (Suc k) = scan_best infl k" by (simp add: scan_best_def fun_eq_iff)
    ultimately show ?thesis using st best uni more(1) by (intro exI [of _ l]) (auto simp: less_Suc_eq)
  qed
qed

section \<open>The selector\<close>

lemma lc_next_scan:
  assumes "counters_wf (lc_counters s)" and "c_addrs (lc_counters s) \<noteq> []"
    and "scan_best (c_inflight (lc_counters s)) (length (c_addrs (lc_counters s))) r = b" and "b < length (c_addrs (lc_counters s))"
  shows "fst (lc_next r s) = Ok (c_addrs (lc_counters s) ! b, of_nat b)"
proof -
  let ?c = "lc_counters s"
  let ?n = "length (c_addrs ?c)"
  have len: "length (c_inflight ?c) = ?n" "0 < ?n" using assms(1,2) by (simp_all add: counters_wf_def)
  obtain l t where "scan_upto r (c_inflight ?c) ?n = (b, l, t)" using assms(3) by (metis scan_best_def prod.collapse)
  then have "lc_scan r (c_inflight ?c) [1..<?n] 0 (c_inflight ?c ! 0) 1 = Ok b"
    using lc_scan_upto [of ?n "c_inflight ?c" ?n r b l t] len by simp
  moreover have "c_inflight ?c \<noteq> []" using len by auto
  ultimately show ?thesis using assms(1,4) by (simp add: lc_next_def pick_wf Let_def)
qed

text \<open>C19: Least-connections breaks ties without bias: if \<open>m\<close> upstreams share the least load, then each of them is
  chosen in exactly one \<open>m\<close>-th of all the ways in which the draws that the code makes can be
  answered, whatever the loads of the other upstreams and wherever they stand.\<close>

theorem least_conn_ties_uniform:
  assumes "counters_wf (lc_counters s)" and "c_addrs (lc_counters s) = as" and "c_inflight (lc_counters s) = infl"
    and "j < length as" and "\<forall>i < length as. sint (infl ! j) \<le> sint (infl ! i)"
  shows "card {i. i < length as \<and> infl ! i = infl ! j}
      * card {r \<in> draws (length as). fst (lc_next r s) = Ok (as ! j, of_nat j)} = card (draws (length as))
    \<and> 0 < card (draws (length as))"
proof -
  let ?n = "length as"
  have n: "0 < ?n" "?n \<le> 2 ^ 31" using assms by (auto simp: counters_wf_def)
  obtain l where l: "least infl ?n l" and best: "\<And>r. scan_best infl ?n r < ?n"
    and uni: "infl ! j = l \<Longrightarrow> card {i. i < ?n \<and> infl ! i = l} * card {r \<in> draws ?n. scan_best infl ?n r = j} = card (draws ?n)"
    using scan_uniform [of ?n ?n infl] n(1) assms(4) by auto
  have "sint (infl ! j) = sint l" using l assms(4,5) by (auto simp: least_def intro: antisym)
  then have "infl ! j = l" by (rule signed_word_eqI)
  moreover have "fst (lc_next r s) = Ok (as ! j, of_nat j) \<longleftrightarrow> scan_best infl ?n r = j" for r
    using lc_next_scan [of s r "scan_best infl ?n r"] assms(1-4) n best [of r] of_nat_i32_inj [of "scan_best infl ?n r" j] by auto
  ultimately show ?thesis using uni draws_nonempty by simp
qed

theorem least_conn_ties_uniform_witness:
  "3 * card {r \<in> draws 3. fst (lc_next r (lc_new [''a'', ''b'', ''c''])) = Ok (''b'', 1)} = card (draws 3) \<and> 0 < card (draws 3)"
proof -
  have "{i. i < Suc (Suc (Suc 0)) \<and> [0, 0, 0 :: i64] ! i = 0} = {..<3}" by (auto simp: less_Suc_eq numeral_3_eq_3)
  then show ?thesis
    using least_conn_ties_uniform [of "lc_new [''a'', ''b'', ''c'']" "[''a'', ''b'', ''c'']" "[0, 0, 0]" 1]
    by (simp add: lc_new_def counters_new_def counters_wf_def less_Suc_eq numeral_3_eq_3)
qed

end
