(* ===== verification/Balancer_Tests.thy ===== *)
theory Balancer_Tests
  imports Balancer
begin

text \<open>
  The unit tests of \<^verbatim>\<open>crates/service-proxy/src/upstream/balancer.rs\<close> and their helper \<^verbatim>\<open>set_inflight\<close>. A
  test is a function of the random draws of its calls of \<^verbatim>\<open>next\<close>, true if the test passes; an
  execution of the test tries one sequence of draws, the theorem covers all of them.
\<close>

section \<open>The helper\<close>

definition set_inflight :: "nat \<Rightarrow> i64 \<Rightarrow> Counters \<Rightarrow> (unit, unit) outcome \<times> Counters" where
  "set_inflight idx v c =
     (if idx \<ge> length (c_inflight c) then (Panic, c) else (Ok (), c\<lparr>c_inflight := (c_inflight c)[idx := v]\<rparr>))"

definition lc_set_inflight :: "nat \<Rightarrow> i64 \<Rightarrow> LeastConn \<Rightarrow> (unit, unit) outcome \<times> LeastConn" where
  "lc_set_inflight idx v s = (case set_inflight idx v (lc_counters s) of (q, c) \<Rightarrow> (q, s\<lparr>lc_counters := c\<rparr>))"

definition p2c_set_inflight :: "nat \<Rightarrow> i64 \<Rightarrow> P2C \<Rightarrow> (unit, unit) outcome \<times> P2C" where
  "p2c_set_inflight idx v s = (case set_inflight idx v (p2c_counters s) of (q, c) \<Rightarrow> (q, s\<lparr>p2c_counters := c\<rparr>))"

section \<open>The tests\<close>

definition test_least_conn_picks_least_loaded :: "rng \<Rightarrow> bool" where
  "test_least_conn_picks_least_loaded r =
     (case lc_set_inflight 0 10 (lc_new [''a'', ''b'', ''c'']) of
        (Ok _, lc1) \<Rightarrow>
          (case lc_set_inflight 2 3 lc1 of
             (Ok _, lc2) \<Rightarrow>
               (case lc_next r lc2 of
                  (Ok (addr, tok), lc3) \<Rightarrow> addr = ''b'' \<and> tok = 1 \<and> fst (lc_release tok lc3) = Ok ()
                | _ \<Rightarrow> False)
           | _ \<Rightarrow> False)
      | _ \<Rightarrow> False)"

text \<open>One round of the loop of each test, for every draw of the list, in turn.\<close>

fun p2c_rounds :: "rng list \<Rightarrow> P2C \<Rightarrow> bool" where
  "p2c_rounds [] p = True"
| "p2c_rounds (r # rs) p =
     (case p2c_next r p of
        (Ok (addr, tok), p1) \<Rightarrow>
          addr = ''y'' \<and> (case p2c_release tok p1 of (Ok _, p2) \<Rightarrow> p2c_rounds rs p2 | _ \<Rightarrow> False)
      | _ \<Rightarrow> False)"

definition test_p2c_picks_less_loaded :: "rng list \<Rightarrow> bool" where
  "test_p2c_picks_less_loaded rs =
     (case p2c_set_inflight 0 5 (p2c_new [''x'', ''y'']) of (Ok _, p) \<Rightarrow> p2c_rounds rs p | _ \<Rightarrow> False)"

fun rr_rounds :: "nat \<Rightarrow> CountingRoundRobin \<Rightarrow> CountingRoundRobin option" where
  "rr_rounds 0 s = Some s"
| "rr_rounds (Suc k) s =
     (case crr_next s of
        (Ok (_, tok), s1) \<Rightarrow> (case crr_release tok s1 of (Ok _, s2) \<Rightarrow> rr_rounds k s2 | _ \<Rightarrow> None)
      | _ \<Rightarrow> None)"

definition test_counting_rr_even :: bool where
  "test_counting_rr_even =
     (case rr_rounds 30 (crr_new [''a'', ''b'', ''c'']) of
        Some s \<Rightarrow>
          (case crr_stats False s of
             (Ok xs, _) \<Rightarrow> list_all (\<lambda>x. st_total x = 10 \<and> st_inflight x = 0) xs
           | _ \<Rightarrow> False)
      | None \<Rightarrow> False)"

definition test_stats_reset :: "rng \<Rightarrow> rng \<Rightarrow> bool" where
  "test_stats_reset r1 r2 =
     (case lc_next r1 (lc_new [''a'', ''b'']) of
        (Ok _, lc1) \<Rightarrow>
          (case lc_next r2 lc1 of
             (Ok _, lc2) \<Rightarrow>
               (case lc_stats True lc2 of
                  (Ok xs, lc3) \<Rightarrow>
                    sum_list (map st_total xs) = 2
                    \<and> (case lc_stats False lc3 of
                         (Ok snap, _) \<Rightarrow> sum_list (map st_total snap) = 0 \<and> sum_list (map st_inflight snap) = 2
                       | _ \<Rightarrow> False)
                | _ \<Rightarrow> False)
           | _ \<Rightarrow> False)
      | _ \<Rightarrow> False)"

definition test_new_selector_dispatch :: bool where
  "test_new_selector_dispatch \<longleftrightarrow>
     (case new_selector [''a''] [] of FixedK _ \<Rightarrow> True | _ \<Rightarrow> False)
     \<and> (case new_selector [''a'', ''b''] [] of RoundRobinK _ \<Rightarrow> True | _ \<Rightarrow> False)
     \<and> has_stats (new_selector [''a'', ''b''] LB_P2C) \<and> \<not> has_stats (new_selector [''a'', ''b''] [])"

section \<open>They pass whatever is drawn\<close>

lemma lc_test: "test_least_conn_picks_least_loaded r"
  by (simp add: test_least_conn_picks_least_loaded_def lc_set_inflight_def set_inflight_def sel_simps lc_next_def pick_def
      lc_release_def counters_release_def Let_def upt_rec)

text \<open>After each round the counters of the second upstream are back, except for its total.\<close>

lemma p2c_rounds_pass:
  assumes "\<forall>r \<in> set rs. rng_ok r"
  shows "p2c_rounds rs \<lparr>p2c_counters = \<lparr>c_addrs = [''x'', ''y''], c_total = [a, b], c_inflight = [5, 0]\<rparr>\<rparr>"
  using assms
proof (induction rs arbitrary: b)
  case (Cons r rs)
  have "r 0 2 < 2" and "r 1 1 < 1" using Cons.prems by (auto simp: rng_ok_def)
  then have "p2c_choices r 2 = (0, 1) \<or> p2c_choices r 2 = (1, 0)"
    by (auto simp: p2c_choices_def Let_def)
  then have "p2c_next r \<lparr>p2c_counters = \<lparr>c_addrs = [''x'', ''y''], c_total = [a, b], c_inflight = [5, 0]\<rparr>\<rparr>
      = (Ok (''y'', 1), \<lparr>p2c_counters = \<lparr>c_addrs = [''x'', ''y''], c_total = [a, b + 1], c_inflight = [5, 1]\<rparr>\<rparr>)"
    by (auto simp: p2c_next_def pick_def Let_def eval_nat_numeral)
  then show ?case using Cons by (simp add: p2c_release_def counters_release_def Let_def)
qed simp

lemma p2c_test: "\<forall>r \<in> set rs. rng_ok r \<Longrightarrow> test_p2c_picks_less_loaded rs"
  using p2c_rounds_pass [of rs 0 0]
  by (simp add: test_p2c_picks_less_loaded_def p2c_set_inflight_def set_inflight_def sel_simps)

lemma rr_test: "test_counting_rr_even"
  by code_simp

lemma stats_test:
  assumes "rng_ok r1" and "rng_ok r2"
  shows "test_stats_reset r1 r2"
proof -
  have "r1 1 2 < 2" using assms(1) by (simp add: rng_ok_def)
  then consider "r1 1 2 = 0" | "r1 1 2 = 1" by linarith
  then show ?thesis
    by cases (simp_all add: test_stats_reset_def sel_simps lc_next_def pick_def lc_stats_def counters_stats_def Let_def upt_rec
        eval_nat_numeral)
qed

text \<open>The unit tests of the balancer pass for every sequence of random draws, not only for those an
  execution of the tests happens to see.\<close>

lemma balancer_tests_pass:
  assumes "rng_ok r1" and "rng_ok r2" and "\<forall>r \<in> set rs. rng_ok r"
  shows "test_least_conn_picks_least_loaded r1 \<and> test_p2c_picks_less_loaded rs \<and> test_counting_rr_even
    \<and> test_stats_reset r1 r2 \<and> test_new_selector_dispatch"
  using lc_test p2c_test rr_test stats_test assms
  by (simp add: test_new_selector_dispatch_def sel_simps)

end
