(* ===== verification/Stats_Race.thy ===== *)
theory Stats_Race
  imports Balancer
begin

text \<open>
  The total of one upstream, counted by requests and read and reset by statistics calls at the same
  time (\<^verbatim>\<open>Counters::pick\<close> and \<^verbatim>\<open>Counters::stats(true)\<close> in
  \<^verbatim>\<open>crates/service-proxy/src/upstream/balancer.rs\<close>). A reset is two atomic operations, a \<^verbatim>\<open>load\<close> and a
  \<^verbatim>\<open>fetch_sub\<close> of the value loaded; the steps of all tasks interleave in any order.
\<close>

datatype resetter = RLoad | RSub i64

record rstate =
  r_total :: i64
  r_picks :: nat               \<comment> \<open>selections so far\<close>
  r_reported :: "i64 list"     \<comment> \<open>totals reported by the resets that are finished\<close>
  r_resetters :: "resetter list"

definition rstart :: "nat \<Rightarrow> rstate" where
  "rstart k = \<lparr>r_total = 0, r_picks = 0, r_reported = [], r_resetters = replicate k RLoad\<rparr>"

inductive rstep :: "rstate \<Rightarrow> rstate \<Rightarrow> bool" where
  picked: "rstep s (s\<lparr>r_total := r_total s + 1, r_picks := Suc (r_picks s)\<rparr>)"
| load: "\<lbrakk> t < length (r_resetters s); r_resetters s ! t = RLoad \<rbrakk> \<Longrightarrow>
    rstep s (s\<lparr>r_resetters := (r_resetters s)[t := RSub (r_total s)]\<rparr>)"
| sub: "\<lbrakk> t < length (r_resetters s); r_resetters s ! t = RSub v \<rbrakk> \<Longrightarrow>
    rstep s (s\<lparr>r_total := r_total s - v, r_reported := r_reported s @ [v], r_resetters := (r_resetters s)[t := RLoad]\<rparr>)"

section \<open>One resetter\<close>

text \<open>Reported and remaining selections add up, and what is about to be subtracted is still there.\<close>

definition reset_inv :: "rstate \<Rightarrow> bool" where
  "reset_inv s \<longleftrightarrow> length (r_resetters s) = 1
     \<and> (r_picks s < 2 ^ 63 \<longrightarrow>
          unat (r_total s) + sum_list (map unat (r_reported s)) = r_picks s
          \<and> (\<forall>v. r_resetters s ! 0 = RSub v \<longrightarrow> unat v \<le> unat (r_total s)))"

lemma reset_inv_step: "rstep s s' \<Longrightarrow> reset_inv s \<Longrightarrow> reset_inv s'"
proof (induction rule: rstep.induct)
  case (picked s)
  show ?case
  proof (cases "Suc (r_picks s) < 2 ^ 63")
    case True
    then have "unat (r_total s) < usize_max" using picked by (simp add: reset_inv_def usize_max_def)
    then have "unat (r_total s + 1) = Suc (unat (r_total s))" by (rule unat_Suc_64)
    then show ?thesis using picked True by (auto simp: reset_inv_def)
  next
    case False
    then show ?thesis using picked by (simp add: reset_inv_def)
  qed
next
  case (load t s)
  then show ?case by (auto simp: reset_inv_def)
next
  case (sub t s v)
  then have "t = 0" by (simp add: reset_inv_def)
  then have "unat (r_total s - v) = unat (r_total s) - unat v" if "r_picks s < 2 ^ 63"
    using sub that by (simp add: reset_inv_def unat_sub word_le_nat_alt)
  then show ?case using sub \<open>t = 0\<close> by (auto simp: reset_inv_def)
qed

lemma reset_inv_reach:
  assumes "rstep\<^sup>*\<^sup>* (rstart 1) s"
  shows "reset_inv s"
  using assms
proof (induction rule: rtranclp_induct)
  case base
  then show ?case by (simp add: reset_inv_def rstart_def)
next
  case (step s s')
  then show ?case using reset_inv_step by blast
qed

lemma sint_unat_small:
  assumes "unat (w :: 64 word) < 2 ^ 63"
  shows "sint w = int (unat w)"
proof -
  have "int (unat w) < int (2 ^ 63)" using assms by (simp only: of_nat_less_iff)
  then have "uint w < 2 ^ 63" by simp
  moreover have "- (2 ^ 63) \<le> uint w" by (rule order_trans [of _ 0]) simp_all
  ultimately have "signed_take_bit 63 (uint w) = uint w" by (intro signed_take_bit_int_eq_self)
  then show ?thesis by (simp add: sint_uint)
qed

lemma sum_list_int: "sum_list (map (\<lambda>v. int (f v)) xs) = int (sum_list (map f xs))"
  by (induction xs) simp_all

text \<open>C25: While one client at a time resets, every selection is counted exactly once: the totals reported by the resets and
  the total that remains add up to the selections made, and no count is ever negative, however
  selections fall between the \<^verbatim>\<open>load\<close> and the \<^verbatim>\<open>fetch_sub\<close> of a reset.\<close>

theorem single_resets_count_once:
  assumes "rstep\<^sup>*\<^sup>* (rstart 1) s" and "r_picks s < 2 ^ 63"
  shows "sint (r_total s) + sum_list (map sint (r_reported s)) = int (r_picks s) \<and> 0 \<le> sint (r_total s)
     \<and> list_all (\<lambda>v. 0 \<le> sint v) (r_reported s)"
proof -
  have sum: "unat (r_total s) + sum_list (map unat (r_reported s)) = r_picks s"
    using reset_inv_reach [OF assms(1)] assms(2) by (simp add: reset_inv_def)
  have small: "unat v < 2 ^ 63" if "v \<in> set (r_reported s)" for v
    using member_le_sum_list [of "unat v" "map unat (r_reported s)"] that sum assms(2) by auto
  have tot: "sint (r_total s) = int (unat (r_total s))" using sum assms(2) by (intro sint_unat_small) simp
  have "map sint (r_reported s) = map (\<lambda>v. int (unat v)) (r_reported s)"
    using small sint_unat_small by simp
  then have "sum_list (map sint (r_reported s)) = int (sum_list (map unat (r_reported s)))"
    by (simp only: sum_list_int)
  with tot have "sint (r_total s) + sum_list (map sint (r_reported s)) = int (r_picks s)"
    unfolding sum [symmetric] by (simp only: of_nat_add)
  with tot show ?thesis using small sint_unat_small by (simp add: list_all_iff)
qed

lemma example_reset:
  "rstep\<^sup>*\<^sup>* (rstart 1) \<lparr>r_total = 0, r_picks = 1, r_reported = [1], r_resetters = [RLoad]\<rparr>"
proof -
  let ?s1 = "\<lparr>r_total = 1, r_picks = 1, r_reported = [], r_resetters = [RLoad]\<rparr>"
  let ?s2 = "\<lparr>r_total = 1, r_picks = 1, r_reported = [], r_resetters = [RSub 1]\<rparr>"
  have "rstep (rstart 1) ?s1" using rstep.picked [of "rstart 1"] by (simp add: rstart_def)
  moreover have "rstep ?s1 ?s2" using rstep.load [of 0 ?s1] by simp
  moreover have "rstep ?s2 \<lparr>r_total = 0, r_picks = 1, r_reported = [1], r_resetters = [RLoad]\<rparr>"
    using rstep.sub [of 0 ?s2 1] by simp
  ultimately show ?thesis by (meson rtranclp.rtrancl_refl rtranclp.rtrancl_into_rtrancl)
qed

theorem single_resets_count_once_witness:
  "sint (0 :: i64) + sum_list (map sint [1 :: i64]) = int 1 \<and> 0 \<le> sint (0 :: i64) \<and> list_all (\<lambda>v. 0 \<le> sint v) [1 :: i64]"
  using single_resets_count_once [OF example_reset] by simp

section \<open>Two resetters\<close>

text \<open>C40: Two resets at the same time count twice: both can load the same total before either subtracts it, so that one
  selection is reported twice and the total is left at minus one.\<close>

theorem concurrent_resets_double_count:
  "\<exists>s. rstep\<^sup>*\<^sup>* (rstart 2) s \<and> r_picks s = 1 \<and> r_reported s = [1, 1] \<and> sint (r_total s) = -1"
proof -
  let ?s = "\<lambda>tot rep ts. \<lparr>r_total = tot, r_picks = 1, r_reported = rep, r_resetters = ts\<rparr>"
  have "rstep (rstart 2) (?s 1 [] [RLoad, RLoad])"
    using rstep.picked [of "rstart 2"] by (simp add: rstart_def numeral_2_eq_2)
  moreover have "rstep (?s 1 [] [RLoad, RLoad]) (?s 1 [] [RSub 1, RLoad])"
    using rstep.load [of 0 "?s 1 [] [RLoad, RLoad]"] by simp
  moreover have "rstep (?s 1 [] [RSub 1, RLoad]) (?s 1 [] [RSub 1, RSub 1])"
    using rstep.load [of 1 "?s 1 [] [RSub 1, RLoad]"] by simp
  moreover have "rstep (?s 1 [] [RSub 1, RSub 1]) (?s 0 [1] [RLoad, RSub 1])"
    using rstep.sub [of 0 "?s 1 [] [RSub 1, RSub 1]" 1] by simp
  moreover have "rstep (?s 0 [1] [RLoad, RSub 1]) (?s (-1) [1, 1] [RLoad, RLoad])"
    using rstep.sub [of 1 "?s 0 [1] [RLoad, RSub 1]" 1] by simp
  ultimately have "rstep\<^sup>*\<^sup>* (rstart 2) (?s (-1) [1, 1] [RLoad, RLoad])"
    by (meson rtranclp.rtrancl_refl rtranclp.rtrancl_into_rtrancl)
  then show ?thesis by (intro exI [of _ "?s (-1) [1, 1] [RLoad, RLoad]"]) simp
qed

end
