(* ===== verification/Selector_Race.thy ===== *)
theory Selector_Race
  imports Balancer
begin

text \<open>
  The counting selectors under concurrent calls of \<^verbatim>\<open>next\<close> and \<^verbatim>\<open>release\<close>
  (\<^verbatim>\<open>crates/service-proxy/src/upstream/balancer.rs\<close>): every atomic operation on a counter is one step of
  one of any number of tasks, and steps interleave in any order. A selection is decided from loads
  that other tasks may have made stale, and \<^verbatim>\<open>pick\<close> counts in two separate operations. A whole call
  of \<^verbatim>\<open>next\<close> in theory \<open>Balancer\<close> is a run of these steps.
\<close>

section \<open>Tasks and steps\<close>

text \<open>Which selector the tasks share.\<close>

datatype policy = ByRoundRobin | ByLeastConn | ByP2C

text \<open>Where a task is inside \<^verbatim>\<open>next\<close>, and after it.\<close>

datatype npc =
    NextStart
  | Drawn u64                    \<comment> \<open>\<^verbatim>\<open>counter.fetch_add\<close> returned this value\<close>
  | Scanning nat nat i64 nat     \<comment> \<open>the loop index, \<^verbatim>\<open>best\<close>, \<^verbatim>\<open>best_load\<close> and \<^verbatim>\<open>ties\<close>\<close>
  | Comparing nat nat i64        \<comment> \<open>\<^verbatim>\<open>i\<close>, \<^verbatim>\<open>j\<close> and the value loaded from \<^verbatim>\<open>inflight[j]\<close>\<close>
  | Picking nat                  \<comment> \<open>inside \<^verbatim>\<open>pick\<close>, about to count in \<^verbatim>\<open>total\<close>\<close>
  | PickInflight nat             \<comment> \<open>inside \<^verbatim>\<open>pick\<close>, about to count in \<^verbatim>\<open>inflight\<close>\<close>
  | Selected nat                 \<comment> \<open>\<^verbatim>\<open>next\<close> returned\<close>
  | Released nat                 \<comment> \<open>\<^verbatim>\<open>release\<close> returned\<close>
  | Unwound                      \<comment> \<open>a panic\<close>

record race =
  x_counters :: Counters
  x_counter :: u64               \<comment> \<open>the counter of \<^verbatim>\<open>CountingRoundRobin\<close>\<close>
  x_tasks :: "npc list"

definition load_inflight :: "nat \<Rightarrow> Counters \<Rightarrow> i64 option" where
  "load_inflight i c = (if i < length (c_inflight c) then Some (c_inflight c ! i) else None)"

text \<open>What \<^verbatim>\<open>next\<close> does first: draw the next number, load the first candidate, or draw two candidates and load the second.\<close>

definition lc_first :: "Counters \<Rightarrow> npc" where
  "lc_first c = (case load_inflight 0 c of None \<Rightarrow> Unwound | Some load \<Rightarrow> Scanning 1 0 load 1)"

definition p2c_first :: "rng \<Rightarrow> Counters \<Rightarrow> npc" where
  "p2c_first r c =
     (let n = length (c_addrs c)
      in if n = 0 \<or> n - 1 = 0 then Unwound
         else let (i, j) = p2c_choices r n
         in case load_inflight j c of None \<Rightarrow> Unwound | Some load \<Rightarrow> Comparing i j load)"

fun next_first :: "policy \<Rightarrow> rng \<Rightarrow> Counters \<Rightarrow> u64 \<Rightarrow> npc \<times> u64" where
  "next_first ByRoundRobin r c n = (Drawn n, n + 1)"
| "next_first ByLeastConn r c n = (lc_first c, n)"
| "next_first ByP2C r c n = (p2c_first r c, n)"

declare lc_first_def [simp] and p2c_first_def [simp]

text \<open>The body of the loop of \<^verbatim>\<open>LeastConn::next\<close>, and its exit.\<close>

definition scan_one :: "rng \<Rightarrow> Counters \<Rightarrow> nat \<Rightarrow> nat \<Rightarrow> i64 \<Rightarrow> nat \<Rightarrow> npc" where
  "scan_one r c i best best_load ties =
     (if i < length (c_addrs c) then
        (case load_inflight i c of
           None \<Rightarrow> Unwound
         | Some load \<Rightarrow>
             if sint load < sint best_load then Scanning (Suc i) i load 1
             else if load = best_load then
               Scanning (Suc i) (if r i (ties + 1) = 0 then i else best) best_load (ties + 1)
             else Scanning (Suc i) best best_load ties)
      else Picking best)"

text \<open>The rest of \<^verbatim>\<open>CountingRoundRobin::next\<close> and of \<^verbatim>\<open>P2C::next\<close> before \<^verbatim>\<open>pick\<close>.\<close>

definition crr_index :: "u64 \<Rightarrow> Counters \<Rightarrow> npc" where
  "crr_index i c = (if length (c_addrs c) = 0 then Unwound else Picking (unat i mod length (c_addrs c)))"

definition p2c_compare :: "nat \<Rightarrow> nat \<Rightarrow> i64 \<Rightarrow> Counters \<Rightarrow> npc" where
  "p2c_compare i j loaded c =
     (case load_inflight i c of
        None \<Rightarrow> Unwound | Some load \<Rightarrow> Picking (if sint loaded < sint load then j else i))"

text \<open>The two operations of \<^verbatim>\<open>pick\<close>, and \<^verbatim>\<open>release\<close>.\<close>

definition pick_total :: "nat \<Rightarrow> Counters \<Rightarrow> npc \<times> Counters" where
  "pick_total i c =
     (if i \<ge> length (c_total c) then (Unwound, c)
      else (PickInflight i, c\<lparr>c_total := (c_total c)[i := c_total c ! i + 1]\<rparr>))"

definition pick_inflight :: "nat \<Rightarrow> Counters \<Rightarrow> npc \<times> Counters" where
  "pick_inflight i c =
     (if i \<ge> length (c_inflight c) then (Unwound, c)
      else let c' = c\<lparr>c_inflight := (c_inflight c)[i := c_inflight c ! i + 1]\<rparr>
      in (if i \<ge> length (c_addrs c) then Unwound else Selected i, c'))"

definition release_token_of :: "nat \<Rightarrow> Counters \<Rightarrow> npc \<times> Counters" where
  "release_token_of i c =
     (case counters_release (of_nat i) c of (Ok u, c') \<Rightarrow> (Released i, c') | (_, c') \<Rightarrow> (Unwound, c'))"

declare crr_index_def [simp] and p2c_compare_def [simp] and pick_total_def [simp] and pick_inflight_def [simp]
  and release_token_of_def [simp]

fun nmove :: "policy \<Rightarrow> rng \<Rightarrow> npc \<Rightarrow> Counters \<Rightarrow> u64 \<Rightarrow> (npc \<times> Counters \<times> u64) option" where
  "nmove p r NextStart c n = (case next_first p r c n of (q, n') \<Rightarrow> Some (q, c, n'))"
| "nmove p r (Drawn i) c n = Some (crr_index i c, c, n)"
| "nmove p r (Scanning i best best_load ties) c n = Some (scan_one r c i best best_load ties, c, n)"
| "nmove p r (Comparing i j loaded) c n = Some (p2c_compare i j loaded c, c, n)"
| "nmove p r (Picking i) c n = (case pick_total i c of (q, c') \<Rightarrow> Some (q, c', n))"
| "nmove p r (PickInflight i) c n = (case pick_inflight i c of (q, c') \<Rightarrow> Some (q, c', n))"
| "nmove p r (Selected i) c n = (case release_token_of i c of (q, c') \<Rightarrow> Some (q, c', n))"
| "nmove p r (Released i) c n = None"
| "nmove p r Unwound c n = None"

inductive nstep :: "policy \<Rightarrow> race \<Rightarrow> race \<Rightarrow> bool" for p where
  move: "\<lbrakk> t < length (x_tasks s); rng_ok r; nmove p r (x_tasks s ! t) (x_counters s) (x_counter s) = Some (q, c, n) \<rbrakk> \<Longrightarrow>
    nstep p s \<lparr>x_counters = c, x_counter = n, x_tasks = (x_tasks s)[t := q]\<rparr>"

definition race_start :: "string list \<Rightarrow> nat \<Rightarrow> race" where
  "race_start as k = \<lparr>x_counters = counters_new as, x_counter = 0, x_tasks = replicate k NextStart\<rparr>"

fun policy_need :: "policy \<Rightarrow> nat" where
  "policy_need ByP2C = 2"
| "policy_need ByRoundRobin = 1"
| "policy_need ByLeastConn = 1"

section \<open>The counts\<close>

text \<open>The tasks that a counter should count.\<close>

fun counted :: "nat \<Rightarrow> npc \<Rightarrow> bool" where
  "counted i (PickInflight j) = (i = j)"
| "counted i (Selected j) = (i = j)"
| "counted i (Released j) = (i = j)"
| "counted i _ = False"

fun in_range :: "nat \<Rightarrow> npc \<Rightarrow> bool" where
  "in_range n NextStart = True"
| "in_range n (Drawn i) = True"
| "in_range n (Scanning i best load ties) = (best < n)"
| "in_range n (Comparing i j load) = (i < n \<and> j < n)"
| "in_range n (Picking i) = (i < n)"
| "in_range n (PickInflight i) = (i < n)"
| "in_range n (Selected i) = (i < n)"
| "in_range n (Released i) = (i < n)"
| "in_range n Unwound = False"

definition race_inv :: "string list \<Rightarrow> race \<Rightarrow> bool" where
  "race_inv as s \<longleftrightarrow> counters_wf (x_counters s) \<and> c_addrs (x_counters s) = as \<and> list_all (in_range (length as)) (x_tasks s)
     \<and> (\<forall>i < length as. c_inflight (x_counters s) ! i = of_nat (length (filter ((=) (Selected i)) (x_tasks s)))
          \<and> c_total (x_counters s) ! i = of_nat (length (filter (counted i) (x_tasks s))))"

lemma nmove_release:
  "counters_wf c \<Longrightarrow> i < length (c_addrs c) \<Longrightarrow> nmove p r (Selected i) c n =
    Some (Released i, c\<lparr>c_inflight := (c_inflight c)[i := c_inflight c ! i - 1]\<rparr>, n)"
  by (simp add: release_token)

text \<open>One operation keeps the shape of the counters, and counts what its task is counted for.\<close>

lemma nmove_shape:
  assumes "nmove p r q c n = Some (q', c', n')" and "counters_wf c" and "in_range (length (c_addrs c)) q"
    and "rng_ok r" and "policy_need p \<le> length (c_addrs c)"
  shows "counters_wf c' \<and> c_addrs c' = c_addrs c \<and> in_range (length (c_addrs c)) q'"
proof (cases q)
  case NextStart
  have "in_range (length (c_addrs c)) (fst (next_first p r c n))"
  proof (cases p)
    case ByP2C
    obtain i j where ij: "p2c_choices r (length (c_addrs c)) = (i, j)" by fastforce
    show ?thesis using p2c_choices_distinct [OF assms(4) _ ij] ij ByP2C assms(2,5)
      by (auto simp: load_inflight_def counters_wf_def Let_def)
  qed (use assms(2,5) in \<open>auto simp: load_inflight_def counters_wf_def\<close>)
  then show ?thesis using assms(1,2) NextStart by (auto split: prod.splits)
next
  case (Drawn i)
  moreover have "c_addrs c \<noteq> []" using assms(5) by (cases p) auto
  ultimately show ?thesis using assms(1,2) by auto
next
  case (Selected i)
  then have "i < length (c_addrs c)" using assms(3) by simp
  from nmove_release [OF assms(2) this, of p r n] show ?thesis
    using assms(1,2) Selected \<open>i < length (c_addrs c)\<close> by (auto simp: counters_wf_def simp del: nmove.simps)
qed (use assms(1-3) in \<open>auto simp: scan_one_def load_inflight_def counters_wf_def Let_def split: if_splits option.splits\<close>)

lemma nmove_inflight:
  assumes "nmove p r q c n = Some (q', c', n')" and "counters_wf c" and "in_range (length (c_addrs c)) q"
    and "i < length (c_addrs c)"
  shows "c_inflight c' ! i + of_bool (Selected i = q) = c_inflight c ! i + of_bool (Selected i = q')"
proof (cases q)
  case NextStart
  then show ?thesis using assms(1)
    by (cases p) (auto simp: Let_def split: prod.splits option.splits if_splits)
next
  case (Selected j)
  then have j: "j < length (c_addrs c)" "j < length (c_inflight c)" using assms(2,3) by (simp_all add: counters_wf_def)
  from nmove_release [OF assms(2) j(1), of p r n] show ?thesis
    using assms(1) Selected j(2) by (auto simp: nth_list_update simp del: nmove.simps)
qed (use assms in \<open>auto simp: scan_one_def counters_wf_def nth_list_update Let_def split: if_splits option.splits\<close>)

lemma nmove_total:
  assumes "nmove p r q c n = Some (q', c', n')" and "counters_wf c" and "in_range (length (c_addrs c)) q"
    and "i < length (c_addrs c)"
  shows "c_total c' ! i + of_bool (counted i q) = c_total c ! i + of_bool (counted i q')"
proof (cases q)
  case NextStart
  then show ?thesis using assms(1)
    by (cases p) (auto simp: Let_def split: prod.splits option.splits if_splits)
next
  case (Selected j)
  then have "j < length (c_addrs c)" using assms(3) by simp
  from nmove_release [OF assms(2) this, of p r n] show ?thesis using assms(1) Selected by (auto simp del: nmove.simps)
qed (use assms in \<open>auto simp: scan_one_def counters_wf_def nth_list_update Let_def split: if_splits option.splits\<close>)

lemma of_nat_filter_update:
  assumes "t < length xs"
  shows "(of_nat (length (filter P (xs[t := q]))) :: 'a :: semiring_1) + of_bool (P (xs ! t))
    = of_nat (length (filter P xs)) + of_bool (P q)"
  using arg_cong [OF length_filter_update [OF assms, of P q], where f = "of_nat :: nat \<Rightarrow> 'a"]
  by (auto split: if_splits)

lemma race_inv_step:
  assumes "nstep p s s'" and "race_inv as s" and "policy_need p \<le> length as"
  shows "race_inv as s'"
  using assms(1)
proof cases
  case (move t r q c n)
  let ?q = "x_tasks s ! t" and ?c = "x_counters s"
  have wf: "counters_wf ?c" and as: "c_addrs ?c = as" and q: "in_range (length (c_addrs ?c)) ?q"
    using assms(2) move(2) by (auto simp: race_inv_def list_all_length)
  note shape = nmove_shape [OF move(4) wf q move(3), unfolded as, OF assms(3)]
  have "list_all (in_range (length as)) ((x_tasks s)[t := q])"
    using shape assms(2) set_update_subset_insert [of "x_tasks s" t q] by (auto simp: race_inv_def list_all_iff)
  moreover have "c_inflight c ! i = of_nat (length (filter ((=) (Selected i)) ((x_tasks s)[t := q])))" if "i < length as" for i
  proof -
    have "c_inflight ?c ! i = of_nat (length (filter ((=) (Selected i)) (x_tasks s)))" using assms(2) that by (simp add: race_inv_def)
    then show ?thesis using nmove_inflight [OF move(4) wf q, of i] that as
        of_nat_filter_update [OF move(2), of "(=) (Selected i)" q, where 'a = "64 word"] by (metis add_right_imp_eq)
  qed
  moreover have "c_total c ! i = of_nat (length (filter (counted i) ((x_tasks s)[t := q])))" if "i < length as" for i
  proof -
    have "c_total ?c ! i = of_nat (length (filter (counted i) (x_tasks s)))" using assms(2) that by (simp add: race_inv_def)
    then show ?thesis using nmove_total [OF move(4) wf q, of i] that as
        of_nat_filter_update [OF move(2), of "counted i" q, where 'a = "64 word"] by (metis add_right_imp_eq)
  qed
  ultimately show ?thesis using shape move(1) by (simp add: race_inv_def)
qed

lemma race_inv_reach:
  assumes "(nstep p)\<^sup>*\<^sup>* (race_start as k) s" and "policy_need p \<le> length as" and "length as \<le> 2 ^ 31"
  shows "race_inv as s"
  using assms(1)
proof (induction rule: rtranclp_induct)
  case base
  show ?case using assms(3) by (auto simp: race_inv_def race_start_def counters_new_def counters_wf_def list_all_length)
next
  case (step s s')
  then show ?case using race_inv_step assms(2) by blast
qed

section \<open>Round robin\<close>

text \<open>The tasks on their way to an upstream: drawn, or about to be counted.\<close>

fun bound_to :: "nat \<Rightarrow> nat \<Rightarrow> npc \<Rightarrow> bool" where
  "bound_to n i (Drawn v) = (unat v mod n = i)"
| "bound_to n i (Picking j) = (i = j)"
| "bound_to n i _ = False"

fun comparing_loads :: "npc \<Rightarrow> bool" where
  "comparing_loads (Scanning i best load ties) = True"
| "comparing_loads (Comparing i j load) = True"
| "comparing_loads _ = False"

definition draws_made :: "race \<Rightarrow> nat" where
  "draws_made s = length (filter ((\<noteq>) NextStart) (x_tasks s))"

definition rr_inv :: "nat \<Rightarrow> race \<Rightarrow> bool" where
  "rr_inv n s \<longleftrightarrow> x_counter s = of_nat (draws_made s) \<and> (\<forall>q \<in> set (x_tasks s). \<not> comparing_loads q)
     \<and> (\<forall>i < n. length (filter (\<lambda>q. bound_to n i q \<or> counted i q) (x_tasks s))
          = draws_made s div n + (if i < draws_made s mod n then 1 else 0))"

lemma rr_move_later:
  assumes "nmove ByRoundRobin r q c m = Some (q', c', m')" and "q \<noteq> NextStart" and "\<not> comparing_loads q"
    and "q' \<noteq> Unwound" and "length (c_addrs c) = n"
  shows "m' = m" and "q' \<noteq> NextStart" and "\<not> comparing_loads q'"
    and "bound_to n i q' \<or> counted i q' \<longleftrightarrow> bound_to n i q \<or> counted i q"
  using assms by (cases q; auto simp: Let_def split: if_splits prod.splits outcome.splits)+

lemma rr_inv_step:
  assumes "nstep ByRoundRobin s s'" and "rr_inv (length as) s" and "race_inv as s" and "race_inv as s'" and "as \<noteq> []"
    and "length (x_tasks s) < 2 ^ 64"
  shows "rr_inv (length as) s'"
  using assms(1)
proof cases
  case (move t r q c m)
  let ?q = "x_tasks s ! t" and ?n = "length as"
  have rest: "\<not> comparing_loads x" if "x \<in> set (x_tasks s)" for x using that assms(2) by (simp add: rr_inv_def)
  have d: "draws_made s' + of_bool (?q \<noteq> NextStart) = draws_made s + of_bool (q \<noteq> NextStart)"
    using length_filter_update [OF move(2), of "(\<noteq>) NextStart" q] move(1) by (auto simp: draws_made_def split: if_splits)
  have aim: "length (filter (\<lambda>q. bound_to ?n i q \<or> counted i q) (x_tasks s')) + of_bool (bound_to ?n i ?q \<or> counted i ?q)
      = length (filter (\<lambda>q. bound_to ?n i q \<or> counted i q) (x_tasks s)) + of_bool (bound_to ?n i q \<or> counted i q)" for i
    using length_filter_update [OF move(2), of "\<lambda>q. bound_to ?n i q \<or> counted i q" q] move(1) by (auto split: if_splits)
  show ?thesis
  proof (cases "?q = NextStart")
    case True
    have "draws_made s < length (x_tasks s)"
      using True move(2) by (auto simp: draws_made_def intro: length_filter_less [OF nth_mem])
    then have u: "unat (x_counter s) = draws_made s" using assms(2,6) by (simp add: rr_inv_def unat_of_nat)
    have q: "q = Drawn (x_counter s)" and m: "m = x_counter s + 1" using move(4) True by auto
    have d': "draws_made s' = Suc (draws_made s)" using d True q by simp
    have "length (filter (\<lambda>q. bound_to ?n i q \<or> counted i q) (x_tasks s'))
        = draws_made s' div ?n + (if i < draws_made s' mod ?n then 1 else 0)" if "i < ?n" for i
      using aim [of i] assms(2,5) that True q u d' by (auto simp: rr_inv_def div_Suc mod_Suc)
    moreover have "\<forall>x \<in> set (x_tasks s'). \<not> comparing_loads x"
      using rest q move(1) set_update_subset_insert [of "x_tasks s" t q] by auto
    ultimately show ?thesis using assms(2) d' m move(1) by (simp add: rr_inv_def add.commute)
  next
    case False
    have q: "q \<noteq> Unwound" using assms(4) move(1,2) by (auto simp: race_inv_def list_all_length)
    have n: "length (c_addrs (x_counters s)) = ?n" using assms(3) by (simp add: race_inv_def)
    note later = rr_move_later [OF move(4) False rest [OF nth_mem [OF move(2)]] q n]
    have "draws_made s' = draws_made s" using d False later(2) by simp
    moreover have "length (filter (\<lambda>q. bound_to ?n i q \<or> counted i q) (x_tasks s'))
        = length (filter (\<lambda>q. bound_to ?n i q \<or> counted i q) (x_tasks s))" for i
      using aim [of i] later(4) [of i] by simp
    moreover have "\<forall>x \<in> set (x_tasks s'). \<not> comparing_loads x"
      using rest later(3) move(1) set_update_subset_insert [of "x_tasks s" t q] by auto
    ultimately show ?thesis using assms(2) later(1) move(1) by (simp add: rr_inv_def)
  qed
qed

lemma rr_inv_reach:
  assumes "(nstep ByRoundRobin)\<^sup>*\<^sup>* (race_start as k) s" and "as \<noteq> []" and "length as \<le> 2 ^ 31" and "k < 2 ^ 64"
  shows "rr_inv (length as) s \<and> length (x_tasks s) = k"
  using assms(1)
proof (induction rule: rtranclp_induct)
  case base
  have "filter ((\<noteq>) NextStart) (replicate k NextStart) = []" by simp
  then show ?case using assms(2) by (simp add: rr_inv_def race_start_def draws_made_def filter_replicate)
next
  case (step s s')
  have need: "policy_need ByRoundRobin \<le> length as" using assms(2) by (simp add: Suc_le_eq)
  have "race_inv as s" and "race_inv as s'"
    using step.hyps race_inv_reach [OF _ need assms(3)] by (auto intro: rtranclp.rtrancl_into_rtrancl)
  moreover have "length (x_tasks s') = length (x_tasks s)" using step.hyps(2) by (auto elim: nstep.cases)
  ultimately show ?case using rr_inv_step [OF step.hyps(2)] step.IH assms(2,4) by simp
qed

section \<open>A call of \<^verbatim>\<open>next\<close> is a run\<close>

text \<open>The selector of theory \<open>Balancer\<close> with the tasks that use it.\<close>

fun as_race :: "SelectorKind \<Rightarrow> npc list \<Rightarrow> (policy \<times> race) option" where
  "as_race (CountingRoundRobinK s) ts =
     Some (ByRoundRobin, \<lparr>x_counters = crr_counters s, x_counter = crr_counter s, x_tasks = ts\<rparr>)"
| "as_race (LeastConnK s) ts = Some (ByLeastConn, \<lparr>x_counters = lc_counters s, x_counter = 0, x_tasks = ts\<rparr>)"
| "as_race (P2CK s) ts = Some (ByP2C, \<lparr>x_counters = p2c_counters s, x_counter = 0, x_tasks = ts\<rparr>)"
| "as_race s ts = None"

lemma task_step:
  assumes "nmove p r q c n = Some (q', c', n')" and "t < length ts" and "rng_ok r"
  shows "nstep p \<lparr>x_counters = c, x_counter = n, x_tasks = ts[t := q]\<rparr> \<lparr>x_counters = c', x_counter = n', x_tasks = ts[t := q']\<rparr>"
  using nstep.move [of t "\<lparr>x_counters = c, x_counter = n, x_tasks = ts[t := q]\<rparr>" r p q' c' n'] assms by simp

lemma task_run:
  assumes "nmove p r q c n = Some (q', c', n')" and "t < length ts" and "rng_ok r"
  shows "(nstep p)\<^sup>*\<^sup>* \<lparr>x_counters = c, x_counter = n, x_tasks = ts[t := q]\<rparr> \<lparr>x_counters = c', x_counter = n', x_tasks = ts[t := q']\<rparr>"
  using task_step [OF assms] by (rule r_into_rtranclp)

lemma pick_run:
  assumes "pick i c = (Ok (a, tok), c')" and "t < length ts" and "rng_ok r"
  shows "a = c_addrs c ! i" and "tok = of_nat i"
    and "(nstep p)\<^sup>*\<^sup>* \<lparr>x_counters = c, x_counter = n, x_tasks = ts[t := Picking i]\<rparr>
      \<lparr>x_counters = c', x_counter = n, x_tasks = ts[t := Selected i]\<rparr>"
proof -
  let ?c = "c\<lparr>c_total := (c_total c)[i := c_total c ! i + 1]\<rparr>"
  have mv: "nmove p r (Picking i) c n = Some (PickInflight i, ?c, n)" "nmove p r (PickInflight i) ?c n = Some (Selected i, c', n)"
    using assms(1) by (auto simp: pick_def Let_def split: if_splits)
  show "a = c_addrs c ! i" and "tok = of_nat i"
    using assms(1) by (auto simp: pick_def Let_def split: if_splits)
  show "(nstep p)\<^sup>*\<^sup>* \<lparr>x_counters = c, x_counter = n, x_tasks = ts[t := Picking i]\<rparr>
      \<lparr>x_counters = c', x_counter = n, x_tasks = ts[t := Selected i]\<rparr>"
    by (rule rtranclp_trans [OF task_run [OF mv(1) assms(2,3)] task_run [OF mv(2) assms(2,3)]])
qed

lemma scan_run:
  assumes "lc_scan r (c_inflight c) [i..<length (c_addrs c)] best load ties = Ok b" and "t < length ts" and "rng_ok r"
  shows "(nstep p)\<^sup>*\<^sup>* \<lparr>x_counters = c, x_counter = n, x_tasks = ts[t := Scanning i best load ties]\<rparr>
    \<lparr>x_counters = c, x_counter = n, x_tasks = ts[t := Picking b]\<rparr>"
  using assms(1)
proof (induction "length (c_addrs c) - i" arbitrary: i best load ties)
  case 0
  then have "nmove p r (Scanning i best load ties) c n = Some (Picking b, c, n)" by (simp add: scan_one_def)
  then show ?case by (rule task_run [OF _ assms(2,3)])
next
  case (Suc d)
  then have i: "i < length (c_addrs c)" by simp
  then obtain best' load' ties' where one: "scan_one r c i best load ties = Scanning (Suc i) best' load' ties'"
    and rest: "lc_scan r (c_inflight c) [Suc i..<length (c_addrs c)] best' load' ties' = Ok b"
    using Suc.prems by (auto simp: scan_one_def load_inflight_def upt_conv_Cons Let_def split: if_splits)
  have "nmove p r (Scanning i best load ties) c n = Some (Scanning (Suc i) best' load' ties', c, n)" using one by simp
  from task_step [OF this assms(2,3)] Suc.hyps(1) [OF _ rest] Suc.hyps(2) show ?case
    by (auto intro: converse_rtranclp_into_rtranclp)
qed

lemma first_then_pick:
  assumes "nmove p r NextStart c n = Some (q, c, n')" and "pick i c = (Ok (a, tok), c')" and "t < length ts" and "ts ! t = NextStart"
    and "(nstep p)\<^sup>*\<^sup>* \<lparr>x_counters = c, x_counter = n', x_tasks = ts[t := q]\<rparr> \<lparr>x_counters = c, x_counter = n', x_tasks = ts[t := Picking i]\<rparr>"
    and "rng_ok r"
  shows "(nstep p)\<^sup>*\<^sup>* \<lparr>x_counters = c, x_counter = n, x_tasks = ts\<rparr> \<lparr>x_counters = c', x_counter = n', x_tasks = ts[t := Selected i]\<rparr>"
proof -
  have "ts[t := NextStart] = ts" using assms(3,4) by (metis list_update_id)
  then have "nstep p \<lparr>x_counters = c, x_counter = n, x_tasks = ts\<rparr> \<lparr>x_counters = c, x_counter = n', x_tasks = ts[t := q]\<rparr>"
    using task_step [OF assms(1,3,6)] by simp
  with assms(5) pick_run(3) [OF assms(2,3,6), of p n'] show ?thesis by (meson converse_rtranclp_into_rtranclp rtranclp_trans)
qed

text \<open>A call of \<^verbatim>\<open>next\<close> that no other task disturbs is the operation of theory \<open>Balancer\<close>.\<close>

lemma next_is_run:
  assumes "as_race s ts = Some (p, x)" and "sel_next r s = (Ok (a, tok), s')" and "rng_ok r"
    and "t < length ts" and "ts ! t = NextStart"
  shows "\<exists>i x'. tok = of_nat i \<and> a = c_addrs (x_counters x) ! i \<and> as_race s' (ts[t := Selected i]) = Some (p, x') \<and> (nstep p)\<^sup>*\<^sup>* x x'"
proof (cases s)
  case (CountingRoundRobinK y)
  let ?c = "crr_counters y" and ?n = "crr_counter y"
  let ?i = "unat ?n mod length (c_addrs ?c)"
  obtain c' where pk: "pick ?i ?c = (Ok (a, tok), c')" and s': "s' = CountingRoundRobinK (y\<lparr>crr_counter := ?n + 1, crr_counters := c'\<rparr>)"
    and ne: "c_addrs ?c \<noteq> []"
    using assms(2) CountingRoundRobinK by (auto simp: crr_next_def Let_def split: if_splits prod.splits)
  have "nmove ByRoundRobin r (Drawn ?n) ?c (?n + 1) = Some (Picking ?i, ?c, ?n + 1)" using ne by simp
  from task_run [OF this assms(4,3)]
  have "(nstep ByRoundRobin)\<^sup>*\<^sup>* \<lparr>x_counters = ?c, x_counter = ?n, x_tasks = ts\<rparr> \<lparr>x_counters = c', x_counter = ?n + 1, x_tasks = ts[t := Selected ?i]\<rparr>"
    by (intro first_then_pick [OF _ pk assms(4,5) _ assms(3)]) simp_all
  then show ?thesis using pick_run(1,2) [OF pk assms(4,3)] assms(1) CountingRoundRobinK s' by auto
next
  case (LeastConnK y)
  let ?c = "lc_counters y"
  obtain b c' where sc: "lc_scan r (c_inflight ?c) [1..<length (c_addrs ?c)] 0 (c_inflight ?c ! 0) 1 = Ok b"
    and pk: "pick b ?c = (Ok (a, tok), c')" and s': "s' = LeastConnK (y\<lparr>lc_counters := c'\<rparr>)" and ne: "c_inflight ?c \<noteq> []"
    using assms(2) LeastConnK by (auto simp: lc_next_def Let_def split: if_splits prod.splits outcome.splits)
  have "nmove ByLeastConn r NextStart ?c 0 = Some (Scanning 1 0 (c_inflight ?c ! 0) 1, ?c, 0)" using ne by (simp add: load_inflight_def)
  from first_then_pick [OF this pk assms(4,5) scan_run [OF sc assms(4,3)] assms(3)] show ?thesis
    using pick_run(1,2) [OF pk assms(4,3)] assms(1) LeastConnK s' by auto
next
  case (P2CK y)
  let ?c = "p2c_counters y"
  obtain i j where ij: "p2c_choices r (length (c_addrs ?c)) = (i, j)" by fastforce
  let ?k = "if sint (c_inflight ?c ! j) < sint (c_inflight ?c ! i) then j else i"
  obtain c' where pk: "pick ?k ?c = (Ok (a, tok), c')" and s': "s' = P2CK (y\<lparr>p2c_counters := c'\<rparr>)"
    and n: "i < length (c_inflight ?c)" "j < length (c_inflight ?c)" "length (c_addrs ?c) \<noteq> 0" "length (c_addrs ?c) - 1 \<noteq> 0"
    using assms(2) P2CK ij by (simp add: p2c_next_def Let_def split: if_splits prod.splits)
  have "nmove ByP2C r NextStart ?c 0 = Some (Comparing i j (c_inflight ?c ! j), ?c, 0)"
    using n ij by (simp add: load_inflight_def Let_def)
  moreover have "nmove ByP2C r (Comparing i j (c_inflight ?c ! j)) ?c 0 = Some (Picking ?k, ?c, 0)" using n by (simp add: load_inflight_def)
  ultimately have "(nstep ByP2C)\<^sup>*\<^sup>* \<lparr>x_counters = ?c, x_counter = 0, x_tasks = ts\<rparr> \<lparr>x_counters = c', x_counter = 0, x_tasks = ts[t := Selected ?k]\<rparr>"
    by (intro first_then_pick [OF _ pk assms(4,5) task_run [OF _ assms(4,3)] assms(3)])
  then show ?thesis using pick_run(1,2) [OF pk assms(4,3)] assms(1) P2CK s' by auto
qed (use assms(1) in simp_all)

section \<open>Properties\<close>

text \<open>The run given by a schedule, the numbers of the tasks in the order of their steps.\<close>

fun play :: "policy \<Rightarrow> rng \<Rightarrow> nat list \<Rightarrow> race \<Rightarrow> race option" where
  "play p r [] s = Some s"
| "play p r (t # ts) s =
     (if t < length (x_tasks s) then
        (case nmove p r (x_tasks s ! t) (x_counters s) (x_counter s) of
           None \<Rightarrow> None
         | Some (q, c, n) \<Rightarrow> play p r ts \<lparr>x_counters = c, x_counter = n, x_tasks = (x_tasks s)[t := q]\<rparr>)
      else None)"

lemma play_run: "play p r ts s = Some s' \<Longrightarrow> rng_ok r \<Longrightarrow> (nstep p)\<^sup>*\<^sup>* s s'"
  by (induction p r ts s rule: play.induct)
     (auto split: if_splits option.splits intro: converse_rtranclp_into_rtranclp nstep.move)

lemma aims_split:
  "length (filter (\<lambda>q. bound_to n i q \<or> counted i q) ts) = length (filter (counted i) ts) + length (filter (bound_to n i) ts)"
proof -
  have "\<not> (bound_to n i q \<and> counted i q)" for q by (cases q) auto
  then show ?thesis by (induction ts) auto
qed

abbreviation last_draws :: rng where "last_draws \<equiv> (\<lambda>_ n. n - 1)"

lemma last_draws_ok: "rng_ok last_draws"
  by (simp add: rng_ok_def)

text \<open>Two selections by least connections that load the counts at the same time and collide.\<close>

lemma example_collision:
  "play ByLeastConn last_draws [0, 1, 0, 1, 0, 1, 0, 1, 0, 1] (race_start [''a'', ''b''] 2) =
     Some \<lparr>x_counters = \<lparr>c_addrs = [''a'', ''b''], c_total = [2, 0], c_inflight = [2, 0]\<rparr>, x_counter = 0,
       x_tasks = [Selected 0, Selected 0]\<rparr>"
  by (simp add: race_start_def counters_new_def numeral_2_eq_2 scan_one_def load_inflight_def Let_def)

text \<open>C6: However the atomic operations of concurrent selections and releases interleave, for each of the counting
  selectors, and although selections are decided from loads that are already stale: no call panics,
  the in-flight count of an upstream is exactly the number of selections of it that are not yet
  released, and its total is exactly the number of selections that have counted it.\<close>

theorem selections_exact:
  assumes "(nstep p)\<^sup>*\<^sup>* (race_start as k) s" and "policy_need p \<le> length as" and "length as \<le> 2 ^ 31" and "i < length as"
  shows "Unwound \<notin> set (x_tasks s)
    \<and> c_inflight (x_counters s) ! i = of_nat (length (filter ((=) (Selected i)) (x_tasks s)))
    \<and> c_total (x_counters s) ! i = of_nat (length (filter (counted i) (x_tasks s)))"
  using race_inv_reach [OF assms(1-3)] assms(4) by (auto simp: race_inv_def list_all_iff)

theorem selections_exact_witness:
  "\<exists>s. (nstep ByLeastConn)\<^sup>*\<^sup>* (race_start [''a'', ''b''] 2) s \<and> x_tasks s = [Selected 0, Selected 0]
     \<and> c_inflight (x_counters s) ! 0 = 2 \<and> c_total (x_counters s) ! 1 = 0"
  using selections_exact [OF play_run [OF example_collision last_draws_ok], of 0]
    selections_exact [OF play_run [OF example_collision last_draws_ok], of 1] play_run [OF example_collision last_draws_ok]
  by (intro exI [of _ "\<lparr>x_counters = \<lparr>c_addrs = [''a'', ''b''], c_total = [2, 0], c_inflight = [2, 0]\<rparr>, x_counter = 0,
       x_tasks = [Selected 0, Selected 0]\<rparr>"]) simp

lemma example_turns:
  "play ByRoundRobin last_draws [0, 1, 2, 1, 1] (race_start [''a'', ''b''] 3) =
     Some \<lparr>x_counters = \<lparr>c_addrs = [''a'', ''b''], c_total = [0, 1], c_inflight = [0, 0]\<rparr>, x_counter = 3,
       x_tasks = [Drawn 0, PickInflight 1, Drawn 2]\<rparr>"
  by (simp add: race_start_def counters_new_def eval_nat_numeral)

text \<open>C21: Counting round robin is fair under any concurrency: at every moment, the selections that an upstream has been
  counted for and those on their way to it are together \<open>d div n\<close> of the \<open>d\<close> numbers drawn so far, and
  one more for the first \<open>d mod n\<close> upstreams. Once no call of \<^verbatim>\<open>next\<close> is under way, the totals of any two
  upstreams differ by at most one.\<close>

theorem round_robin_fair_concurrent:
  assumes "(nstep ByRoundRobin)\<^sup>*\<^sup>* (race_start as k) s" and "as \<noteq> []" and "length as \<le> 2 ^ 31" and "k < 2 ^ 64" and "i < length as"
  shows "unat (c_total (x_counters s) ! i) + length (filter (bound_to (length as) i) (x_tasks s))
    = draws_made s div length as + (if i < draws_made s mod length as then 1 else 0)"
proof -
  have rr: "rr_inv (length as) s" and k: "length (x_tasks s) = k" using rr_inv_reach [OF assms(1-4)] by auto
  have "policy_need ByRoundRobin \<le> length as" using assms(2) by (simp add: Suc_le_eq)
  then have "c_total (x_counters s) ! i = of_nat (length (filter (counted i) (x_tasks s)))"
    using race_inv_reach [OF assms(1) _ assms(3)] assms(5) by (simp add: race_inv_def)
  moreover have "length (filter (counted i) (x_tasks s)) < 2 ^ 64"
    using length_filter_le [of "counted i" "x_tasks s"] k assms(4) by linarith
  ultimately have "unat (c_total (x_counters s) ! i) = length (filter (counted i) (x_tasks s))" by (simp add: unat_of_nat)
  then show ?thesis using rr assms(5) by (simp only: rr_inv_def aims_split)
qed

theorem round_robin_fair_concurrent_witness:
  "unat (0 :: i64) + length (filter (bound_to 2 0) [Drawn 0, PickInflight 1, Drawn 2]) = 3 div 2 + 1"
  using round_robin_fair_concurrent [OF play_run [OF example_turns last_draws_ok], of 0]
  by (simp add: draws_made_def)

end
