(* ===== verification/Proxy_Http.thy ===== *)
theory Proxy_Http
  imports Frontend
begin

text \<open>
  The HTTP front ends, \<^verbatim>\<open>crates/service-proxy/src/proxy_http.rs\<close>: the hand-written HTTP/1.1
  connection handler (read one request, forward it, answer, close) and the service that
  \<^verbatim>\<open>hyper\<close> calls for HTTP/2.

  The head of an HTTP/1.1 request is parsed by the \<^verbatim>\<open>httparse\<close> crate and responses are built by the
  \<^verbatim>\<open>http\<close> crate; both are parameters.
\<close>

section \<open>Reading a request\<close>

text \<open>What \<^verbatim>\<open>httparse::Request::parse\<close> says about a head: method, path and the raw headers in order.\<close>

datatype head_parse =
    HeadComplete "string option" "string option" "(string \<times> bytes) list"
  | HeadPartial
  | HeadError string

type_synonym httparse = "bytes \<Rightarrow> head_parse"

definition crlf2 :: bytes where "crlf2 = [CR, LF, CR, LF]"

text \<open>\<^verbatim>\<open>windows(4).position(..).map(|i| i + 4)\<close>\<close>

fun find_header_end :: "bytes \<Rightarrow> nat option" where
  "find_header_end [] = None"
| "find_header_end (b # bs) =
     (if take 4 (b # bs) = crlf2 then Some 4 else map_option Suc (find_header_end bs))"

text \<open>The loop over the parsed headers: the header map, the host and the content length.\<close>

fun scan_headers :: "(string \<times> bytes) list \<Rightarrow> headers \<times> string \<times> nat \<Rightarrow> headers \<times> string \<times> nat" where
  "scan_headers [] acc = acc"
| "scan_headers ((name, raw) # hs) (hm, host, cl) =
     (let val = from_utf8_lossy raw
      in scan_headers hs
           (hm_push name val hm,
            if eq_ignore_ascii_case name ''host'' then val else host,
            if eq_ignore_ascii_case name ''content-length''
            then (case parse_uint usize_max val of Some n \<Rightarrow> n | None \<Rightarrow> 0) else cl))"

text \<open>The loop that reads the rest of the body; the buffer of a read is as long as what is missing.\<close>

function read_rest :: "nat \<Rightarrow> bytes \<Rightarrow> seg list \<Rightarrow> (bytes, io_error) outcome \<times> seg list" where
  "read_rest cl body ss =
     (if length body < cl then
        (if isize_max < cl - length body then (Panic, ss)
         else case conn_read (cl - length body) ss of
             (Ok xs, ss') \<Rightarrow> if xs = [] then (Ok body, ss') else read_rest cl (body @ xs) ss'
           | (Err e, ss') \<Rightarrow> (Err e, ss')
           | (Panic, ss') \<Rightarrow> (Panic, ss')
           | (Pending, ss') \<Rightarrow> (Pending, ss'))
      else (Ok body, ss))"
  by pat_completeness auto
termination
  by (relation "measure (\<lambda>(cl, body, ss). segs_size ss)") (auto dest: conn_read_term)

declare read_rest.simps [simp del]

definition parse_request :: "httparse \<Rightarrow> bytes \<Rightarrow> nat \<Rightarrow> seg list \<Rightarrow> (Request, io_error) outcome \<times> seg list" where
  "parse_request hp buf hdr_end ss =
     (case hp (take hdr_end buf) of
        HeadPartial \<Rightarrow> (Err (IoError UnexpectedEof ''partial headers''), ss)
      | HeadError e \<Rightarrow> (Err (IoError InvalidData e), ss)
      | HeadComplete m p hs \<Rightarrow>
          (let method = (case m of Some x \<Rightarrow> x | None \<Rightarrow> ''GET'');
               path = (case p of Some x \<Rightarrow> x | None \<Rightarrow> ''/'');
               (hm, host, cl) = scan_headers hs ([], [], 0)
           in case read_rest cl (drop hdr_end buf) ss of
                (Ok body, ss') \<Rightarrow>
                  (Ok \<lparr>rq_method = method, rq_path = path, rq_host = host, rq_headers = hm, rq_body = take cl body\<rparr>, ss')
              | (Err e, ss') \<Rightarrow> (Err e, ss')
              | (Panic, ss') \<Rightarrow> (Panic, ss')
              | (Pending, ss') \<Rightarrow> (Pending, ss')))"

definition head_limit :: nat where "head_limit = 1024 * 1024"

function read_http11 :: "httparse \<Rightarrow> bytes \<Rightarrow> seg list \<Rightarrow> (Request, io_error) outcome \<times> seg list" where
  "read_http11 hp buf ss =
     (case conn_read 1024 ss of
        (Ok xs, ss') \<Rightarrow>
          if xs = [] then (Err (IoError UnexpectedEof ''eof before headers''), ss')
          else let buf' = buf @ xs
          in (case find_header_end buf' of
                Some hdr_end \<Rightarrow> parse_request hp buf' hdr_end ss'
              | None \<Rightarrow>
                  if head_limit < length buf' then (Err (IoError InvalidData ''headers too large''), ss')
                  else read_http11 hp buf' ss')
      | (Err e, ss') \<Rightarrow> (Err e, ss')
      | (Panic, ss') \<Rightarrow> (Panic, ss')
      | (Pending, ss') \<Rightarrow> (Pending, ss'))"
  by pat_completeness auto
termination
  by (relation "measure (\<lambda>(hp, buf, ss). segs_size ss)") (auto dest: conn_read_term)

declare read_http11.simps [simp del]

definition read_http11_request :: "httparse \<Rightarrow> tcp \<Rightarrow> (Request, io_error) outcome \<times> tcp" where
  "read_http11_request hp conn = (case read_http11 hp [] (rx conn) of (r, ss) \<Rightarrow> (r, conn\<lparr>rx := ss\<rparr>))"

definition is_benign_eof :: "io_error \<Rightarrow> bool" where
  "is_benign_eof e \<longleftrightarrow> err_kind e = UnexpectedEof \<or> err_kind e = ConnectionReset"

section \<open>The connection handler\<close>

datatype warning = WarnRead io_error | WarnWrite UpstreamError | WarnForward string UpstreamError

text \<open>What is left when the handler is done: how it ended, the client's connection, the warnings logged.\<close>

record handled =
  h_end :: "(unit, unit) outcome"
  h_conn :: tcp
  h_warns :: "warning list"

definition handle_conn :: "httparse \<Rightarrow> 'n runtime \<Rightarrow> tcp \<Rightarrow> SelectorKind \<Rightarrow> 'n ForwarderKind
    \<Rightarrow> handled \<times> SelectorKind \<times> 'n ForwarderKind" where
  "handle_conn hp rt conn sel fwd =
     (case read_http11_request hp conn of
        (Ok req, conn1) \<Rightarrow>
          (case exchange rt (\<lambda>_. req) sel fwd of
             (Ok (addr, resp), sel', fwd') \<Rightarrow>
               (case write_response (rt_order rt) resp conn1 of
                  (Ok _, conn2) \<Rightarrow> (\<lparr>h_end = Ok (), h_conn = conn2, h_warns = []\<rparr>, sel', fwd')
                | (Err e, conn2) \<Rightarrow> (\<lparr>h_end = Ok (), h_conn = conn2, h_warns = [WarnWrite e]\<rparr>, sel', fwd')
                | (Panic, conn2) \<Rightarrow> (\<lparr>h_end = Panic, h_conn = conn2, h_warns = []\<rparr>, sel', fwd')
                | (Pending, conn2) \<Rightarrow> (\<lparr>h_end = Pending, h_conn = conn2, h_warns = []\<rparr>, sel', fwd'))
           | (Err (addr, e), sel', fwd') \<Rightarrow>
               (case write_error (rt_order rt) 502 conn1 of
                  (Panic, conn2) \<Rightarrow> (\<lparr>h_end = Panic, h_conn = conn2, h_warns = [WarnForward addr e]\<rparr>, sel', fwd')
                | (Pending, conn2) \<Rightarrow> (\<lparr>h_end = Pending, h_conn = conn2, h_warns = [WarnForward addr e]\<rparr>, sel', fwd')
                | (_, conn2) \<Rightarrow> (\<lparr>h_end = Ok (), h_conn = conn2, h_warns = [WarnForward addr e]\<rparr>, sel', fwd'))
           | (Panic, sel', fwd') \<Rightarrow> (\<lparr>h_end = Panic, h_conn = conn1, h_warns = []\<rparr>, sel', fwd')
           | (Pending, sel', fwd') \<Rightarrow> (\<lparr>h_end = Pending, h_conn = conn1, h_warns = []\<rparr>, sel', fwd'))
      | (Err e, conn1) \<Rightarrow>
          (\<lparr>h_end = Ok (), h_conn = conn1, h_warns = (if is_benign_eof e then [] else [WarnRead e])\<rparr>, sel, fwd)
      | (Panic, conn1) \<Rightarrow> (\<lparr>h_end = Panic, h_conn = conn1, h_warns = []\<rparr>, sel, fwd)
      | (Pending, conn1) \<Rightarrow> (\<lparr>h_end = Pending, h_conn = conn1, h_warns = []\<rparr>, sel, fwd))"

section \<open>The service for \<^verbatim>\<open>hyper\<close>\<close>

text \<open>
  A request as \<^verbatim>\<open>hyper\<close> hands it over, with what collecting its body gives; \<open>http_build\<close> is the
  response builder of the \<^verbatim>\<open>http\<close> crate, \<open>None\<close> if the status or one of the headers is refused.
\<close>

record HttpHead =
  hq_method :: string
  hq_path_and_query :: "string option"
  hq_path :: string
  hq_headers :: "(string \<times> bytes) list"

record HyperRequest = HttpHead +
  hq_body :: "(bytes, unit) outcome"

record HyperResponse =
  hr_status :: u16
  hr_headers :: "(string \<times> bytes) list"
  hr_body :: bytes

type_synonym http_build = "u16 \<Rightarrow> (string \<times> string) list \<Rightarrow> (string \<times> bytes) list option"

text \<open>The loop over the request's headers, and the header lines the response builder is given.\<close>

definition collect_headers :: "(string \<times> bytes) list \<Rightarrow> headers" where
  "collect_headers hs = foldl (\<lambda>hm (k, v). hm_push k (from_utf8_lossy v) hm) [] hs"

definition relayed_headers :: "(headers \<Rightarrow> headers) \<Rightarrow> headers \<Rightarrow> (string \<times> string) list" where
  "relayed_headers ho hs =
     concat (map (\<lambda>(k, vs). map (Pair k) vs) (filter (\<lambda>(k, vs). \<not> response_skips k) (ho hs)))"

text \<open>\<^verbatim>\<open>builder.body(..).unwrap()\<close>\<close>

definition build_or_panic :: "http_build \<Rightarrow> u16 \<Rightarrow> (string \<times> string) list \<Rightarrow> bytes \<Rightarrow> (HyperResponse, unit) outcome" where
  "build_or_panic hb status hs body =
     (case hb status hs of
        Some hs' \<Rightarrow> Ok \<lparr>hr_status = status, hr_headers = hs', hr_body = body\<rparr>
      | None \<Rightarrow> Panic)"

definition hyper_from_upstream :: "http_build \<Rightarrow> (headers \<Rightarrow> headers) \<Rightarrow> Response \<Rightarrow> (HyperResponse, unit) outcome" where
  "hyper_from_upstream hb ho resp =
     build_or_panic hb (rs_status resp) (relayed_headers ho (rs_headers resp)) (rs_body resp)"

definition hyper_path :: "'z HttpHead_scheme \<Rightarrow> string" where
  "hyper_path req = (case hq_path_and_query req of Some pq \<Rightarrow> pq | None \<Rightarrow> hq_path req)"

definition handle_hyper_request :: "http_build \<Rightarrow> 'n runtime \<Rightarrow> HyperRequest \<Rightarrow> SelectorKind \<Rightarrow> 'n ForwarderKind
    \<Rightarrow> (HyperResponse, unit) outcome \<times> SelectorKind \<times> 'n ForwarderKind" where
  "handle_hyper_request hb rt req sel fwd =
     (case hq_body req of
        Ok body \<Rightarrow>
          (case exchange rt (\<lambda>addr. \<lparr>rq_method = hq_method req, rq_path = hyper_path req, rq_host = addr,
                    rq_headers = collect_headers (hq_headers req), rq_body = body\<rparr>) sel fwd of
             (Ok (addr, resp), sel', fwd') \<Rightarrow> (hyper_from_upstream hb (rt_order rt) resp, sel', fwd')
           | (Err (addr, e), sel', fwd') \<Rightarrow> (build_or_panic hb 502 [] ''bad gateway'', sel', fwd')
           | (Panic, sel', fwd') \<Rightarrow> (Panic, sel', fwd')
           | (Pending, sel', fwd') \<Rightarrow> (Pending, sel', fwd'))
      | Err e \<Rightarrow> (build_or_panic hb 400 [] ''failed to read body'', sel, fwd)
      | Panic \<Rightarrow> (Panic, sel, fwd)
      | Pending \<Rightarrow> (Pending, sel, fwd))"

text \<open>\<^verbatim>\<open>ProxyService\<close> shares selector and forwarder between the requests of all connections.\<close>

record 'n ProxyService =
  ps_selector :: SelectorKind
  ps_forwarder :: "'n ForwarderKind"

definition proxy_service_call :: "http_build \<Rightarrow> 'n runtime \<Rightarrow> HyperRequest \<Rightarrow> 'n ProxyService
    \<Rightarrow> (HyperResponse, unit) outcome \<times> 'n ProxyService" where
  "proxy_service_call hb rt req svc =
     (case handle_hyper_request hb rt req (ps_selector svc) (ps_forwarder svc) of
        (r, sel', fwd') \<Rightarrow> (r, \<lparr>ps_selector = sel', ps_forwarder = fwd'\<rparr>))"

section \<open>Both handlers keep the contract of a front end\<close>

interpretation http11: frontend "handle_conn hp" "\<lambda>h. h_end h = Ok ()"
proof
  fix rt i s f r s' f'
  assume "handle_conn hp rt i s f = (r, s', f')"
  then show "s' = s \<and> f' = f \<or> (\<exists>mk x. exchange rt mk s f = (x, s', f') \<and> (h_end r = Ok () \<longrightarrow> returned x))"
    unfolding handle_conn_def
    by (auto split: prod.splits outcome.splits) (metis returned.simps)+
qed

interpretation hyper: frontend "handle_hyper_request hb" returned
proof
  fix rt i s f r s' f'
  assume "handle_hyper_request hb rt i s f = (r, s', f')"
  then show "s' = s \<and> f' = f \<or> (\<exists>mk x. exchange rt mk s f = (x, s', f') \<and> (returned r \<longrightarrow> returned x))"
    unfolding handle_hyper_request_def
    by (auto split: prod.splits outcome.splits) (metis returned.simps)+
qed

section \<open>The head of a request does not depend on the segments\<close>

lemma find_header_end_bounds: "find_header_end bs = Some e \<Longrightarrow> 4 \<le> e \<and> e \<le> length bs"
proof (induction bs arbitrary: e)
  case (Cons b bs)
  show ?case
  proof (cases "take 4 (b # bs) = crlf2")
    case True
    then have "length (take 4 (b # bs)) = 4" by (simp add: crlf2_def)
    then show ?thesis using True Cons.prems by simp
  qed (use Cons in auto)
qed simp

lemma find_header_end_append: "find_header_end bs = Some e \<Longrightarrow> find_header_end (bs @ cs) = Some e"
proof (induction bs arbitrary: e)
  case (Cons b bs)
  show ?case
  proof (cases "take 4 (b # bs) = crlf2")
    case True
    then have "length (take 4 (b # bs)) = 4" by (simp add: crlf2_def)
    then have "take 4 ((b # bs) @ cs) = take 4 (b # bs)" by simp
    then show ?thesis using True Cons.prems by auto
  next
    case False
    then obtain e' where e': "find_header_end bs = Some e'" "e = Suc e'" using Cons.prems by auto
    have "4 \<le> length (b # bs)" using find_header_end_bounds [OF e'(1)] by simp
    then have "take 4 ((b # bs) @ cs) = take 4 (b # bs)" by simp
    then show ?thesis using False e' Cons.IH by auto
  qed
qed simp

lemma find_header_end_prefix:
  assumes "find_header_end (bs @ cs) = Some e" and "e \<le> length bs"
  shows "find_header_end bs = Some e"
  using assms
proof (induction bs arbitrary: e)
  case (Cons b bs)
  show ?case
  proof (cases "take 4 (b # bs @ cs) = crlf2")
    case True
    then have "e = 4" using Cons.prems by simp
    then have "take 4 (b # bs @ cs) = take 4 (b # bs)" using Cons.prems(2) by simp
    then show ?thesis using True \<open>e = 4\<close> by auto
  next
    case False
    then obtain e' where e': "find_header_end (bs @ cs) = Some e'" "e = Suc e'" using Cons.prems by auto
    have "4 \<le> e'" using find_header_end_bounds [OF e'(1)] by simp
    then have "take 4 (b # bs @ cs) = take 4 (b # bs)" using Cons.prems(2) e'(2) by simp
    then show ?thesis using False e' Cons.IH [OF e'(1)] Cons.prems(2) by auto
  qed
qed (use find_header_end_bounds in fastforce)

lemma find_header_end_take:
  assumes "find_header_end bs = Some e" and "bs = buf @ rest"
  shows "find_header_end buf = (if e \<le> length buf then Some e else None)"
proof (cases "e \<le> length buf")
  case False
  then have "find_header_end buf \<noteq> Some e'" for e'
    using find_header_end_append [of buf e' rest] find_header_end_bounds [of buf e'] assms by auto
  then show ?thesis using False by (cases "find_header_end buf") auto
next
  case True
  then show ?thesis using assms find_header_end_prefix [of buf rest e] by simp
qed

text \<open>The request that a whole byte sequence stands for.\<close>

definition http11_spec :: "httparse \<Rightarrow> bytes \<Rightarrow> (Request, io_error) outcome" where
  "http11_spec hp bs =
     (case find_header_end bs of
        None \<Rightarrow> Err (IoError UnexpectedEof ''eof before headers'')
      | Some e \<Rightarrow>
          (case hp (take e bs) of
             HeadPartial \<Rightarrow> Err (IoError UnexpectedEof ''partial headers'')
           | HeadError m \<Rightarrow> Err (IoError InvalidData m)
           | HeadComplete m p hs \<Rightarrow>
               (case scan_headers hs ([], [], 0) of
                  (hm, host, cl) \<Rightarrow>
                    Ok \<lparr>rq_method = (case m of Some x \<Rightarrow> x | None \<Rightarrow> ''GET''),
                        rq_path = (case p of Some x \<Rightarrow> x | None \<Rightarrow> ''/''),
                        rq_host = host, rq_headers = hm, rq_body = take cl (drop e bs)\<rparr>)))"

text \<open>The sizes for which it does: a head of at most one mebibyte, a body that can be allocated.\<close>

definition http11_fits :: "httparse \<Rightarrow> bytes \<Rightarrow> bool" where
  "http11_fits hp bs =
     (case find_header_end bs of
        None \<Rightarrow> length bs \<le> head_limit
      | Some e \<Rightarrow> e \<le> head_limit \<and>
          (case hp (take e bs) of
             HeadComplete m p hs \<Rightarrow> snd (snd (scan_headers hs ([], [], 0))) \<le> isize_max
           | _ \<Rightarrow> True))"

lemma read_rest_refines:
  assumes "good_segs ss" and "cl \<le> isize_max"
  shows "\<exists>body' ss'. read_rest cl body ss = (Ok body', ss') \<and> take cl body' = take cl (body @ flat ss)"
  using assms
proof (induction cl body ss rule: read_rest.induct)
  case (1 cl body ss)
  show ?case
  proof (cases "length body < cl")
    case True
    from "1.prems"(1) True obtain xs ss' where r: "conn_read (cl - length body) ss = (Ok xs, ss')"
      "flat ss = xs @ flat ss'" "good_segs ss'" "xs = [] \<longrightarrow> ss = [] \<and> ss' = []"
      using conn_read_good [of ss "cl - length body"] by auto
    have fits: "\<not> isize_max < cl - length body" using "1.prems"(2) by linarith
    show ?thesis
    proof (cases "xs = []")
      case True
      then show ?thesis using r fits \<open>length body < cl\<close> by (simp add: read_rest.simps [of cl body])
    next
      case False
      then show ?thesis
        using "1.IH" [OF True fits r(1) [symmetric] refl False r(3) "1.prems"(2)] r(1,2) True fits
        by (simp add: read_rest.simps [of cl body ss])
    qed
  qed (simp add: read_rest.simps [of cl body ss])
qed

lemma parse_request_refines:
  assumes "good_segs ss" and "find_header_end (buf @ flat ss) = Some e" and "e \<le> length buf"
    and "http11_fits hp (buf @ flat ss)"
  shows "fst (parse_request hp buf e ss) = http11_spec hp (buf @ flat ss)"
proof (cases "hp (take e buf)")
  case (HeadComplete m p hs)
  obtain hm host cl where sc: "scan_headers hs ([], [], 0) = (hm, host, cl)" by (metis prod_cases3)
  have "cl \<le> isize_max" using assms(2-4) HeadComplete sc by (simp add: http11_fits_def)
  then obtain body' ss' where "read_rest cl (drop e buf) ss = (Ok body', ss')"
    "take cl body' = take cl (drop e buf @ flat ss)"
    using read_rest_refines [OF assms(1)] by blast
  then show ?thesis using assms(2,3) HeadComplete sc by (simp add: parse_request_def http11_spec_def)
qed (use assms(2,3) in \<open>simp_all add: parse_request_def http11_spec_def\<close>)

lemma read_http11_refines:
  assumes "good_segs ss" and "http11_fits hp (buf @ flat ss)" and "find_header_end buf = None"
    and "length buf \<le> head_limit"
  shows "fst (read_http11 hp buf ss) = http11_spec hp (buf @ flat ss)"
  using assms
proof (induction hp buf ss rule: read_http11.induct)
  case (1 hp buf ss)
  obtain xs ss' where r: "conn_read 1024 ss = (Ok xs, ss')"
    "flat ss = xs @ flat ss'" "good_segs ss'" "xs = [] \<longrightarrow> ss = [] \<and> ss' = []"
    using conn_read_good [OF "1.prems"(1), of 1024] by auto
  consider (eof) "xs = []" | (found) e where "xs \<noteq> []" "find_header_end (buf @ xs) = Some e"
    | (more) "xs \<noteq> []" "find_header_end (buf @ xs) = None" by fastforce
  then show ?case
  proof cases
    case eof
    then show ?thesis using r "1.prems"(3) by (simp add: read_http11.simps [of hp buf] http11_spec_def)
  next
    case (found e)
    have "find_header_end ((buf @ xs) @ flat ss') = Some e" by (rule find_header_end_append [OF found(2)])
    then show ?thesis
      using parse_request_refines [OF r(3), of "buf @ xs" e hp] found r(1,2) "1.prems"(2) find_header_end_bounds [OF found(2)]
      by (simp add: read_http11.simps [of hp buf ss])
  next
    case more
    have "length (buf @ xs) \<le> head_limit"
    proof (cases "find_header_end (buf @ flat ss)")
      case None
      then show ?thesis using "1.prems"(2) r(2) by (simp add: http11_fits_def)
    next
      case (Some e)
      then have "\<not> e \<le> length (buf @ xs)"
        using find_header_end_take [OF Some, of "buf @ xs" "flat ss'"] more(2) r(2) by auto
      then show ?thesis using "1.prems"(2) Some by (simp add: http11_fits_def)
    qed
    then show ?thesis
      using "1.IH" [OF r(1) [symmetric] refl more(1) refl more(2) _ r(3)] r(1,2) more "1.prems"(2)
      by (simp add: read_http11.simps [of hp buf ss] not_less)
  qed
qed

text \<open>C9: Reading an HTTP/1.1 request refines a one-pass parser of the byte sequence: however the client's
  bytes are cut into segments, the result, errors included, is the request (or error) of the whole
  sequence, for heads of up to a mebibyte.\<close>

theorem read_request_segmentation:
  assumes "good_segs (rx conn)" and "http11_fits hp (flat (rx conn))"
  shows "fst (read_http11_request hp conn) = http11_spec hp (flat (rx conn))"
  using read_http11_refines [OF assms(1), of hp "[]"] assms(2)
  by (simp add: read_http11_request_def split_beta)

text \<open>A head as a client could send it, and a parser that recognises it.\<close>

definition example_head :: bytes where
  "example_head = ''POST /echo HTTP/1.1'' @ crlf @ ''Content-Length: 2'' @ crlf @ crlf"

definition example_parse :: httparse where
  "example_parse bs = (if bs = example_head then HeadComplete (Some ''POST'') (Some ''/echo'') [(''Content-Length'', ''2'')]
     else HeadError ''unexpected'')"

definition example_request :: "bytes \<Rightarrow> Request" where
  "example_request body = \<lparr>rq_method = ''POST'', rq_path = ''/echo'', rq_host = [],
     rq_headers = [(''Content-Length'', [''2''])], rq_body = body\<rparr>"

lemma example_scan: "scan_headers [(''Content-Length'', ''2'')] ([], [], 0) = ([(''Content-Length'', [''2''])], [], 2)"
proof -
  have "from_utf8_lossy ''2'' = ''2''" by (rule from_utf8_lossy_valid) (rule utf8_valid_ascii, simp)
  moreover have "eq_ignore_ascii_case ''Content-Length'' ''content-length''" by code_simp
  moreover have "\<not> eq_ignore_ascii_case ''Content-Length'' ''host''" by code_simp
  moreover have "parse_uint usize_max ''2'' = Some 2"
    by (simp add: parse_uint_def is_digit_def digits_value_def usize_max_def)
  ultimately show ?thesis by simp
qed

lemma example_spec:
  "http11_spec example_parse (example_head @ body) = Ok (example_request (take 2 body))"
  "http11_fits example_parse (example_head @ body)"
proof -
  have "find_header_end example_head = Some (length example_head)"
    by (simp add: example_head_def crlf2_def)
  then have e: "find_header_end (example_head @ body) = Some (length example_head)" by (rule find_header_end_append)
  show "http11_spec example_parse (example_head @ body) = Ok (example_request (take 2 body))"
    using e example_scan by (simp add: http11_spec_def example_parse_def example_request_def)
  have "length example_head \<le> head_limit" by (simp add: example_head_def head_limit_def)
  then show "http11_fits example_parse (example_head @ body)"
    using e example_scan by (simp add: http11_fits_def example_parse_def isize_max_def)
qed

theorem read_request_segmentation_witness:
  "fst (read_http11_request example_parse
     \<lparr>rx = [Data (take 10 example_head), Data (drop 10 example_head @ ''h''), Data ''i''], tx = [], wr_fault = None\<rparr>)
   = Ok (example_request ''hi'')"
proof -
  let ?c = "\<lparr>rx = [Data (take 10 example_head), Data (drop 10 example_head @ ''h''), Data ''i''], tx = [], wr_fault = None\<rparr>"
  have f: "flat (rx ?c) = example_head @ ''hi''"
    using append_take_drop_id [of 10 example_head] by (simp flip: append_assoc)
  have "good_segs (rx ?c)" by (simp add: example_head_def)
  from read_request_segmentation [OF this, of example_parse] show ?thesis
    unfolding f using example_spec [of "''hi''"] by simp
qed

text \<open>A head without end is refused once more than a mebibyte has arrived, whatever the segments: at most
  1024 bytes more than that are ever buffered.\<close>

lemma oversized_head_refused:
  assumes "good_segs (rx conn)" and "head_limit < length (flat (rx conn))"
    and "find_header_end (take (head_limit + 1024) (flat (rx conn))) = None"
  shows "fst (read_http11_request hp conn) = Err (IoError InvalidData ''headers too large'')"
proof -
  have "fst (read_http11 hp buf ss) = Err (IoError InvalidData ''headers too large'')"
    if "good_segs ss" "head_limit < length (buf @ flat ss)" "length buf \<le> head_limit"
      "find_header_end (take (head_limit + 1024) (buf @ flat ss)) = None" for buf ss
    using that
  proof (induction hp buf ss rule: read_http11.induct)
    case (1 hp buf ss)
    obtain xs ss' where r: "conn_read 1024 ss = (Ok xs, ss')" "flat ss = xs @ flat ss'" "good_segs ss'"
      "length xs \<le> 1024" "xs = [] \<longrightarrow> ss = [] \<and> ss' = []"
      using conn_read_good [OF "1.prems"(1), of 1024] by auto
    have ne: "xs \<noteq> []" using r(5) "1.prems"(2,3) by auto
    have "take (head_limit + 1024) (buf @ flat ss) = (buf @ xs) @ take (head_limit + 1024 - length (buf @ xs)) (flat ss')"
      using "1.prems"(3) r(2,4) by simp
    then have none: "find_header_end (buf @ xs) = None"
      using find_header_end_append [of "buf @ xs"] "1.prems"(4) by (cases "find_header_end (buf @ xs)") auto
    show ?case
    proof (cases "head_limit < length (buf @ xs)")
      case True
      then show ?thesis using r(1) ne none by (simp add: read_http11.simps [of hp buf ss])
    next
      case False
      then show ?thesis
        using "1.IH" [OF r(1) [symmetric] refl ne refl none False r(3)] "1.prems"(2,4) r(1,2) ne none
        by (simp add: read_http11.simps [of hp buf ss])
    qed
  qed
  from this [of "rx conn" "[]"] show ?thesis using assms by (simp add: read_http11_request_def split_beta)
qed

lemma find_header_end_no_cr: "CR \<notin> set bs \<Longrightarrow> find_header_end bs = None"
  by (induction bs) (auto simp: crlf2_def)

section \<open>What the client gets\<close>

lemma read_http11_request_keeps:
  "read_http11_request hp conn = (r, conn') \<Longrightarrow> tx conn' = tx conn \<and> wr_fault conn' = wr_fault conn"
  by (auto simp: read_http11_request_def split: prod.splits)

lemma request_read:
  assumes "good_segs (rx conn)" and "http11_fits hp (flat (rx conn))" and "http11_spec hp (flat (rx conn)) = Ok req"
  obtains conn1 where "read_http11_request hp conn = (Ok req, conn1)" and "wr_fault conn1 = wr_fault conn"
    and "tx conn1 = tx conn"
proof -
  have "fst (read_http11_request hp conn) = Ok req"
    using read_http11_refines [OF assms(1), of hp "[]"] assms(2,3) by (simp add: read_http11_request_def split_beta)
  then obtain conn1 where "read_http11_request hp conn = (Ok req, conn1)"
    by (cases "read_http11_request hp conn") auto
  then show ?thesis using that read_http11_request_keeps by blast
qed

text \<open>C8: End to end over a direct dial: when the client's bytes are a request and the selected upstream
  answers with a response in the proxy's own format, the client receives exactly one response,
  with the status and body of the upstream's and its headers (\<^verbatim>\<open>Connection\<close> and \<^verbatim>\<open>Content-Length\<close>
  replaced), and nothing is logged.\<close>

theorem handle_conn_relays:
  assumes "good_segs (rx conn)" and "http11_fits hp (flat (rx conn))"
    and "http11_spec hp (flat (rx conn)) = Ok req" and "wr_fault conn = None"
    and "sel_session (new_selector as st) sel M H" and "length as \<le> 2 ^ 31" and "rng_ok (rt_rng rt)"
    and "sel_next (rt_rng rt) sel = (Ok (addr, tok), sel1)" and "rt_net rt addr = Connected up"
    and "answers up ho' resp"
  shows "\<exists>conn'. fst (handle_conn hp rt conn sel DialF) = \<lparr>h_end = Ok (), h_conn = conn', h_warns = []\<rparr>
    \<and> tx conn' = tx conn @ response_bytes (rt_order rt) (relayed ho' resp)"
proof -
  obtain conn1 where req: "read_http11_request hp conn = (Ok req, conn1)"
    and c1: "wr_fault conn1 = None" "tx conn1 = tx conn"
    using request_read [OF assms(1-3)] assms(4) by metis
  obtain sel2 where "exchange rt (\<lambda>_. req) sel DialF = (Ok (addr, relayed ho' resp), sel2, DialF)"
    using exchange_returns [OF assms(5-8) forwarder_dial_answers [OF assms(9,10)], of "\<lambda>_. req"] by auto
  then show ?thesis using req c1 by (simp add: handle_conn_def stream_simps)
qed

definition example_conn :: tcp where
  "example_conn = \<lparr>rx = [Data (example_head @ ''hi'')], tx = [], wr_fault = None\<rparr>"

definition example_runtime :: "connect_result \<Rightarrow> unit runtime" where
  "example_runtime cr =
     \<lparr>rt_notify = \<lparr>nt_new = (), nt_one = id, nt_wait = \<lambda>_. id, nt_done = \<lambda>_ _. None\<rparr>,
      rt_net = \<lambda>_. cr, rt_order = id, rt_rng = \<lambda>_ _. 0, rt_task = 0\<rparr>"

lemma example_conn_reads:
  "good_segs (rx example_conn)" "http11_fits example_parse (flat (rx example_conn))"
  "http11_spec example_parse (flat (rx example_conn)) = Ok (example_request ''hi'')" "wr_fault example_conn = None"
  "tx example_conn = []"
  using example_spec [of "''hi''"] by (simp_all add: example_conn_def)

lemma example_next: "sel_next r (new_selector [''u:1''] ''fixed'') = (Ok (''u:1'', -1), new_selector [''u:1''] ''fixed'')"
  by (simp add: sel_simps fixed_next_def)

theorem handle_conn_relays_witness:
  "\<exists>conn'. fst (handle_conn example_parse (example_runtime (Connected \<lparr>rx = [Data (response_bytes id
        \<lparr>rs_status = 200, rs_headers = [], rs_body = ''hi''\<rparr>)], tx = [], wr_fault = None\<rparr>)) example_conn
        (new_selector [''u:1''] ''fixed'') DialF) = \<lparr>h_end = Ok (), h_conn = conn', h_warns = []\<rparr>
    \<and> tx conn' = tx example_conn @ response_bytes id (relayed id \<lparr>rs_status = 200, rs_headers = [], rs_body = ''hi''\<rparr>)"
  using handle_conn_relays [OF example_conn_reads(1-4) sel_session.fresh [of "new_selector [''u:1''] ''fixed''"] _ _ example_next,
      of "example_runtime (Connected \<lparr>rx = [Data (response_bytes id
        \<lparr>rs_status = 200, rs_headers = [], rs_body = ''hi''\<rparr>)], tx = [], wr_fault = None\<rparr>)"
      _ id "\<lparr>rs_status = 200, rs_headers = [], rs_body = ''hi''\<rparr>"]
  by (simp add: example_runtime_def rng_ok_def answers_def hash_order_def sendable_def isize_max_def response_bytes_def)

text \<open>C33: An upstream that cannot be dialled is a 502: when the selected upstream has to be dialled, directly or for a
  pool, and the connection fails or is not there within the dial timeout, the client receives a
  complete \<^verbatim>\<open>502 Bad Gateway\<close> response and one warning names the upstream and the error.\<close>

theorem handle_conn_bad_gateway:
  assumes "good_segs (rx conn)" and "http11_fits hp (flat (rx conn))"
    and "http11_spec hp (flat (rx conn)) = Ok req" and "wr_fault conn = None"
    and "sel_session (new_selector as st) sel M H" and "length as \<le> 2 ^ 31" and "rng_ok (rt_rng rt)"
    and "sel_next (rt_rng rt) sel = (Ok (addr, tok), sel1)" and "undialable (rt_net rt) addr e"
    and "has_to_dial addr f" and "hash_order (rt_order rt)"
  shows "\<exists>conn'. fst (handle_conn hp rt conn sel f)
      = \<lparr>h_end = Ok (), h_conn = conn', h_warns = [WarnForward addr (DialError e)]\<rparr>
    \<and> tx conn' = tx conn @ ''HTTP/1.1 '' @ show_nat 502 @ '' Bad Gateway'' @ crlf
        @ ''Content-Length: '' @ show_nat 0 @ crlf @ ''Connection: close'' @ crlf @ crlf"
proof -
  obtain conn1 where req: "read_http11_request hp conn = (Ok req, conn1)"
    and c1: "wr_fault conn1 = None" "tx conn1 = tx conn"
    using request_read [OF assms(1-3)] assms(4) by metis
  obtain f' where "forwarder_forward rt addr req f = (Err (DialError e), f')"
    using forwarder_undialable [OF assms(9,10), of req] by (metis prod.collapse)
  then obtain sel2 where "exchange rt (\<lambda>_. req) sel f = (Err (addr, DialError e), sel2, f')"
    using exchange_returns [OF assms(5-8), of "\<lambda>_. req" f "Err (DialError e)" f'] by auto
  moreover have "rt_order rt [] = []" using assms(11) by (metis hash_order_def mset_zero_iff)
  ultimately show ?thesis using req c1
    by (simp add: handle_conn_def write_error_def stream_simps response_bytes_def reason_phrase_def)
qed

theorem handle_conn_bad_gateway_witness:
  "\<exists>conn'. fst (handle_conn example_parse (example_runtime ConnectElapsed) example_conn (new_selector [''u:1''] ''fixed'')
        (PoolF (manager_new (rt_notify (example_runtime ConnectElapsed)) [''u:1''] 1)))
      = \<lparr>h_end = Ok (), h_conn = conn', h_warns = [WarnForward ''u:1'' (DialError (IoError TimedOut ''dial timeout''))]\<rparr>
    \<and> tx conn' = tx example_conn @ ''HTTP/1.1 '' @ show_nat 502 @ '' Bad Gateway'' @ crlf
        @ ''Content-Length: '' @ show_nat 0 @ crlf @ ''Connection: close'' @ crlf @ crlf"
  by (rule handle_conn_bad_gateway [OF example_conn_reads(1-4) sel_session.fresh [of "new_selector [''u:1''] ''fixed''"] _ _ example_next])
     (simp_all add: example_runtime_def rng_ok_def hash_order_def undialable_def manager_new_lookup pool_new_def)

section \<open>Accounting across a request\<close>

text \<open>A connection that is handled to its end leaves no trace in the accounting: every in-flight counter
  of the selector is what it was, and every pool has exactly the slots in use that it had, whether
  the request was answered, refused, or could not be read.\<close>

lemma handle_conn_balanced:
  assumes "handle_conn hp rt conn s f = (h, s', f')" and "h_end h = Ok ()"
    and "sel_session (new_selector as st) s M H" and "length as \<le> 2 ^ 31" and "rng_ok (rt_rng rt)"
    and "fwd_inv held f"
  shows "map_option c_inflight (counters_of s') = map_option c_inflight (counters_of s) \<and> fwd_inv held f'"
  using http11.keeps_inflight [OF assms(1,2,3,5,4)] http11.keeps_slots [OF assms(1,2,6)] by blast

text \<open>The head of a response that announces a body too large to allocate.\<close>

definition huge_head :: "nat \<Rightarrow> bytes" where
  "huge_head n = ''HTTP/1.1 '' @ show_nat 200 @ '' OK'' @ crlf @ header_line ''Content-Length'' (show_nat n) @ crlf"

lemma parse_huge:
  assumes "isize_max < n" and "n \<le> usize_max"
  shows "parse_response (huge_head n @ rest) = Panic"
proof -
  let ?st = "''HTTP/1.1 '' @ show_nat 200 @ '' '' @ reason_phrase 200"
  have line: "parse_line (huge_head n @ rest) = Ok (?st @ crlf, header_line ''Content-Length'' (show_nat n) @ crlf @ rest)"
    using parse_line_crlf [OF status_line_carriable(2,1), of 200 "header_line ''Content-Length'' (show_nat n) @ crlf @ rest"]
    by (simp add: huge_head_def reason_phrase_def)
  have status: "parse_status (?st @ crlf) = Ok 200"
    using parse_status_written [of 200 "reason_phrase 200"] by (simp add: u16_max_def)
  have p: "list_all plain ''Content-Length''" by (simp add: plain_def)
  have "parse_headers [] None (header_line ''Content-Length'' (show_nat n) @ crlf @ rest)
      = Ok (([(''Content-Length'', [show_nat n])], Some n), rest)"
    using parse_headers_plain_line [OF p _ show_nat_plain [of n]] assms(2)
    by (simp add: content_length_name parse_uint_show_nat parse_headers_blank [simplified])
  with line status assms(1) show ?thesis by (simp add: parse_response_def parse_body_def)
qed

text \<open>C31: An upstream can make the proxy lose count: a \<^verbatim>\<open>Content-Length\<close> above the largest allocation panics
  in \<^verbatim>\<open>read_response\<close> between \<^verbatim>\<open>next\<close> and \<^verbatim>\<open>release\<close>, so that the client gets no answer and the
  selector stays as \<^verbatim>\<open>next\<close> left it: the request counts as in flight for ever.\<close>

theorem huge_length_leaks_inflight:
  assumes "good_segs (rx conn)" and "http11_fits hp (flat (rx conn))"
    and "http11_spec hp (flat (rx conn)) = Ok req"
    and "sel_next (rt_rng rt) sel = (Ok (addr, tok), sel1)" and "rt_net rt addr = Connected up"
    and "wr_fault up = None" and "good_segs (rx up)" and "flat (rx up) = huge_head n @ rest"
    and "isize_max < n" and "n \<le> usize_max"
  shows "\<exists>conn'. handle_conn hp rt conn sel DialF = (\<lparr>h_end = Panic, h_conn = conn', h_warns = []\<rparr>, sel1, DialF)
    \<and> tx conn' = tx conn"
proof -
  obtain conn1 where req: "read_http11_request hp conn = (Ok req, conn1)" and c1: "tx conn1 = tx conn"
    using request_read [OF assms(1-3)] by metis
  have "forward (rt_order rt) req up = read_response (up\<lparr>tx := tx up @ request_bytes (rt_order rt) req\<rparr>)"
    using assms(6) by (simp add: forward_def stream_simps)
  then have "fst (forward (rt_order rt) req up) = Panic"
    using read_response_parse [of "up\<lparr>tx := tx up @ request_bytes (rt_order rt) req\<rparr>"] assms(7,8)
      parse_huge [OF assms(9,10), of rest] by simp
  then have "forward_http (rt_order rt) (rt_net rt) addr req = Panic"
    using assms(5) by (simp add: forward_http_def dial_def)
  then show ?thesis using req c1 assms(4) by (simp add: handle_conn_def exchange_def)
qed

theorem huge_length_leaks_inflight_witness:
  "map_option c_inflight (counters_of (fst (snd (handle_conn example_parse
       (example_runtime (Connected \<lparr>rx = [Data (huge_head usize_max)], tx = [], wr_fault = None\<rparr>))
       example_conn (new_selector [''u:1''] LB_ROUND_ROBIN) DialF)))) = Some [1]"
proof -
  let ?rt = "example_runtime (Connected \<lparr>rx = [Data (huge_head usize_max)], tx = [], wr_fault = None\<rparr>)"
  let ?s = "new_selector [''u:1''] LB_ROUND_ROBIN"
  let ?s1 = "CountingRoundRobinK \<lparr>crr_counters = \<lparr>c_addrs = [''u:1''], c_total = [1], c_inflight = [1]\<rparr>, crr_counter = 1\<rparr>"
  have nxt: "sel_next (rt_rng ?rt) ?s = (Ok (''u:1'', 0), ?s1)"
    by (simp add: sel_simps crr_next_def pick_def)
  have "\<exists>conn'. handle_conn example_parse ?rt example_conn ?s DialF
      = (\<lparr>h_end = Panic, h_conn = conn', h_warns = []\<rparr>, ?s1, DialF) \<and> tx conn' = tx example_conn"
    by (rule huge_length_leaks_inflight [OF example_conn_reads(1-3) nxt, where n = usize_max and rest = "[]"
          and up = "\<lparr>rx = [Data (huge_head usize_max)], tx = [], wr_fault = None\<rparr>"])
       (simp_all add: example_runtime_def huge_head_def usize_max_def isize_max_def)
  then show ?thesis by auto
qed

lemma request_bytes_length:
  "\<exists>pre post. request_bytes ho req = pre @ ''Content-Length: '' @ show_nat (length (rq_body req)) @ crlf @ post"
  by (intro exI [of _ "rq_method req @ '' '' @ rq_path req @ '' HTTP/1.1'' @ crlf
     @ (if rq_host req \<noteq> [] then ''Host: '' @ rq_host req @ crlf else [])
     @ concat (map (\<lambda>(k, vs). if request_skips k then [] else header_lines (k, vs)) (ho (rq_headers req)))"]
     exI [of _ "''Connection: keep-alive'' @ crlf @ crlf @ (if rq_body req \<noteq> [] then rq_body req else [])"])
     (simp add: request_bytes_def)

text \<open>C37: A client that disconnects in the middle of its body is not noticed: the request is accepted with
  the bytes that arrived, and it is sent upstream as a complete request of that shorter length.\<close>

theorem short_request_forwarded:
  assumes "good_segs (rx conn)" and "http11_fits hp (flat (rx conn))"
    and "find_header_end (flat (rx conn)) = Some e" and "hp (take e (flat (rx conn))) = HeadComplete m p hs"
    and "scan_headers hs ([], [], 0) = (hm, host, cl)" and "length (flat (rx conn)) < e + cl"
  shows "\<exists>req pre post. fst (read_http11_request hp conn) = Ok req \<and> rq_body req = drop e (flat (rx conn))
    \<and> request_bytes ho req = pre @ ''Content-Length: '' @ show_nat (length (flat (rx conn)) - e) @ crlf @ post"
proof -
  let ?b = "drop e (flat (rx conn))"
  let ?req = "\<lparr>rq_method = (case m of Some x \<Rightarrow> x | None \<Rightarrow> ''GET''), rq_path = (case p of Some x \<Rightarrow> x | None \<Rightarrow> ''/''),
     rq_host = host, rq_headers = hm, rq_body = ?b\<rparr>"
  have "http11_spec hp (flat (rx conn)) = Ok ?req" using assms(3-6) by (simp add: http11_spec_def)
  then have "fst (read_http11_request hp conn) = Ok ?req"
    using request_read [OF assms(1,2)] by (metis fst_conv)
  moreover have "\<exists>pre post. request_bytes ho ?req = pre @ ''Content-Length: '' @ show_nat (length ?b) @ crlf @ post"
    using request_bytes_length [of ho ?req] by auto
  ultimately show ?thesis by (intro exI [of _ ?req]) simp
qed

theorem short_request_forwarded_witness:
  "\<exists>req pre post. fst (read_http11_request example_parse \<lparr>rx = [Data (example_head @ ''h'')], tx = [], wr_fault = None\<rparr>) = Ok req
    \<and> rq_body req = drop (length example_head) (flat [Data (example_head @ ''h'')])
    \<and> request_bytes id req = pre @ ''Content-Length: ''
        @ show_nat (length (flat [Data (example_head @ ''h'')]) - length example_head) @ crlf @ post"
proof -
  let ?c = "\<lparr>rx = [Data (example_head @ ''h'')], tx = [], wr_fault = None\<rparr>"
  have e: "find_header_end (flat (rx ?c)) = Some (length example_head)"
    by (simp add: example_head_def crlf2_def)
  have f: "http11_fits example_parse (flat (rx ?c))" using example_spec(2) [of "''h''"] by simp
  show ?thesis
    using short_request_forwarded [of ?c example_parse "length example_head", OF _ f e _ example_scan, of "Some ''POST''" "Some ''/echo''" id]
    by (simp add: example_parse_def)
qed

section \<open>The service for \<^verbatim>\<open>hyper\<close>: what it answers\<close>

text \<open>
  What the service relies on of the response builder: a status below 100 or above 999 is refused,
  and a valid status alone is accepted.
\<close>

definition http_build_laws :: "http_build \<Rightarrow> bool" where
  "http_build_laws hb \<longleftrightarrow> (\<forall>c hs. unat c < 100 \<or> 999 < unat c \<longrightarrow> hb c hs = None)
     \<and> (\<forall>c. 100 \<le> unat c \<and> unat c \<le> 999 \<longrightarrow> hb c [] = Some [])"

text \<open>C39: The HTTP/2 service panics on a status that the response builder refuses: an upstream that answers
  with a status outside 100 to 999, such as 42, is relayed by the HTTP/1.1 front end but unwinds the
  HTTP/2 handler at \<^verbatim>\<open>unwrap\<close>, after the selector's token has been given back.\<close>

theorem hyper_bad_status_panics:
  assumes "http_build_laws hb" and "hq_body req = Ok body"
    and "sel_session (new_selector as st) sel M H" and "length as \<le> 2 ^ 31" and "rng_ok (rt_rng rt)"
    and "sel_next (rt_rng rt) sel = (Ok (addr, tok), sel1)" and "rt_net rt addr = Connected up"
    and "answers up ho' resp" and "unat (rs_status resp) < 100 \<or> 999 < unat (rs_status resp)"
  shows "\<exists>sel2. handle_hyper_request hb rt req sel DialF = (Panic, sel2, DialF) \<and> sel_release tok sel1 = (Ok (), sel2)"
proof -
  let ?mk = "\<lambda>addr. \<lparr>rq_method = hq_method req, rq_path = hyper_path req, rq_host = addr,
      rq_headers = collect_headers (hq_headers req), rq_body = body\<rparr>"
  obtain sel2 where rel: "sel_release tok sel1 = (Ok (), sel2)"
    and ex: "exchange rt ?mk sel DialF = (Ok (addr, relayed ho' resp), sel2, DialF)"
    using exchange_returns [OF assms(3-6) forwarder_dial_answers [OF assms(7,8)], of ?mk] by auto
  have "hyper_from_upstream hb (rt_order rt) (relayed ho' resp) = Panic"
    using assms(1,9) by (auto simp: hyper_from_upstream_def build_or_panic_def http_build_laws_def relayed_def)
  then show ?thesis using rel ex assms(2) by (simp add: handle_hyper_request_def)
qed

definition example_build :: http_build where
  "example_build c hs = (if 100 \<le> unat c \<and> unat c \<le> 999 then Some hs else None)"

theorem hyper_bad_status_panics_witness:
  "\<exists>sel2. handle_hyper_request example_build (example_runtime (Connected \<lparr>rx = [Data (response_bytes id
        \<lparr>rs_status = 42, rs_headers = [], rs_body = []\<rparr>)], tx = [], wr_fault = None\<rparr>))
      \<lparr>hq_method = ''GET'', hq_path_and_query = None, hq_path = ''/'', hq_headers = [], hq_body = Ok []\<rparr>
      (new_selector [''u:1''] ''fixed'') DialF = (Panic, sel2, DialF)
    \<and> sel_release (-1) (new_selector [''u:1''] ''fixed'') = (Ok (), sel2)"
  by (rule hyper_bad_status_panics [OF _ _ sel_session.fresh _ _ example_next, where ho' = id
        and resp = "\<lparr>rs_status = 42, rs_headers = [], rs_body = []\<rparr>" and body = "[]"
        and up = "\<lparr>rx = [Data (response_bytes id \<lparr>rs_status = 42, rs_headers = [], rs_body = []\<rparr>)], tx = [], wr_fault = None\<rparr>"])
     (auto simp: example_build_def http_build_laws_def example_runtime_def rng_ok_def answers_def hash_order_def sendable_def response_bytes_def)

end
