(* ===== verification/Admin_Endpoints.thy ===== *)
theory Admin_Endpoints
  imports Proxy_Http
begin

text \<open>
  The operator's endpoints: the statistics of the selector (\<^verbatim>\<open>serve_stats\<close> in
  \<^verbatim>\<open>crates/service-proxy/src/main.rs\<close>), CPU profiles (\<^verbatim>\<open>pprof_server.rs\<close>) and the counters of the Tokio
  runtime (\<^verbatim>\<open>tokio_metrics_server.rs\<close>). JSON encoding, the profiler and the runtime's counters are
  parameters.
\<close>

section \<open>Statistics\<close>

text \<open>\<^verbatim>\<open>q.split('&').any(|p| p == "reset=1")\<close>\<close>

definition wants_reset :: "string option \<Rightarrow> bool" where
  "wants_reset query = (case query of None \<Rightarrow> False | Some q \<Rightarrow> list_ex (\<lambda>p. p = ''reset=1'') (split_char (CHR ''&'') q))"

definition stats_handle :: "(UpstreamStat list \<Rightarrow> bytes option) \<Rightarrow> string \<Rightarrow> string \<Rightarrow> string option \<Rightarrow> SelectorKind
    \<Rightarrow> (HyperResponse, unit) outcome \<times> SelectorKind" where
  "stats_handle to_vec method path query sel =
     (if method = ''GET'' \<and> path = ''/stats'' then
        (case sel_stats (wants_reset query) sel of
           (Ok st, sel') \<Rightarrow>
             (let stats = (case st of Some xs \<Rightarrow> xs | None \<Rightarrow> []);
                  body = (case to_vec stats of Some b \<Rightarrow> b | None \<Rightarrow> [])
              in (Ok \<lparr>hr_status = 200, hr_headers = [(''content-type'', ''application/json'')], hr_body = body\<rparr>, sel'))
         | (Err e, sel') \<Rightarrow> (Err e, sel')
         | (Panic, sel') \<Rightarrow> (Panic, sel')
         | (Pending, sel') \<Rightarrow> (Pending, sel'))
      else (Ok \<lparr>hr_status = 404, hr_headers = [], hr_body = []\<rparr>, sel))"

section \<open>CPU profiles\<close>

datatype Format = Protobuf | Flamegraph

text \<open>
  The profiler: starting it, the report after so many seconds, its two encodings; the protobuf
  encoding also says whether there were no samples.
\<close>

record 'r profiler =
  pf_start :: "(unit, string) outcome"
  pf_report :: "nat \<Rightarrow> ('r, string) outcome"
  pf_pprof :: "'r \<Rightarrow> (bool \<times> (bytes, string) outcome, string) outcome"
  pf_flamegraph :: "'r \<Rightarrow> (bytes, string) outcome"
  pf_join_error :: string

definition simple :: "u16 \<Rightarrow> string \<Rightarrow> bytes \<Rightarrow> HyperResponse" where
  "simple status content_type body = \<lparr>hr_status = status, hr_headers = [(''content-type'', content_type)], hr_body = body\<rparr>"

fun first_value :: "string \<Rightarrow> string list \<Rightarrow> string option" where
  "first_value key [] = None"
| "first_value key (p # ps) = (case strip_prefix key p of Some v \<Rightarrow> Some v | None \<Rightarrow> first_value key ps)"

definition query_seconds :: "string option \<Rightarrow> nat option" where
  "query_seconds query =
     (case query of
        None \<Rightarrow> None
      | Some q \<Rightarrow> (case first_value ''seconds='' (split_char (CHR ''&'') q) of
                     None \<Rightarrow> None
                   | Some v \<Rightarrow> parse_uint usize_max v))"

text \<open>\<^verbatim>\<open>unwrap_or(30).clamp(1, 300)\<close>\<close>

definition profile_seconds :: "string option \<Rightarrow> nat" where
  "profile_seconds query = max 1 (min 300 (case query_seconds query of Some n \<Rightarrow> n | None \<Rightarrow> 30))"

definition em_dash :: bytes where "em_dash = [CHR 0xE2, CHR 0x80, CHR 0x94]"

definition profile_blocking :: "'r profiler \<Rightarrow> nat \<Rightarrow> Format \<Rightarrow> (bytes, string) outcome" where
  "profile_blocking pf seconds fmt =
     (case map_err (\<lambda>e. ''start profiler: '' @ e) (pf_start pf) of
        Ok _ \<Rightarrow>
          (case map_err (\<lambda>e. ''build report: '' @ e) (pf_report pf seconds) of
             Ok report \<Rightarrow>
               (case fmt of
                  Protobuf \<Rightarrow>
                    (case map_err (\<lambda>e. ''pprof encode: '' @ e) (pf_pprof pf report) of
                       Ok (no_samples, encoded) \<Rightarrow>
                         if no_samples
                         then Err (''no samples collected (empty profile '' @ em_dash @ '' common on macOS; use Linux/Docker)'')
                         else map_err (\<lambda>e. ''prost encode: '' @ e) encoded
                     | Err e \<Rightarrow> Err e | Panic \<Rightarrow> Panic | Pending \<Rightarrow> Pending)
                | Flamegraph \<Rightarrow>
                    (case map_err (\<lambda>e. ''flamegraph: '' @ e) (pf_flamegraph pf report) of
                       Ok buf \<Rightarrow>
                         if buf = []
                         then Err (''no samples collected (empty flamegraph '' @ em_dash @ '' common on macOS; use Linux/Docker)'')
                         else Ok buf
                     | Err e \<Rightarrow> Err e | Panic \<Rightarrow> Panic | Pending \<Rightarrow> Pending))
           | Err e \<Rightarrow> Err e | Panic \<Rightarrow> Panic | Pending \<Rightarrow> Pending)
      | Err e \<Rightarrow> Err e | Panic \<Rightarrow> Panic | Pending \<Rightarrow> Pending)"

text \<open>A panic of the blocking task is an error of the join.\<close>

definition pprof_collect :: "'r profiler \<Rightarrow> nat \<Rightarrow> Format \<Rightarrow> (bytes, string) outcome" where
  "pprof_collect pf seconds fmt =
     (case profile_blocking pf seconds fmt of
        Panic \<Rightarrow> Err (''join: '' @ pf_join_error pf)
      | r \<Rightarrow> r)"

definition pprof_handle :: "'r profiler \<Rightarrow> string \<Rightarrow> string \<Rightarrow> string option \<Rightarrow> (HyperResponse, unit) outcome" where
  "pprof_handle pf method path query =
     (if method \<noteq> ''GET'' then Ok (simple 405 ''text/plain'' ''method not allowed'')
      else let seconds = profile_seconds query
      in if path = ''/debug/pprof/profile'' then
           (case pprof_collect pf seconds Protobuf of
              Ok body \<Rightarrow> Ok \<lparr>hr_status = 200,
                  hr_headers = [(''content-type'', ''application/octet-stream''),
                    (''content-disposition'', ''attachment; filename='' @ [CHR 0x22] @ ''profile.pb'' @ [CHR 0x22])],
                  hr_body = body\<rparr>
            | Err e \<Rightarrow> Ok (simple 500 ''text/plain'' (''profile failed: '' @ e))
            | Panic \<Rightarrow> Panic | Pending \<Rightarrow> Pending)
         else if path = ''/debug/pprof/flamegraph'' then
           (case pprof_collect pf seconds Flamegraph of
              Ok body \<Rightarrow> Ok \<lparr>hr_status = 200, hr_headers = [(''content-type'', ''image/svg+xml'')], hr_body = body\<rparr>
            | Err e \<Rightarrow> Ok (simple 500 ''text/plain'' (''flamegraph failed: '' @ e))
            | Panic \<Rightarrow> Panic | Pending \<Rightarrow> Pending)
         else Ok (simple 404 ''text/plain'' ''try /debug/pprof/profile?seconds=30 or /debug/pprof/flamegraph?seconds=30''))"

section \<open>Runtime counters\<close>

record WorkerMetrics =
  wm_worker :: nat
  wm_local_queue_depth :: nat
  wm_park_count :: nat
  wm_park_unpark_count :: nat
  wm_total_busy_duration_us :: nat
  wm_poll_count :: nat
  wm_mean_poll_time_ns :: nat
  wm_steal_count :: nat
  wm_overflow_count :: nat
  wm_noop_count :: nat
  wm_local_schedule_count :: nat

record RuntimeMetricsSnapshot =
  rm_timestamp_ms :: nat
  rm_num_workers :: nat
  rm_num_alive_tasks :: nat
  rm_global_queue_depth :: nat
  rm_remote_schedule_count :: nat
  rm_budget_forced_yield_count :: nat
  rm_workers :: "WorkerMetrics list"

text \<open>
  The counters that the runtime's handle offers, durations in nanoseconds, and the clock: the time
  since the epoch in milliseconds, \<open>None\<close> before it.
\<close>

record tokio_metrics =
  tm_num_workers :: nat
  tm_num_alive_tasks :: nat
  tm_global_queue_depth :: nat
  tm_remote_schedule_count :: nat
  tm_budget_forced_yield_count :: nat
  tm_worker_local_queue_depth :: "nat \<Rightarrow> nat"
  tm_worker_park_count :: "nat \<Rightarrow> nat"
  tm_worker_park_unpark_count :: "nat \<Rightarrow> nat"
  tm_worker_total_busy_duration :: "nat \<Rightarrow> nat"
  tm_worker_poll_count :: "nat \<Rightarrow> nat"
  tm_worker_mean_poll_time :: "nat \<Rightarrow> nat"
  tm_worker_steal_count :: "nat \<Rightarrow> nat"
  tm_worker_overflow_count :: "nat \<Rightarrow> nat"
  tm_worker_noop_count :: "nat \<Rightarrow> nat"
  tm_worker_local_schedule_count :: "nat \<Rightarrow> nat"
  tm_since_epoch_ms :: "nat option"

definition worker_metrics :: "tokio_metrics \<Rightarrow> nat \<Rightarrow> WorkerMetrics" where
  "worker_metrics m i =
     \<lparr>wm_worker = i,
      wm_local_queue_depth = tm_worker_local_queue_depth m i,
      wm_park_count = tm_worker_park_count m i,
      wm_park_unpark_count = tm_worker_park_unpark_count m i,
      wm_total_busy_duration_us = tm_worker_total_busy_duration m i div 1000,
      wm_poll_count = tm_worker_poll_count m i,
      wm_mean_poll_time_ns = tm_worker_mean_poll_time m i,
      wm_steal_count = tm_worker_steal_count m i,
      wm_overflow_count = tm_worker_overflow_count m i,
      wm_noop_count = tm_worker_noop_count m i,
      wm_local_schedule_count = tm_worker_local_schedule_count m i\<rparr>"

definition metrics_snapshot :: "tokio_metrics \<Rightarrow> RuntimeMetricsSnapshot" where
  "metrics_snapshot m =
     \<lparr>rm_timestamp_ms = (case tm_since_epoch_ms m of Some t \<Rightarrow> t | None \<Rightarrow> 0),
      rm_num_workers = tm_num_workers m,
      rm_num_alive_tasks = tm_num_alive_tasks m,
      rm_global_queue_depth = tm_global_queue_depth m,
      rm_remote_schedule_count = tm_remote_schedule_count m,
      rm_budget_forced_yield_count = tm_budget_forced_yield_count m,
      rm_workers = map (worker_metrics m) [0..<tm_num_workers m]\<rparr>"

definition tokio_metrics_handle :: "(RuntimeMetricsSnapshot \<Rightarrow> bytes option) \<Rightarrow> tokio_metrics \<Rightarrow> string \<Rightarrow> string \<Rightarrow> HyperResponse" where
  "tokio_metrics_handle to_vec m method path =
     (if method \<noteq> ''GET'' \<or> path \<noteq> ''/tokio-metrics'' then simple 404 ''text/plain'' ''try /tokio-metrics''
      else simple 200 ''application/json'' (case to_vec (metrics_snapshot m) of Some b \<Rightarrow> b | None \<Rightarrow> []))"

section \<open>Properties\<close>

text \<open>C14: The statistics endpoint is exact in any session: a \<^verbatim>\<open>GET /stats\<close> answers 200 with the encoding of one entry per
  upstream, in configuration order, with the requests sent since the last reset and the requests in
  flight; afterwards the totals are reset exactly if the query has a parameter \<^verbatim>\<open>reset=1\<close>, and the
  requests in flight are still accounted.\<close>

theorem stats_endpoint_exact:
  assumes "sel_session (new_selector as strategy) s M H" and "has_stats s" and "length as \<le> 2 ^ 31"
    and "stats_handle to_vec ''GET'' ''/stats'' query s = (r, s')"
  shows "r = Ok \<lparr>hr_status = 200, hr_headers = [(''content-type'', ''application/json'')],
      hr_body = (case to_vec (map (\<lambda>i. \<lparr>st_addr = as ! i, st_total = of_nat (count H (of_nat i)),
          st_inflight = of_nat (count M (of_nat i))\<rparr>) [0..<length as]) of Some b \<Rightarrow> b | None \<Rightarrow> [])\<rparr>
    \<and> sel_session (new_selector as strategy) s' M (if wants_reset query then {#} else H)"
proof -
  obtain q where st: "sel_stats (wants_reset query) s = (q, s')"
    using assms(4) by (auto simp: stats_handle_def Let_def split: prod.splits outcome.splits)
  have "sel_session (new_selector as strategy) s' M (if wants_reset query then {#} else H)"
    by (rule sel_session.snapshot [OF assms(1) st])
  moreover have "q = Ok (Some (map (\<lambda>i. \<lparr>st_addr = as ! i, st_total = of_nat (count H (of_nat i)),
      st_inflight = of_nat (count M (of_nat i))\<rparr>) [0..<length as]))"
    using session_snapshot [OF assms(1-3), of "wants_reset query"] st by simp
  ultimately show ?thesis using assms(4) st by (auto simp: stats_handle_def)
qed

theorem stats_endpoint_exact_witness:
  "\<exists>s'. stats_handle (\<lambda>xs. Some (concat (map st_addr xs))) ''GET'' ''/stats'' (Some ''a=b&reset=1'')
      (new_selector [''a'', ''b''] LB_LEAST_CONN)
    = (Ok \<lparr>hr_status = 200, hr_headers = [(''content-type'', ''application/json'')], hr_body = ''ab''\<rparr>, s')
    \<and> sel_session (new_selector [''a'', ''b''] LB_LEAST_CONN) s' {#} {#}"
proof -
  let ?s = "new_selector [''a'', ''b''] LB_LEAST_CONN"
  let ?v = "\<lambda>xs. Some (concat (map st_addr xs))"
  obtain r s' where run: "stats_handle ?v ''GET'' ''/stats'' (Some ''a=b&reset=1'') ?s = (r, s')" by fastforce
  have st: "has_stats ?s" by (simp add: sel_simps)
  from stats_endpoint_exact [OF sel_session.fresh st _ run] show ?thesis
    using run by (simp add: upt_rec)
qed

text \<open>However the query asks for it, a profile runs between one second and five minutes: the handler
  behaves the same with a profiler that fails for every other duration.\<close>

lemma pprof_seconds_bounded:
  "pprof_handle (pf\<lparr>pf_report := \<lambda>n. if 1 \<le> n \<and> n \<le> 300 then pf_report pf n else Panic\<rparr>) method path query
     = pprof_handle pf method path query"
proof -
  let ?pf = "pf\<lparr>pf_report := \<lambda>n. if 1 \<le> n \<and> n \<le> 300 then pf_report pf n else Panic\<rparr>"
  have "1 \<le> profile_seconds query \<and> profile_seconds query \<le> 300" by (simp add: profile_seconds_def)
  then have rep: "pf_report ?pf (profile_seconds query) = pf_report pf (profile_seconds query)" by simp
  have oth: "pf_start ?pf = pf_start pf" "pf_pprof ?pf = pf_pprof pf" "pf_flamegraph ?pf = pf_flamegraph pf"
    "pf_join_error ?pf = pf_join_error pf" by simp_all
  have "pprof_collect ?pf (profile_seconds query) fmt = pprof_collect pf (profile_seconds query) fmt" for fmt
    unfolding pprof_collect_def profile_blocking_def rep oth ..
  then show ?thesis unfolding pprof_handle_def Let_def by presburger
qed

end
