(* ===== verification/Tokio_Sync.thy ===== *)
theory Tokio_Sync
  imports Proxy_Prelude
begin

text \<open>
  What the code relies on of \<^verbatim>\<open>tokio::sync\<close>: a mutex and a bounded channel, as records of their operations on
  an abstract state. The laws state their documented behaviour over a list that observes the state;
  for each there is an instance that has it. (\<^verbatim>\<open>Notify\<close>, which only the pool uses, is in theories
  \<^verbatim>\<open>Conn_Pool\<close> and \<^verbatim>\<open>Pool_Concurrency\<close>.)
\<close>

section \<open>\<^verbatim>\<open>tokio::sync::Mutex\<close>\<close>

text \<open>
  The first poll of \<^verbatim>\<open>lock()\<close> queues the task, the lock is granted in that order,
  and dropping the guard or the waiting future leaves the queue. The laws are its documented
  fairness, over the queue of tasks with the holder in front.
\<close>

record 'l mutex_api =
  mx_new :: 'l
  mx_lock :: "nat \<Rightarrow> 'l \<Rightarrow> 'l"
  mx_granted :: "nat \<Rightarrow> 'l \<Rightarrow> bool"
  mx_leave :: "nat \<Rightarrow> 'l \<Rightarrow> 'l"

definition mutex_laws :: "'l mutex_api \<Rightarrow> ('l \<Rightarrow> nat list) \<Rightarrow> bool" where
  "mutex_laws mx queue \<longleftrightarrow> queue (mx_new mx) = []
     \<and> (\<forall>l t. queue (mx_lock mx t l) = queue l @ [t])
     \<and> (\<forall>l t. mx_granted mx t l \<longleftrightarrow> (\<exists>ts. queue l = t # ts))
     \<and> (\<forall>l t. queue (mx_leave mx t l) = filter ((\<noteq>) t) (queue l))"

lemma mutex_lawsD:
  assumes "mutex_laws mx queue"
  shows "queue (mx_new mx) = []" and "queue (mx_lock mx t l) = queue l @ [t]"
    and "mx_granted mx t l \<longleftrightarrow> (\<exists>ts. queue l = t # ts)" and "queue (mx_leave mx t l) = filter ((\<noteq>) t) (queue l)"
  using assms by (simp_all add: mutex_laws_def)

definition fifo_mutex :: "nat list mutex_api" where
  "fifo_mutex = \<lparr>mx_new = [], mx_lock = \<lambda>t l. l @ [t], mx_granted = \<lambda>t l. l \<noteq> [] \<and> hd l = t,
     mx_leave = \<lambda>t. filter ((\<noteq>) t)\<rparr>"

lemma fifo_mutex_laws: "mutex_laws fifo_mutex id"
  by (auto simp: mutex_laws_def fifo_mutex_def neq_Nil_conv)

section \<open>\<^verbatim>\<open>tokio::sync::mpsc\<close>\<close>

text \<open>
  A bounded channel with one sender: \<open>Pending\<close> is a \<^verbatim>\<open>send\<close> that waits for room or a \<^verbatim>\<open>recv\<close> that waits for a
  value, \<open>Err\<close> a \<^verbatim>\<open>send\<close> after the receiver is gone, and \<open>None\<close> what \<^verbatim>\<open>recv\<close> returns when the sender
  was dropped and all values are received. \<^verbatim>\<open>channel\<close> panics on a capacity of zero and on one above
  \<^verbatim>\<open>Semaphore::MAX_PERMITS\<close>, which is \<^verbatim>\<open>usize::MAX >> 3\<close>.
\<close>

record ('q, 'c) chan_api =
  ch_new :: "usize \<Rightarrow> ('q, unit) outcome"
  ch_send :: "'c \<Rightarrow> 'q \<Rightarrow> ('q, unit) outcome"
  ch_recv :: "'q \<Rightarrow> ('c option \<times> 'q, unit) outcome"
  ch_drop_tx :: "'q \<Rightarrow> 'q"

definition max_permits :: nat where "max_permits = usize_max div 8"

definition channel_fits :: "usize \<Rightarrow> bool" where
  "channel_fits depth \<longleftrightarrow> 0 < unat depth \<and> unat depth \<le> max_permits"

definition chan_laws :: "('q, 'c) chan_api \<Rightarrow> ('q \<Rightarrow> 'c list) \<Rightarrow> ('q \<Rightarrow> nat) \<Rightarrow> ('q \<Rightarrow> bool) \<Rightarrow> bool" where
  "chan_laws ch items cap closed \<longleftrightarrow>
     (\<forall>n. channel_fits n \<longrightarrow> (\<exists>q. ch_new ch n = Ok q \<and> items q = [] \<and> cap q = unat n \<and> \<not> closed q))
     \<and> (\<forall>n. \<not> channel_fits n \<longrightarrow> ch_new ch n = Panic)
     \<and> (\<forall>c q. length (items q) < cap q \<longrightarrow>
          (\<exists>q'. ch_send ch c q = Ok q' \<and> items q' = items q @ [c] \<and> cap q' = cap q \<and> closed q' = closed q))
     \<and> (\<forall>c q. cap q \<le> length (items q) \<longrightarrow> ch_send ch c q = Pending)
     \<and> (\<forall>q c cs. items q = c # cs \<longrightarrow>
          (\<exists>q'. ch_recv ch q = Ok (Some c, q') \<and> items q' = cs \<and> cap q' = cap q \<and> closed q' = closed q))
     \<and> (\<forall>q. items q = [] \<longrightarrow> ch_recv ch q = (if closed q then Ok (None, q) else Pending))
     \<and> (\<forall>q. items (ch_drop_tx ch q) = items q \<and> cap (ch_drop_tx ch q) = cap q \<and> closed (ch_drop_tx ch q))"

lemma chan_lawsD:
  assumes "chan_laws ch items cap closed"
  shows chan_new: "channel_fits n \<Longrightarrow> \<exists>q. ch_new ch n = Ok q \<and> items q = [] \<and> cap q = unat n \<and> \<not> closed q"
      "\<not> channel_fits n \<Longrightarrow> ch_new ch n = Panic"
    and chan_send: "length (items q) < cap q \<Longrightarrow>
        \<exists>q'. ch_send ch c q = Ok q' \<and> items q' = items q @ [c] \<and> cap q' = cap q \<and> closed q' = closed q"
      "cap q \<le> length (items q) \<Longrightarrow> ch_send ch c q = Pending"
    and chan_recv: "items q = c # cs \<Longrightarrow>
        \<exists>q'. ch_recv ch q = Ok (Some c, q') \<and> items q' = cs \<and> cap q' = cap q \<and> closed q' = closed q"
      "items q = [] \<Longrightarrow> ch_recv ch q = (if closed q then Ok (None, q) else Pending)"
    and chan_drop: "items (ch_drop_tx ch q) = items q" "cap (ch_drop_tx ch q) = cap q" "closed (ch_drop_tx ch q)"
  using assms unfolding chan_laws_def by metis+

text \<open>What a call that came to an end did.\<close>

lemma chan_sent:
  assumes "chan_laws ch items cap closed" and "ch_send ch c q = Ok q'"
  shows "length (items q) < cap q \<and> items q' = items q @ [c] \<and> cap q' = cap q \<and> closed q' = closed q"
proof -
  have "length (items q) < cap q" using chan_send(2) [OF assms(1), of q c] assms(2) by (metis not_le outcome.distinct(5))
  with chan_send(1) [OF assms(1) this, of c] assms(2) show ?thesis by auto
qed

lemma chan_not_failed: "chan_laws ch items cap closed \<Longrightarrow> ch_send ch c q \<noteq> Err e"
  using chan_send [of ch items cap closed q c] by (cases "length (items q) < cap q") auto

lemma chan_received:
  assumes "chan_laws ch items cap closed" and "ch_recv ch q = Ok (r, q')"
  shows "cap q' = cap q \<and> closed q' = closed q
    \<and> (case r of Some c \<Rightarrow> items q = c # items q' | None \<Rightarrow> items q = [] \<and> items q' = [] \<and> closed q)"
proof (cases "items q")
  case Nil
  then show ?thesis using chan_recv(2) [OF assms(1) Nil] assms(2) by (auto split: if_splits)
next
  case (Cons c cs)
  then show ?thesis using chan_recv(1) [OF assms(1) Cons] assms(2) by auto
qed

definition list_chan :: "('c list \<times> nat \<times> bool, 'c) chan_api" where
  "list_chan =
     \<lparr>ch_new = \<lambda>n. if channel_fits n then Ok ([], unat n, False) else Panic,
      ch_send = \<lambda>c (cs, n, x). if length cs < n then Ok (cs @ [c], n, x) else Pending,
      ch_recv = \<lambda>(cs, n, x). case cs of [] \<Rightarrow> (if x then Ok (None, (cs, n, x)) else Pending) | c # cs' \<Rightarrow> Ok (Some c, (cs', n, x)),
      ch_drop_tx = \<lambda>(cs, n, x). (cs, n, True)\<rparr>"

lemma list_chan_laws: "chan_laws list_chan fst (fst \<circ> snd) (snd \<circ> snd)"
  by (auto simp: chan_laws_def list_chan_def)

end
