(* ===== verification/Profile_Lock.thy ===== *)
theory Profile_Lock
  imports Admin_Endpoints Tokio_Sync
begin

text \<open>
  Concurrent requests for CPU profiles (\<^verbatim>\<open>collect\<close> in \<^verbatim>\<open>crates/service-proxy/src/pprof_server.rs\<close>): every
  request takes the static \<^verbatim>\<open>PROFILE_LOCK\<close>, starts the profile on a blocking thread and keeps the guard
  until that thread is joined. The blocking thread is not tied to the request: when the client
  goes away, hyper drops the handler's future and with it the guard and the join handle, and the
  thread runs on.
\<close>

section \<open>Requests and steps\<close>

datatype collecting =
    CLock        \<comment> \<open>about to poll \<^verbatim>\<open>PROFILE_LOCK.lock()\<close>\<close>
  | CWait        \<comment> \<open>queued for the lock\<close>
  | CJoin        \<comment> \<open>holds the guard, awaits the blocking thread\<close>
  | CReturned    \<comment> \<open>returned the result of the thread\<close>
  | CDropped     \<comment> \<open>the handler's future was dropped\<close>

text \<open>
  The shared state: the lock, the blocking threads that are inside \<^verbatim>\<open>profile_blocking\<close>, each request's
  point, and two histories: the order in which requests queued and in which profiles started.
\<close>

record 'l profiling =
  p_lock :: 'l
  p_threads :: "nat set"
  p_reqs :: "collecting list"
  p_queued :: "nat list"
  p_started :: "nat list"

definition profiling_start :: "'l mutex_api \<Rightarrow> nat \<Rightarrow> 'l profiling" where
  "profiling_start mx k = \<lparr>p_lock = mx_new mx, p_threads = {}, p_reqs = replicate k CLock, p_queued = [], p_started = []\<rparr>"

abbreviation p_at :: "'l profiling \<Rightarrow> nat \<Rightarrow> collecting \<Rightarrow> bool" where
  "p_at s t q \<equiv> t < length (p_reqs s) \<and> p_reqs s ! t = q"

inductive cstep :: "'l mutex_api \<Rightarrow> 'l profiling \<Rightarrow> 'l profiling \<Rightarrow> bool" for mx where
  lock: "p_at s t CLock \<Longrightarrow>
    cstep mx s (s\<lparr>p_lock := mx_lock mx t (p_lock s), p_reqs := (p_reqs s)[t := CWait], p_queued := p_queued s @ [t]\<rparr>)"
| granted: "\<lbrakk> p_at s t CWait; mx_granted mx t (p_lock s) \<rbrakk> \<Longrightarrow>
    cstep mx s (s\<lparr>p_threads := insert t (p_threads s), p_reqs := (p_reqs s)[t := CJoin], p_started := p_started s @ [t]\<rparr>)"
| thread_ends: "t \<in> p_threads s \<Longrightarrow> cstep mx s (s\<lparr>p_threads := p_threads s - {t}\<rparr>)"
| joined: "\<lbrakk> p_at s t CJoin; t \<notin> p_threads s \<rbrakk> \<Longrightarrow>
    cstep mx s (s\<lparr>p_lock := mx_leave mx t (p_lock s), p_reqs := (p_reqs s)[t := CReturned]\<rparr>)"

text \<open>The same with clients that go away.\<close>

inductive gstep :: "'l mutex_api \<Rightarrow> 'l profiling \<Rightarrow> 'l profiling \<Rightarrow> bool" for mx where
  code: "cstep mx s s' \<Longrightarrow> gstep mx s s'"
| gone: "\<lbrakk> p_at s t q; q = CWait \<or> q = CJoin \<rbrakk> \<Longrightarrow>
    gstep mx s (s\<lparr>p_lock := mx_leave mx t (p_lock s), p_reqs := (p_reqs s)[t := CDropped]\<rparr>)"

section \<open>One profile at a time\<close>

text \<open>
  The requests that queued are those that returned, then the holder of the lock if there is one, then
  the waiting ones, in the order in which they queued.
\<close>

definition lock_inv :: "('l \<Rightarrow> nat list) \<Rightarrow> 'l profiling \<Rightarrow> nat list \<Rightarrow> nat list \<Rightarrow> nat list \<Rightarrow> bool" where
  "lock_inv queue s past holder waiting \<longleftrightarrow>
     length holder \<le> 1 \<and> queue (p_lock s) = holder @ waiting
     \<and> p_queued s = past @ holder @ waiting \<and> p_started s = past @ holder
     \<and> distinct (past @ holder @ waiting) \<and> p_threads s \<subseteq> set holder
     \<and> (\<forall>t < length (p_reqs s). p_reqs s ! t =
          (if t \<in> set past then CReturned else if t \<in> set holder then CJoin else if t \<in> set waiting then CWait else CLock))
     \<and> (\<forall>t \<in> set (past @ holder @ waiting). t < length (p_reqs s))"

lemma lock_inv_start: "mutex_laws mx queue \<Longrightarrow> lock_inv queue (profiling_start mx k) [] [] []"
  by (simp add: lock_inv_def profiling_start_def mutex_lawsD)

lemma lock_inv_at:
  assumes "lock_inv queue s past holder waiting" and "t < length (p_reqs s)"
  shows "p_reqs s ! t = CLock \<longleftrightarrow> t \<notin> set past \<and> t \<notin> set holder \<and> t \<notin> set waiting"
    and "p_reqs s ! t = CWait \<Longrightarrow> t \<in> set waiting \<and> t \<notin> set holder"
    and "p_reqs s ! t = CJoin \<Longrightarrow> t \<in> set holder"
proof -
  have "p_reqs s ! t = (if t \<in> set past then CReturned else if t \<in> set holder then CJoin
      else if t \<in> set waiting then CWait else CLock)"
    using assms by (simp add: lock_inv_def)
  then show "p_reqs s ! t = CLock \<longleftrightarrow> t \<notin> set past \<and> t \<notin> set holder \<and> t \<notin> set waiting"
    and "p_reqs s ! t = CWait \<Longrightarrow> t \<in> set waiting \<and> t \<notin> set holder"
    and "p_reqs s ! t = CJoin \<Longrightarrow> t \<in> set holder" by (simp_all split: if_splits)
qed

lemma cstep_inv:
  assumes laws: "mutex_laws mx queue" and "cstep mx s s'" and inv: "lock_inv queue s past holder waiting"
  shows "\<exists>past holder waiting. lock_inv queue s' past holder waiting"
  using assms(2)
proof cases
  case (lock t)
  have "t \<notin> set (past @ holder @ waiting)" using lock lock_inv_at(1) [OF inv, of t] by simp
  then have "lock_inv queue s' past holder (waiting @ [t])"
    using lock inv by (auto simp: lock_inv_def mutex_lawsD [OF laws] nth_list_update)
  then show ?thesis by blast
next
  case (granted t)
  then have "t \<in> set waiting" and "t \<notin> set holder" using lock_inv_at(2) [OF inv, of t] by simp_all
  moreover obtain ts where "holder @ waiting = t # ts"
    using granted(3) mutex_lawsD(3) [OF laws] inv by (auto simp: lock_inv_def)
  ultimately have "holder = []" and w: "waiting = t # ts" by (cases holder; auto)+
  then have "lock_inv queue s' past [t] ts"
    using granted inv by (auto simp: lock_inv_def nth_list_update)
  then show ?thesis by blast
next
  case (thread_ends t)
  then have "lock_inv queue s' past holder waiting" using inv by (auto simp: lock_inv_def)
  then show ?thesis by blast
next
  case (joined t)
  then have "t \<in> set holder" using lock_inv_at(3) [OF inv, of t] by simp
  then have h: "holder = [t]" using inv by (cases holder) (auto simp: lock_inv_def)
  then have "filter ((\<noteq>) t) waiting = waiting" using inv by (auto simp: lock_inv_def intro!: filter_True)
  then have "lock_inv queue s' (past @ [t]) [] waiting"
    using joined inv h by (auto simp: lock_inv_def mutex_lawsD [OF laws] nth_list_update)
  then show ?thesis by blast
qed

lemma csteps_inv:
  assumes laws: "mutex_laws mx queue" and "(cstep mx)\<^sup>*\<^sup>* (profiling_start mx k) s"
  shows "\<exists>past holder waiting. lock_inv queue s past holder waiting"
  using assms(2)
proof (induction rule: rtranclp_induct)
  case base
  then show ?case using lock_inv_start [OF laws] by blast
next
  case (step s1 s2)
  then show ?case using cstep_inv [OF laws] by blast
qed

text \<open>C24: Profiles are taken one at a time and in turn: as long as no client goes away, at most one blocking
  thread is inside \<^verbatim>\<open>profile_blocking\<close>, and the profiles start in the order in which their requests
  queued for the lock.\<close>

theorem profiles_serialised:
  assumes "mutex_laws mx queue" and "(cstep mx)\<^sup>*\<^sup>* (profiling_start mx k) s"
  shows "finite (p_threads s) \<and> card (p_threads s) \<le> 1 \<and> (\<exists>rest. p_queued s = p_started s @ rest)"
proof -
  obtain past holder waiting where inv: "lock_inv queue s past holder waiting" using csteps_inv [OF assms] by blast
  then have sub: "p_threads s \<subseteq> set holder" and "length holder \<le> 1" by (auto simp: lock_inv_def)
  then have "card (p_threads s) \<le> 1" using card_mono [OF _ sub] card_length [of holder] by fastforce
  with inv finite_subset [OF sub] show ?thesis by (auto simp: lock_inv_def)
qed

theorem profiles_serialised_witness:
  "\<exists>s. (cstep fifo_mutex)\<^sup>*\<^sup>* (profiling_start fifo_mutex 1) s \<and> p_threads s = {0} \<and> card (p_threads s) \<le> 1
     \<and> (\<exists>rest. p_queued s = p_started s @ rest)"
proof -
  let ?i = "profiling_start fifo_mutex 1"
  let ?s1 = "\<lparr>p_lock = [0], p_threads = {}, p_reqs = [CWait], p_queued = [0], p_started = []\<rparr>"
  let ?s2 = "\<lparr>p_lock = [0], p_threads = {0}, p_reqs = [CJoin], p_queued = [0], p_started = [0]\<rparr>"
  have "cstep fifo_mutex ?i ?s1"
    using cstep.lock [of 0 ?i fifo_mutex] by (simp add: profiling_start_def fifo_mutex_def)
  moreover have "cstep fifo_mutex ?s1 ?s2"
    using cstep.granted [of 0 ?s1 fifo_mutex] by (simp add: fifo_mutex_def)
  ultimately have run: "(cstep fifo_mutex)\<^sup>*\<^sup>* ?i ?s2" by simp
  from profiles_serialised [OF fifo_mutex_laws run] show ?thesis using run by (intro exI [of _ ?s2]) simp
qed

section \<open>A client that goes away\<close>

text \<open>C34: A client that disconnects breaks the serialisation: its guard is dropped while its blocking
  thread still profiles, so that the next request is granted the lock and starts a second profile
  beside the first. A profiler that refuses to be started while it is running then fails that
  request with status 500, although requests are meant to queue.\<close>

theorem disconnect_overlaps_profiles:
  assumes "mutex_laws mx queue" and "\<And>n. \<exists>e. pf_start (pf (Suc n)) = Err e"
  shows "\<exists>s. (gstep mx)\<^sup>*\<^sup>* (profiling_start mx 2) s \<and> p_threads s = {0, 1}
     \<and> (\<exists>msg. pprof_handle (pf (card (p_threads s - {1}))) ''GET'' ''/debug/pprof/profile'' query
          = Ok (simple 500 ''text/plain'' (''profile failed: start profiler: '' @ msg)))"
proof -
  let ?l1 = "mx_lock mx 0 (mx_new mx)"
  let ?l3 = "mx_leave mx 0 (mx_lock mx 1 ?l1)"
  let ?s = "\<lambda>l th rs qd st. \<lparr>p_lock = l, p_threads = th, p_reqs = rs, p_queued = qd, p_started = st\<rparr>"
  have "gstep mx (profiling_start mx 2) (?s ?l1 {} [CWait, CLock] [0] [])"
    using gstep.code [OF cstep.lock [of 0 "profiling_start mx 2" mx]] by (simp add: profiling_start_def eval_nat_numeral)
  moreover have "gstep mx (?s ?l1 {} [CWait, CLock] [0] []) (?s ?l1 {0} [CJoin, CLock] [0] [0])"
    using gstep.code [OF cstep.granted [of 0 "?s ?l1 {} [CWait, CLock] [0] []" mx]] mutex_lawsD [OF assms(1)] by simp
  moreover have "gstep mx (?s ?l1 {0} [CJoin, CLock] [0] [0]) (?s (mx_lock mx 1 ?l1) {0} [CJoin, CWait] [0, 1] [0])"
    using gstep.code [OF cstep.lock [of 1 "?s ?l1 {0} [CJoin, CLock] [0] [0]" mx]] by simp
  moreover have "gstep mx (?s (mx_lock mx 1 ?l1) {0} [CJoin, CWait] [0, 1] [0]) (?s ?l3 {0} [CDropped, CWait] [0, 1] [0])"
    using gstep.gone [of 0 "?s (mx_lock mx 1 ?l1) {0} [CJoin, CWait] [0, 1] [0]" CJoin mx] by simp
  moreover have "gstep mx (?s ?l3 {0} [CDropped, CWait] [0, 1] [0]) (?s ?l3 {1, 0} [CDropped, CJoin] [0, 1] [0, 1])"
    using gstep.code [OF cstep.granted [of 1 "?s ?l3 {0} [CDropped, CWait] [0, 1] [0]" mx]] mutex_lawsD [OF assms(1)] by simp
  ultimately have run: "(gstep mx)\<^sup>*\<^sup>* (profiling_start mx 2) (?s ?l3 {1, 0} [CDropped, CJoin] [0, 1] [0, 1])"
    by (meson converse_rtranclp_into_rtranclp r_into_rtranclp)
  obtain e where "pf_start (pf 1) = Err e" using assms(2) [of 0] by auto
  then have "pprof_handle (pf 1) ''GET'' ''/debug/pprof/profile'' query
      = Ok (simple 500 ''text/plain'' (''profile failed: start profiler: '' @ e))"
    by (simp add: pprof_handle_def pprof_collect_def profile_blocking_def Let_def)
  with run show ?thesis by (intro exI [of _ "?s ?l3 {1, 0} [CDropped, CJoin] [0, 1] [0, 1]"]) auto
qed

theorem disconnect_overlaps_profiles_witness:
  "\<exists>s. (gstep fifo_mutex)\<^sup>*\<^sup>* (profiling_start fifo_mutex 2) s \<and> p_threads s = {0, 1}
     \<and> (\<exists>msg. pprof_handle ((\<lambda>n. \<lparr>pf_start = if n = 0 then Ok () else Err ''running'', pf_report = \<lambda>_. Ok (),
            pf_pprof = \<lambda>_. Ok (False, Ok ''p''), pf_flamegraph = \<lambda>_. Ok ''f'', pf_join_error = []\<rparr>) (card (p_threads s - {1})))
          ''GET'' ''/debug/pprof/profile'' None = Ok (simple 500 ''text/plain'' (''profile failed: start profiler: '' @ msg)))"
  by (rule disconnect_overlaps_profiles [OF fifo_mutex_laws]) simp

end
