(* ===== verification/Worker_Pool.thy ===== *)
theory Worker_Pool
  imports Tokio_Sync
begin

text \<open>
  The pooled mode of the server, \<^verbatim>\<open>serve_pooled\<close> in \<^verbatim>\<open>crates/service-proxy/src/main.rs\<close>: one task
  accepts connections and sends them into a bounded channel, a fixed number of workers share the
  receiving end behind a mutex. Channel and mutex are parameters (theory \<open>Tokio_Sync\<close>). Every \<^verbatim>\<open>await\<close>
  is a step; the steps of the tasks interleave in any order. How a connection is handled is the
  subject of theory \<^verbatim>\<open>Proxy_Http\<close>; here a handler either ends or panics, and a panic ends the
  worker's task.
\<close>

section \<open>Tasks and steps\<close>

datatype 'c acceptor =
    Accepting      \<comment> \<open>awaiting \<^verbatim>\<open>accept\<close>\<close>
  | Sending 'c     \<comment> \<open>awaiting \<^verbatim>\<open>send\<close>\<close>
  | AcceptEnded    \<comment> \<open>\<^verbatim>\<open>serve_pooled\<close> returned\<close>

datatype 'c worker =
    WLoop          \<comment> \<open>about to lock the receiver\<close>
  | WWait          \<comment> \<open>queued for the lock\<close>
  | WRecv          \<comment> \<open>holds the guard, awaiting \<^verbatim>\<open>recv\<close>\<close>
  | WBusy 'c       \<comment> \<open>handling a connection, the guard dropped\<close>
  | WDone          \<comment> \<open>left the loop\<close>
  | WDead          \<comment> \<open>the handler panicked, or the runtime was shut down\<close>

record ('c, 'q, 'l) server =
  sv_incoming :: "'c list"   \<comment> \<open>connections that clients are yet to make\<close>
  sv_acceptor :: "'c acceptor"
  sv_chan :: 'q
  sv_lock :: 'l
  sv_workers :: "'c worker list"
  sv_accepted :: "'c list"   \<comment> \<open>all connections accepted so far, in order\<close>
  sv_taken :: "'c list"      \<comment> \<open>all connections received by workers, in order\<close>
  sv_handled :: "'c list"    \<comment> \<open>all connections whose handler ended, in that order\<close>

definition serve_pooled_start :: "('q, 'c) chan_api \<Rightarrow> 'l mutex_api \<Rightarrow> usize \<Rightarrow> usize \<Rightarrow> 'c list \<Rightarrow> (('c, 'q, 'l) server, unit) outcome" where
  "serve_pooled_start ch mx worker_queue_depth worker_pool_size clients =
     (case ch_new ch worker_queue_depth of
        Ok q \<Rightarrow> Ok \<lparr>sv_incoming = clients, sv_acceptor = Accepting, sv_chan = q, sv_lock = mx_new mx,
                     sv_workers = replicate (unat worker_pool_size) WLoop, sv_accepted = [], sv_taken = [], sv_handled = []\<rparr>
      | Err e \<Rightarrow> Err e | Panic \<Rightarrow> Panic | Pending \<Rightarrow> Pending)"

abbreviation working :: "('c, 'q, 'l) server \<Rightarrow> nat \<Rightarrow> 'c worker \<Rightarrow> bool" where
  "working s t w \<equiv> t < length (sv_workers s) \<and> sv_workers s ! t = w"

text \<open>
  When \<^verbatim>\<open>serve_pooled\<close> returns, it drops the sender, and \<^verbatim>\<open>main\<close> returns in turn: the workers may still
  drain the channel, until the runtime is shut down.
\<close>

inductive wstep :: "('q, 'c) chan_api \<Rightarrow> 'l mutex_api \<Rightarrow> ('c, 'q, 'l) server \<Rightarrow> ('c, 'q, 'l) server \<Rightarrow> bool" for ch mx where
  accept: "\<lbrakk> sv_acceptor s = Accepting; sv_incoming s = c # cs \<rbrakk> \<Longrightarrow>
    wstep ch mx s (s\<lparr>sv_acceptor := Sending c, sv_incoming := cs, sv_accepted := sv_accepted s @ [c]\<rparr>)"
| accept_error: "sv_acceptor s = Accepting \<Longrightarrow>
    wstep ch mx s (s\<lparr>sv_acceptor := AcceptEnded, sv_chan := ch_drop_tx ch (sv_chan s)\<rparr>)"
| send: "\<lbrakk> sv_acceptor s = Sending c; ch_send ch c (sv_chan s) = Ok q \<rbrakk> \<Longrightarrow>
    wstep ch mx s (s\<lparr>sv_acceptor := Accepting, sv_chan := q\<rparr>)"
| send_error: "\<lbrakk> sv_acceptor s = Sending c; ch_send ch c (sv_chan s) = Err e \<rbrakk> \<Longrightarrow>
    wstep ch mx s (s\<lparr>sv_acceptor := AcceptEnded, sv_chan := ch_drop_tx ch (sv_chan s)\<rparr>)"
| lock: "working s t WLoop \<Longrightarrow>
    wstep ch mx s (s\<lparr>sv_lock := mx_lock mx t (sv_lock s), sv_workers := (sv_workers s)[t := WWait]\<rparr>)"
| granted: "\<lbrakk> working s t WWait; mx_granted mx t (sv_lock s) \<rbrakk> \<Longrightarrow>
    wstep ch mx s (s\<lparr>sv_workers := (sv_workers s)[t := WRecv]\<rparr>)"
| recv: "\<lbrakk> working s t WRecv; ch_recv ch (sv_chan s) = Ok (Some c, q) \<rbrakk> \<Longrightarrow>
    wstep ch mx s (s\<lparr>sv_chan := q, sv_lock := mx_leave mx t (sv_lock s), sv_workers := (sv_workers s)[t := WBusy c],
      sv_taken := sv_taken s @ [c]\<rparr>)"
| recv_none: "\<lbrakk> working s t WRecv; ch_recv ch (sv_chan s) = Ok (None, q) \<rbrakk> \<Longrightarrow>
    wstep ch mx s (s\<lparr>sv_chan := q, sv_lock := mx_leave mx t (sv_lock s), sv_workers := (sv_workers s)[t := WDone]\<rparr>)"
| finish: "working s t (WBusy c) \<Longrightarrow>
    wstep ch mx s (s\<lparr>sv_workers := (sv_workers s)[t := WLoop], sv_handled := sv_handled s @ [c]\<rparr>)"
| crash: "working s t (WBusy c) \<Longrightarrow> wstep ch mx s (s\<lparr>sv_workers := (sv_workers s)[t := WDead]\<rparr>)"
| shutdown: "sv_acceptor s = AcceptEnded \<Longrightarrow> wstep ch mx s (s\<lparr>sv_workers := map (\<lambda>_. WDead) (sv_workers s)\<rparr>)"

inductive_cases wstepE: "wstep ch mx s s'"


section \<open>Invariants\<close>



fun at_lock :: "'c worker \<Rightarrow> bool" where
  "at_lock WWait = True"
| "at_lock WRecv = True"
| "at_lock _ = False"


text \<open>The queue of the lock: exactly the workers at it, and the receiving one in front.\<close>

definition queue_inv :: "('l \<Rightarrow> nat list) \<Rightarrow> ('c, 'q, 'l) server \<Rightarrow> bool" where
  "queue_inv queue s \<longleftrightarrow> distinct (queue (sv_lock s))
     \<and> set (queue (sv_lock s)) = {t. t < length (sv_workers s) \<and> at_lock (sv_workers s ! t)}
     \<and> (\<forall>t. working s t WRecv \<longrightarrow> (\<exists>ts. queue (sv_lock s) = t # ts))"











section \<open>Every connection is served\<close>











text \<open>While some handlers are busy, the others go on: if a connection is queued and some worker is not
  handling one, then a worker can take a step towards it, and no handler has to end for that.\<close>

lemma queued_not_blocked:
  assumes "chan_laws ch items cap closed" and "mutex_laws mx queue" and "queue_inv queue s" and "items (sv_chan s) \<noteq> []"
    and "t < length (sv_workers s)" and "sv_workers s ! t = WLoop \<or> at_lock (sv_workers s ! t)"
  shows "\<exists>s'. wstep ch mx s s' \<and> sv_handled s' = sv_handled s \<and> sv_acceptor s' = sv_acceptor s \<and> sv_workers s' \<noteq> sv_workers s"
proof -
  have differ: "(sv_workers s)[i := w] \<noteq> sv_workers s" if "i < length (sv_workers s)" "w \<noteq> sv_workers s ! i" for i w
    using that by (metis nth_list_update_eq)
  show ?thesis
  proof (cases "sv_workers s ! t = WLoop")
    case True
    then show ?thesis using wstep.lock [of t s ch mx] assms(5) differ [of t WWait] by fastforce
  next
    case False
    then have "t \<in> set (queue (sv_lock s))" using assms(3,5,6) by (simp add: queue_inv_def)
    then obtain h hs where q: "queue (sv_lock s) = h # hs" by (cases "queue (sv_lock s)") auto
    then have h: "h < length (sv_workers s)" "at_lock (sv_workers s ! h)" using assms(3) by (auto simp: queue_inv_def set_eq_iff)
    show ?thesis
    proof (cases "sv_workers s ! h = WWait")
      case True
      have "mx_granted mx h (sv_lock s)" using mutex_lawsD(3) [OF assms(2)] q by blast
      then show ?thesis using wstep.granted [of h s mx ch] True h(1) differ [of h WRecv] by fastforce
    next
      case False
      then have r: "working s h WRecv" using h by (cases "sv_workers s ! h") auto
      obtain c q' where "ch_recv ch (sv_chan s) = Ok (Some c, q')"
        using chan_recv(1) [OF assms(1)] assms(4) by (metis neq_Nil_conv)
      then show ?thesis using wstep.recv [OF r] h(1) r differ [of h "WBusy c"] by fastforce
    qed
  qed
qed




section \<open>Workers that panic are not replaced\<close>

inductive wreach :: "('q, 'c) chan_api \<Rightarrow> 'l mutex_api \<Rightarrow> usize \<Rightarrow> usize \<Rightarrow> 'c list \<Rightarrow> ('c, 'q, 'l) server \<Rightarrow> bool"
  for ch mx depth n clients where
  start: "serve_pooled_start ch mx depth n clients = Ok s \<Longrightarrow> wreach ch mx depth n clients s"
| step: "\<lbrakk> wreach ch mx depth n clients s; wstep ch mx s s' \<rbrakk> \<Longrightarrow> wreach ch mx depth n clients s'"

text \<open>One connection that panics costs one worker; then the queue fills and the acceptor blocks.\<close>

lemma send_one:
  assumes "chan_laws ch items cap closed" and "wreach ch mx depth n clients s" and "sv_acceptor s = Accepting" and "sv_incoming s = c # cs"
    and "length (items (sv_chan s)) < cap (sv_chan s)"
  shows "\<exists>q. wreach ch mx depth n clients (s\<lparr>sv_incoming := cs, sv_accepted := sv_accepted s @ [c], sv_acceptor := Accepting, sv_chan := q\<rparr>)
    \<and> items q = items (sv_chan s) @ [c] \<and> cap q = cap (sv_chan s)"
proof -
  let ?s1 = "s\<lparr>sv_acceptor := Sending c, sv_incoming := cs, sv_accepted := sv_accepted s @ [c]\<rparr>"
  have r1: "wreach ch mx depth n clients ?s1" by (rule wreach.step [OF assms(2) wstep.accept [OF assms(3,4)]])
  obtain q where q: "ch_send ch c (sv_chan s) = Ok q" "items q = items (sv_chan s) @ [c]" "cap q = cap (sv_chan s)"
    using chan_send(1) [OF assms(1,5)] by blast
  from wreach.step [OF r1 wstep.send [of ?s1 c ch q]] q show ?thesis by (intro exI [of _ q]) simp
qed

text \<open>All workers from the \<open>k\<close>-th on are at the top of their loop, the others are dead, nothing is queued.\<close>

definition after_panics :: "('q \<Rightarrow> 'c list) \<Rightarrow> ('q \<Rightarrow> nat) \<Rightarrow> ('l \<Rightarrow> nat list) \<Rightarrow> usize \<Rightarrow> usize \<Rightarrow> 'c list \<Rightarrow> nat \<Rightarrow> ('c, 'q, 'l) server \<Rightarrow> bool" where
  "after_panics items cap queue depth n clients k s \<longleftrightarrow> sv_acceptor s = Accepting \<and> items (sv_chan s) = [] \<and> cap (sv_chan s) = unat depth
     \<and> queue (sv_lock s) = [] \<and> sv_workers s = replicate k WDead @ replicate (unat n - k) WLoop \<and> sv_incoming s = drop k clients"

lemma kill_one:
  assumes laws: "chan_laws ch items cap closed" "mutex_laws mx queue" and "channel_fits depth" and "k < unat n" and "k < length clients"
    and "wreach ch mx depth n clients s" and "after_panics items cap queue depth n clients k s"
  shows "\<exists>s'. wreach ch mx depth n clients s' \<and> after_panics items cap queue depth n clients (Suc k) s'"
proof -
  note at = assms(7) [unfolded after_panics_def]
  let ?c = "clients ! k"
  have "sv_incoming s = ?c # drop (Suc k) clients" using at assms(5) by (simp add: Cons_nth_drop_Suc)
  then obtain q where r2: "wreach ch mx depth n clients (s\<lparr>sv_incoming := drop (Suc k) clients, sv_accepted := sv_accepted s @ [?c], sv_acceptor := Accepting, sv_chan := q\<rparr>)"
    and q: "items q = [?c]" "cap q = unat depth"
    using send_one [OF laws(1) assms(6), of ?c] at assms(3) by (auto simp: channel_fits_def)
  let ?s2 = "s\<lparr>sv_incoming := drop (Suc k) clients, sv_accepted := sv_accepted s @ [?c], sv_acceptor := Accepting, sv_chan := q\<rparr>"
  have w: "working ?s2 k WLoop" using at assms(4) by (simp add: nth_append)
  let ?l = "mx_lock mx k (sv_lock s)"
  let ?s3 = "?s2\<lparr>sv_lock := ?l, sv_workers := (sv_workers s)[k := WWait]\<rparr>"
  have r3: "wreach ch mx depth n clients ?s3" using wreach.step [OF r2 wstep.lock [OF w]] by simp
  have gr: "mx_granted mx k ?l" using mutex_lawsD(2,3) [OF laws(2)] at by simp
  let ?s4 = "?s3\<lparr>sv_workers := (sv_workers s)[k := WRecv]\<rparr>"
  have r4: "wreach ch mx depth n clients ?s4" using wreach.step [OF r3 wstep.granted [of k ?s3]] gr w by simp
  obtain q' where q': "ch_recv ch q = Ok (Some ?c, q')" "items q' = []" "cap q' = unat depth"
    using chan_recv(1) [OF laws(1) q(1)] q(2) by auto
  let ?s5 = "?s4\<lparr>sv_chan := q', sv_lock := mx_leave mx k ?l, sv_workers := (sv_workers s)[k := WBusy ?c], sv_taken := sv_taken s @ [?c]\<rparr>"
  have r5: "wreach ch mx depth n clients ?s5" using wreach.step [OF r4 wstep.recv [of k ?s4 ch ?c q']] q' w by simp
  let ?s6 = "?s5\<lparr>sv_workers := (sv_workers s)[k := WDead]\<rparr>"
  have r6: "wreach ch mx depth n clients ?s6" using wreach.step [OF r5 wstep.crash [of k ?s5 ?c]] w by simp
  have "replicate (unat n - k) WLoop = WLoop # replicate (unat n - Suc k) (WLoop :: 'b worker)"
    using assms(4) by (metis Suc_diff_Suc replicate_Suc)
  with at have "sv_workers s = replicate k WDead @ WLoop # replicate (unat n - Suc k) WLoop" by metis
  then have "(sv_workers s)[k := WDead] = replicate (Suc k) WDead @ replicate (unat n - Suc k) WLoop"
    by (simp add: list_update_append replicate_app_Cons_same)
  moreover have "queue (mx_leave mx k ?l) = []" using mutex_lawsD(2,4) [OF laws(2)] at by simp
  ultimately show ?thesis using r6 q' by (intro exI [of _ ?s6]) (simp add: after_panics_def)
qed

lemma kill_all:
  fixes clients :: "'c list"
  assumes laws: "chan_laws ch items cap closed" "mutex_laws mx queue" and "channel_fits depth" and "unat n \<le> length clients" and "k \<le> unat n"
  shows "\<exists>s. wreach ch mx depth n clients s \<and> after_panics items cap queue depth n clients k s"
  using assms(5)
proof (induction k)
  case 0
  obtain q where "ch_new ch depth = Ok q" "items q = []" "cap q = unat depth" using chan_new(1) [OF laws(1) assms(3)] by blast
  then show ?case using mutex_lawsD(1) [OF laws(2)]
    by (intro exI conjI, intro wreach.start) (auto simp: serve_pooled_start_def after_panics_def)
next
  case (Suc k)
  then show ?case using kill_one [OF assms(1-3), of k n clients] assms(4) by auto
qed

lemma fill_queue:
  assumes "chan_laws ch items cap closed" and "wreach ch mx depth n clients s" and "sv_acceptor s = Accepting" and "items (sv_chan s) = []"
    and "j \<le> cap (sv_chan s)" and "j \<le> length (sv_incoming s)"
  shows "\<exists>s'. wreach ch mx depth n clients s' \<and> sv_acceptor s' = Accepting \<and> length (items (sv_chan s')) = j
    \<and> cap (sv_chan s') = cap (sv_chan s) \<and> sv_workers s' = sv_workers s \<and> sv_incoming s' = drop j (sv_incoming s)"
  using assms(5,6)
proof (induction j)
  case 0
  then show ?case using assms(2-4) by auto
next
  case (Suc j)
  then obtain s1 where s1: "wreach ch mx depth n clients s1" "sv_acceptor s1 = Accepting" "length (items (sv_chan s1)) = j"
    "cap (sv_chan s1) = cap (sv_chan s)" "sv_workers s1 = sv_workers s" "sv_incoming s1 = drop j (sv_incoming s)" by auto
  have "sv_incoming s1 = sv_incoming s ! j # drop (Suc j) (sv_incoming s)" using s1(6) Suc.prems by (simp add: Cons_nth_drop_Suc)
  from send_one [OF assms(1) s1(1,2) this] s1(3-5) Suc.prems show ?case by fastforce
qed

text \<open>C30: The pooled server can wedge for good: a handler that panics ends its worker's task and no worker is
  started in its place, while the receiver stays alive with the server. After as many panics as
  there are workers (with none, at once) the queue fills, the acceptor blocks in \<^verbatim>\<open>send\<close>, and no
  task can take a step any more, however many clients are still to come.\<close>

theorem pooled_workers_wedge:
  fixes clients :: "'c list"
  assumes "chan_laws ch items cap closed" and "mutex_laws mx queue" and "channel_fits depth" and "unat n + unat depth < length clients"
  shows "\<exists>s. wreach ch mx depth n clients s \<and> sv_workers s = replicate (unat n) WDead \<and> length (items (sv_chan s)) = unat depth
     \<and> (\<exists>c. sv_acceptor s = Sending c) \<and> sv_incoming s = drop (Suc (unat n + unat depth)) clients \<and> (\<forall>s'. \<not> wstep ch mx s s')"
proof -
  obtain s where s: "wreach ch mx depth n clients s" "after_panics items cap queue depth n clients (unat n) s"
    using kill_all [OF assms(1-3), of n clients "unat n"] assms(4) by auto
  then have p: "sv_acceptor s = Accepting" "items (sv_chan s) = []" "cap (sv_chan s) = unat depth" "sv_workers s = replicate (unat n) WDead"
    "sv_incoming s = drop (unat n) clients" by (auto simp: after_panics_def)
  have room: "unat depth \<le> length clients - unat n" using assms(4) by linarith
  obtain s1 where s1: "wreach ch mx depth n clients s1" "sv_acceptor s1 = Accepting" "length (items (sv_chan s1)) = unat depth"
    "cap (sv_chan s1) = unat depth" "sv_workers s1 = replicate (unat n) WDead" "sv_incoming s1 = drop (unat depth) (drop (unat n) clients)"
    using fill_queue [OF assms(1) s(1) p(1,2), of "unat depth"] p room by auto
  obtain c cs where c: "sv_incoming s1 = c # cs" using s1(6) assms(4) by (metis Cons_nth_drop_Suc drop_drop add.commute)
  let ?s2 = "s1\<lparr>sv_acceptor := Sending c, sv_incoming := cs, sv_accepted := sv_accepted s1 @ [c]\<rparr>"
  have r: "wreach ch mx depth n clients ?s2" by (rule wreach.step [OF s1(1) wstep.accept [OF s1(2) c]])
  have "ch_send ch c (sv_chan s1) = Pending" by (rule chan_send(2) [OF assms(1)]) (use s1(3,4) in simp)
  then have "\<not> wstep ch mx ?s2 s'" for s' using s1(5) by (auto elim!: wstepE)
  moreover have "cs = drop (Suc (unat n + unat depth)) clients"
    using s1(6) c by (metis add.commute drop_Suc drop_drop list.sel(3) tl_drop)
  ultimately show ?thesis using r s1(3,5) by (intro exI [of _ ?s2]) simp
qed

theorem pooled_workers_wedge_witness:
  "\<exists>s. wreach list_chan fifo_mutex 1 2 [1 :: nat, 2, 3, 4, 5] s \<and> sv_workers s = replicate 2 WDead \<and> length (fst (sv_chan s)) = 1
     \<and> (\<exists>c. sv_acceptor s = Sending c) \<and> sv_incoming s = [5] \<and> (\<forall>s'. \<not> wstep list_chan fifo_mutex s s')"
proof -
  have n: "unat (2 :: usize) = 2" "unat (1 :: usize) = 1" by simp_all
  have "channel_fits 1" by (simp add: channel_fits_def max_permits_def usize_max_def)
  from pooled_workers_wedge [OF list_chan_laws fifo_mutex_laws this, of 2 "[1 :: nat, 2, 3, 4, 5]"]
  show ?thesis unfolding n by simp
qed

end
