(* ===== verification/Grpc_Proxy.thy ===== *)
theory Grpc_Proxy
  imports Frontend
begin

text \<open>
  The gRPC front end, \<^verbatim>\<open>crates/service-proxy/src/grpc_proxy.rs\<close>: the unary \<^verbatim>\<open>Echo\<close> method posts its
  payload to the upstream's \<^verbatim>\<open>/echo\<close> and answers with the body and the upstream's identity. The
  transport, \<^verbatim>\<open>tonic\<close>, is outside: the model starts at the decoded request.
\<close>

record 'n GrpcProxy =
  g_selector :: SelectorKind
  g_forwarder :: "'n ForwarderKind"

record EchoResponse =
  er_payload :: bytes
  er_upstream_id :: string

definition grpc_new :: "SelectorKind \<Rightarrow> 'n ForwarderKind \<Rightarrow> 'n GrpcProxy" where
  "grpc_new sel fwd = \<lparr>g_selector = sel, g_forwarder = fwd\<rparr>"

text \<open>The upstream request that gRPC calls and raw QUIC streams are turned into.\<close>

definition echo_request :: "bytes \<Rightarrow> string \<Rightarrow> Request" where
  "echo_request payload addr =
     \<lparr>rq_method = ''POST'', rq_path = ''/echo'', rq_host = addr,
      rq_headers = [(''Content-Type'', [''application/octet-stream''])], rq_body = payload\<rparr>"

text \<open>The lookup is exact: only two spellings of the header's name are found.\<close>

definition upstream_id :: "headers \<Rightarrow> string" where
  "upstream_id h =
     (case (case map_of h ''X-Upstream-Id'' of Some v \<Rightarrow> Some v | None \<Rightarrow> map_of h ''X-Upstream-ID'') of
        Some (x # _) \<Rightarrow> x
      | _ \<Rightarrow> [])"

text \<open>An error is the status \<^verbatim>\<open>unavailable\<close> with its message.\<close>

definition echo :: "'n runtime \<Rightarrow> bytes \<Rightarrow> SelectorKind \<Rightarrow> 'n ForwarderKind
    \<Rightarrow> (EchoResponse, string) outcome \<times> SelectorKind \<times> 'n ForwarderKind" where
  "echo rt payload sel fwd =
     (case exchange rt (echo_request payload) sel fwd of
        (Ok (addr, resp), sel', fwd') \<Rightarrow>
          (Ok \<lparr>er_payload = rs_body resp, er_upstream_id = upstream_id (rs_headers resp)\<rparr>, sel', fwd')
      | (Err (addr, e), sel', fwd') \<Rightarrow> (Err (''forward to '' @ addr @ '': '' @ show_upstream_error e), sel', fwd')
      | (Panic, sel', fwd') \<Rightarrow> (Panic, sel', fwd')
      | (Pending, sel', fwd') \<Rightarrow> (Pending, sel', fwd'))"

interpretation grpc: frontend echo returned
proof
  fix rt :: "'n runtime" and i s f r s' f'
  assume "echo rt i s f = (r, s', f')"
  then have "exchange rt (echo_request i) s f = (fst (exchange rt (echo_request i) s f), s', f')"
    and "returned r = returned (fst (exchange rt (echo_request i) s f))"
    by (auto simp: echo_def split: prod.splits outcome.splits)
  then show "s' = s \<and> f' = f \<or> (\<exists>mk x. exchange rt mk s f = (x, s', f') \<and> (returned r \<longrightarrow> returned x))"
    by blast
qed

lemma relayed_upstream_id:
  assumes "answers up ho' resp" and "(''X-Upstream-Id'', [ident]) \<in> set (rs_headers resp)"
  shows "upstream_id (rs_headers (relayed ho' resp)) = ident"
proof -
  let ?hs = "filter nonempty_values (filter (\<lambda>kv. \<not> response_skips (fst kv)) (ho' (rs_headers resp)))"
  have "hash_order ho'" and "distinct (map fst (rs_headers resp))"
    using assms(1) by (simp_all add: answers_def sendable_def)
  then have "distinct (map fst ?hs)" and "set (ho' (rs_headers resp)) = set (rs_headers resp)"
    by (simp_all add: distinct_map_filter hash_order_distinct hash_order_set)
  moreover have "\<not> response_skips ''X-Upstream-Id''" by code_simp
  ultimately have "map_of ?hs ''X-Upstream-Id'' = Some [ident]"
    using assms(2) by (intro map_of_is_SomeI) (auto simp: nonempty_values_def)
  then show ?thesis by (simp add: upstream_id_def relayed_def sent_headers_def map_add_Some_iff)
qed

text \<open>
  The gRPC echo over the connection pools: a call whose upstream can be dialled and answers with a
  response in the proxy's format returns the body of that response and the value of its
  \<^verbatim>\<open>X-Upstream-Id\<close> header.
\<close>

lemma echo_relays:
  assumes "sel_next (rt_rng rt) (new_selector as st) = (Ok (addr, tok), sel1)" and "rng_ok (rt_rng rt)"
    and "length as \<le> 2 ^ 31" and "0 < n" and "rt_net rt addr = Connected up" and "answers up ho' resp"
    and "(''X-Upstream-Id'', [ident]) \<in> set (rs_headers resp)"
  shows "fst (echo rt payload (new_selector as st) (PoolF (manager_new nt as n)))
    = Ok \<lparr>er_payload = rs_body resp, er_upstream_id = ident\<rparr>"
proof -
  have "addr \<in> set as" using sel_next_addr [OF assms(1)] by (simp add: new_selector_addrs)
  then obtain f' where fw: "forwarder_forward rt addr (echo_request payload addr) (PoolF (manager_new nt as n)) = (Ok (relayed ho' resp), f')"
    using forwarder_pool_answers [OF assms(5,6) _ assms(4)] by blast
  obtain sel2 where "exchange rt (echo_request payload) (new_selector as st) (PoolF (manager_new nt as n))
      = (Ok (addr, relayed ho' resp), sel2, f')"
    using exchange_returns [where mk = "echo_request payload", OF sel_session.fresh assms(3,2,1) fw] by auto
  moreover have "upstream_id (rs_headers (relayed ho' resp)) = ident"
    using relayed_upstream_id [OF assms(6,7)] .
  ultimately show ?thesis by (simp add: echo_def relayed_def)
qed

end
