(* ===== verification/Framing.thy ===== *)
theory Framing
  imports Byte_Streams
begin

text \<open>
  The 4-byte big-endian length-prefixed frames of the raw QUIC mode,
  \<^verbatim>\<open>crates/service-proxy/src/quic_proxy/framing.rs\<close>, and the round trip between the writer and the
  reader for any segmentation of the stream.
\<close>

section \<open>Operations\<close>

definition to_be_bytes :: "u32 \<Rightarrow> bytes" where
  "to_be_bytes w =
     [char_of (unat (drop_bit 24 w)), char_of (unat (drop_bit 16 w)),
      char_of (unat (drop_bit 8 w)), char_of (unat w)]"

definition from_be_bytes :: "bytes \<Rightarrow> u32" where
  "from_be_bytes bs = of_nat (foldl (\<lambda>a c. 256 * a + bv c) 0 bs)"

text \<open>\<^verbatim>\<open>read_frame\<close>: the length, then exactly that many bytes.\<close>

definition read_frame :: "seg list \<Rightarrow> (bytes, io_error) outcome \<times> seg list" where
  "read_frame ss =
     (case read_exact 4 [] ss of
        (Ok len_buf, ss1) \<Rightarrow> read_exact (unat (from_be_bytes len_buf)) [] ss1
      | (r, ss1) \<Rightarrow> (r, ss1))"

text \<open>\<^verbatim>\<open>write_frame\<close>: \<^verbatim>\<open>payload.len() as u32\<close> keeps the low 32 bits of the length.\<close>

definition write_frame :: "bytes \<Rightarrow> tcp \<Rightarrow> (unit, io_error) outcome \<times> tcp" where
  "write_frame payload c =
     (case write_all (to_be_bytes (of_nat (length payload))) c of
        (Ok _, c1) \<Rightarrow> write_all payload c1
      | (r, c1) \<Rightarrow> (r, c1))"

section \<open>Round trip\<close>

lemma unat_drop_bit: "unat (drop_bit n (w :: 'a::len word)) = unat w div 2 ^ n"
  unfolding unat_drop_bit_eq by (rule drop_bit_eq_div)

lemma to_be_bytes_nat:
  "to_be_bytes w = map char_of [unat w div 2 ^ 24, unat w div 2 ^ 16, unat w div 2 ^ 8, unat w]"
  by (simp add: to_be_bytes_def unat_drop_bit)

lemma length_to_be_bytes [simp]: "length (to_be_bytes w) = 4"
  by (simp add: to_be_bytes_def)

lemma unat_lt_u32: "unat (w :: 32 word) < 2 ^ LENGTH(32)"
  by (rule unsigned_less)

lemma base256:
  assumes "(x :: nat) < 2 ^ 32"
  shows "256 * (256 * (256 * (x div 2 ^ 24 mod 256) + x div 2 ^ 16 mod 256) + x div 2 ^ 8 mod 256) + x mod 256 = x"
proof -
  define a b c where "a = x div 256" and "b = a div 256" and "c = b div 256"
  have d: "x div 2 ^ 8 = a" "x div 2 ^ 16 = b" "x div 2 ^ 24 = c"
    by (simp_all add: a_def b_def c_def div_mult2_eq [symmetric])
  have "c < 256" using assms by (simp add: a_def b_def c_def div_mult2_eq [symmetric] less_mult_imp_div_less)
  then have "256 * (c mod 256) + b mod 256 = b" by (simp add: c_def)
  moreover have "256 * b + a mod 256 = a" by (simp add: b_def)
  moreover have "256 * a + x mod 256 = x" by (simp add: a_def)
  ultimately show ?thesis unfolding d by simp
qed

lemma from_to_be_bytes: "from_be_bytes (to_be_bytes w) = w"
  using base256 [of "unat w"] unat_lt_u32 [of w]
  by (simp add: from_be_bytes_def to_be_bytes_nat)

text \<open>The bytes of one frame.\<close>

definition frame_bytes :: "bytes \<Rightarrow> bytes" where
  "frame_bytes payload = to_be_bytes (of_nat (length payload)) @ payload"

lemma write_frame_ok [stream_simps]:
  "wr_fault c = None \<Longrightarrow> write_frame payload c = (Ok (), c\<lparr>tx := tx c @ frame_bytes payload\<rparr>)"
  by (simp add: write_frame_def stream_simps frame_bytes_def)

text \<open>Reading one frame off a stream that starts with a frame header.\<close>

lemma read_frame_spec:
  assumes "good_segs ss" and "flat ss = to_be_bytes w @ rest"
  shows "if unat w \<le> length rest
    then \<exists>ss'. read_frame ss = (Ok (take (unat w) rest), ss') \<and> flat ss' = drop (unat w) rest \<and> good_segs ss'
    else fst (read_frame ss) = Err (IoError UnexpectedEof ''early eof'')"
proof -
  obtain ss1 where h: "read_exact 4 [] ss = (Ok (to_be_bytes w), ss1)" "flat ss1 = rest" "good_segs ss1"
    using read_exact_refines [OF assms(1), of 4 "[]"] assms(2) by auto
  then show ?thesis
    using read_exact_refines [OF h(3), of "unat w" "[]"] by (auto simp: read_frame_def from_to_be_bytes)
qed

text \<open>C32: Reading back what \<^verbatim>\<open>write_frame\<close> wrote returns the payload and leaves the stream at the byte
  after the frame, for every payload shorter than 4 GiB, whatever follows on the stream and
  however the bytes are cut into segments.\<close>

theorem frame_roundtrip:
  assumes "length payload < 2 ^ 32" and "wr_fault c = None" and "tx c = []"
    and "good_segs ss" and "flat ss = tx (snd (write_frame payload c)) @ rest"
  shows "\<exists>ss'. read_frame ss = (Ok payload, ss') \<and> flat ss' = rest \<and> good_segs ss'"
proof -
  have u: "unat (of_nat (length payload) :: 32 word) = length payload"
    using assms(1) by (simp add: unat_of_nat)
  have "flat ss = to_be_bytes (of_nat (length payload)) @ (payload @ rest)"
    using assms(2,3,5) by (simp add: write_frame_ok frame_bytes_def)
  from read_frame_spec [OF assms(4) this] show ?thesis by (simp add: u)
qed

theorem frame_roundtrip_witness:
  "\<exists>ss'. read_frame [Data [CHR 0x00, CHR 0x00], Data [CHR 0x00, CHR 0x02, CHR ''h''], Data ''i!''] = (Ok ''hi'', ss')
     \<and> flat ss' = ''!'' \<and> good_segs ss'"
  by (rule frame_roundtrip [of "''hi''" "\<lparr>rx = [], tx = [], wr_fault = None\<rparr>" _ "''!''"])
     (simp_all, code_simp)

text \<open>A frame whose stream ends before the announced number of bytes is an error, never a short
  payload.\<close>

lemma frame_truncated:
  assumes "good_segs ss" and "flat ss = to_be_bytes w @ rest" and "length rest < unat w"
  shows "fst (read_frame ss) = Err (IoError UnexpectedEof ''early eof'')"
  using read_frame_spec [OF assms(1,2)] assms(3) by simp

text \<open>A payload of 4 GiB or more is written with a wrapped length: the reader returns only its
  first \<open>length mod 2 ^ 32\<close> bytes and takes the rest for the next frame.\<close>

lemma frame_length_wraps:
  assumes "2 ^ 32 \<le> length payload" and "wr_fault c = None" and "tx c = []"
    and "good_segs ss" and "flat ss = tx (snd (write_frame payload c))"
  shows "\<exists>ss'. read_frame ss = (Ok (take (length payload mod 2 ^ 32) payload), ss')
     \<and> flat ss' = drop (length payload mod 2 ^ 32) payload \<and> flat ss' \<noteq> []"
proof -
  have u: "unat (of_nat (length payload) :: 32 word) = length payload mod 2 ^ 32"
    by (simp add: unat_of_nat)
  have "length payload mod 2 ^ 32 < length payload"
    using assms(1) by (meson less_le_trans mod_less_divisor zero_less_numeral zero_less_power)
  moreover have "flat ss = to_be_bytes (of_nat (length payload)) @ payload"
    using assms(2,3,5) by (simp add: write_frame_ok frame_bytes_def)
  from read_frame_spec [OF assms(4) this] calculation show ?thesis by (auto simp: u)
qed

end
