(* ===== verification/Quic_Proxy.thy ===== *)
theory Quic_Proxy
  imports Proxy_Http Grpc_Proxy Framing
begin

text \<open>
  The QUIC front ends, \<^verbatim>\<open>crates/service-proxy/src/quic_proxy/mod.rs\<close>: raw QUIC streams that carry one
  length-prefixed frame each way, and HTTP/3. The transports \<^verbatim>\<open>quinn\<close> and \<^verbatim>\<open>h3\<close> are outside; their
  streams are sequences of arrivals and of sent events, and their accept loops see a list of
  events.
\<close>

section \<open>Raw QUIC\<close>

record quic_stream =
  q_recv :: "seg list"
  q_send :: tcp
  q_finished :: bool

text \<open>How a stream handler ended, its stream, and the warning it logged.\<close>

record quic_handled =
  qh_end :: "(unit, io_error) outcome"
  qh_stream :: quic_stream
  qh_warns :: "warning list"

definition handle_quic_stream :: "'n runtime \<Rightarrow> quic_stream \<Rightarrow> SelectorKind \<Rightarrow> 'n ForwarderKind
    \<Rightarrow> quic_handled \<times> SelectorKind \<times> 'n ForwarderKind" where
  "handle_quic_stream rt st sel fwd =
     (case read_frame (q_recv st) of
        (Ok payload, ss) \<Rightarrow>
          (let st1 = st\<lparr>q_recv := ss\<rparr>
           in case exchange rt (echo_request payload) sel fwd of
                (Ok (addr, resp), sel', fwd') \<Rightarrow>
                  (case write_frame (rs_body resp) (q_send st1) of
                     (Ok _, w) \<Rightarrow> (\<lparr>qh_end = Ok (), qh_stream = st1\<lparr>q_send := w, q_finished := True\<rparr>, qh_warns = []\<rparr>, sel', fwd')
                   | (r, w) \<Rightarrow> (\<lparr>qh_end = r, qh_stream = st1\<lparr>q_send := w\<rparr>, qh_warns = []\<rparr>, sel', fwd'))
              | (Err (addr, e), sel', fwd') \<Rightarrow>
                  (\<lparr>qh_end = Ok (), qh_stream = st1, qh_warns = [WarnForward addr e]\<rparr>, sel', fwd')
              | (Panic, sel', fwd') \<Rightarrow> (\<lparr>qh_end = Panic, qh_stream = st1, qh_warns = []\<rparr>, sel', fwd')
              | (Pending, sel', fwd') \<Rightarrow> (\<lparr>qh_end = Pending, qh_stream = st1, qh_warns = []\<rparr>, sel', fwd'))
      | (Err e, ss) \<Rightarrow> (\<lparr>qh_end = Err e, qh_stream = st\<lparr>q_recv := ss\<rparr>, qh_warns = []\<rparr>, sel, fwd)
      | (Panic, ss) \<Rightarrow> (\<lparr>qh_end = Panic, qh_stream = st\<lparr>q_recv := ss\<rparr>, qh_warns = []\<rparr>, sel, fwd)
      | (Pending, ss) \<Rightarrow> (\<lparr>qh_end = Pending, qh_stream = st\<lparr>q_recv := ss\<rparr>, qh_warns = []\<rparr>, sel, fwd))"

text \<open>
  The accept loops: which handlers they spawn. \<^verbatim>\<open>handle_quic_conn\<close> spawns one handler for every
  stream until accepting fails; \<^verbatim>\<open>serve_quic\<close> one for every incoming connection, and a handshake
  that fails is only logged.
\<close>

fun handle_quic_conn :: "('s, 'e) outcome list \<Rightarrow> 's list" where
  "handle_quic_conn [] = []"
| "handle_quic_conn (Ok s # evs) = s # handle_quic_conn evs"
| "handle_quic_conn (Err e # evs) = []"
| "handle_quic_conn (Panic # evs) = []"
| "handle_quic_conn (Pending # evs) = []"

fun quic_incoming :: "(('s, 'e) outcome list, string) outcome list \<Rightarrow> 's list list \<times> string list" where
  "quic_incoming [] = ([], [])"
| "quic_incoming (Ok conn # evs) = (case quic_incoming evs of (cs, ws) \<Rightarrow> (handle_quic_conn conn # cs, ws))"
| "quic_incoming (Err e # evs) = (case quic_incoming evs of (cs, ws) \<Rightarrow> (cs, (''quic accept: '' @ e) # ws))"
| "quic_incoming (Panic # evs) = quic_incoming evs"
| "quic_incoming (Pending # evs) = quic_incoming evs"

text \<open>The whole server: without an endpoint (the first argument is what \<^verbatim>\<open>Endpoint::server\<close> returns) nothing is accepted.\<close>

definition serve_quic :: "(unit, string) outcome \<Rightarrow> (('s, 'e) outcome list, string) outcome list
    \<Rightarrow> ('s list list \<times> string list) \<times> (unit, string) outcome" where
  "serve_quic endpoint evs = (case endpoint of Ok _ \<Rightarrow> (quic_incoming evs, Ok ()) | r \<Rightarrow> (([], []), r))"

section \<open>HTTP/3\<close>

datatype h3_event = SendResponse u16 "(string \<times> bytes) list" | SendData bytes | SendFinish

datatype h3_error = H3Recv io_error | H3Build | H3Send io_error

record h3_stream =
  h3_recv :: "seg list"
  h3_sent :: "h3_event list"
  h3_fault :: "(nat \<times> io_error) option"

text \<open>\<^verbatim>\<open>recv_data\<close> until it returns \<^verbatim>\<open>None\<close>\<close>

fun recv_all :: "bytes \<Rightarrow> seg list \<Rightarrow> (bytes, io_error) outcome \<times> seg list" where
  "recv_all acc [] = (Ok acc, [])"
| "recv_all acc (Data bs # ss) = recv_all (acc @ bs) ss"
| "recv_all acc (Fail e # ss) = (Err e, ss)"
| "recv_all acc (Stall # ss) = (Pending, Stall # ss)"

text \<open>One send; after as many sends as \<open>h3_fault\<close> says, they fail.\<close>

definition h3_send :: "h3_event \<Rightarrow> h3_stream \<Rightarrow> (unit, h3_error) outcome \<times> h3_stream" where
  "h3_send ev st =
     (case h3_fault st of
        None \<Rightarrow> (Ok (), st\<lparr>h3_sent := h3_sent st @ [ev]\<rparr>)
      | Some (0, e) \<Rightarrow> (Err (H3Send e), st)
      | Some (Suc k, e) \<Rightarrow> (Ok (), st\<lparr>h3_sent := h3_sent st @ [ev], h3_fault := Some (k, e)\<rparr>))"

fun h3_sends :: "h3_event list \<Rightarrow> h3_stream \<Rightarrow> (unit, h3_error) outcome \<times> h3_stream" where
  "h3_sends [] st = (Ok (), st)"
| "h3_sends (ev # evs) st =
     (case h3_send ev st of (Ok _, st') \<Rightarrow> h3_sends evs st' | (r, st') \<Rightarrow> (r, st'))"

definition h3_reply :: "http_build \<Rightarrow> u16 \<Rightarrow> (string \<times> string) list \<Rightarrow> bytes \<Rightarrow> h3_stream
    \<Rightarrow> (unit, h3_error) outcome \<times> h3_stream" where
  "h3_reply hb status hs body st =
     (case hb status hs of
        None \<Rightarrow> (Err H3Build, st)
      | Some hs' \<Rightarrow> h3_sends [SendResponse status hs', SendData body, SendFinish] st)"

definition handle_http3_request :: "http_build \<Rightarrow> HttpHead \<Rightarrow> 'n runtime \<Rightarrow> h3_stream \<Rightarrow> SelectorKind \<Rightarrow> 'n ForwarderKind
    \<Rightarrow> ((unit, h3_error) outcome \<times> h3_stream) \<times> SelectorKind \<times> 'n ForwarderKind" where
  "handle_http3_request hb req rt st sel fwd =
     (case recv_all [] (h3_recv st) of
        (Ok body, ss) \<Rightarrow>
          (let st1 = st\<lparr>h3_recv := ss\<rparr>
           in case exchange rt (\<lambda>addr. \<lparr>rq_method = hq_method req, rq_path = hyper_path req, rq_host = addr,
                     rq_headers = collect_headers (hq_headers req), rq_body = body\<rparr>) sel fwd of
                (Ok (addr, resp), sel', fwd') \<Rightarrow>
                  (h3_reply hb (rs_status resp) (relayed_headers (rt_order rt) (rs_headers resp)) (rs_body resp) st1, sel', fwd')
              | (Err (addr, e), sel', fwd') \<Rightarrow> (h3_reply hb 502 [] ''bad gateway'' st1, sel', fwd')
              | (Panic, sel', fwd') \<Rightarrow> ((Panic, st1), sel', fwd')
              | (Pending, sel', fwd') \<Rightarrow> ((Pending, st1), sel', fwd'))
      | (Err e, ss) \<Rightarrow> ((Err (H3Recv e), st\<lparr>h3_recv := ss\<rparr>), sel, fwd)
      | (Panic, ss) \<Rightarrow> ((Panic, st\<lparr>h3_recv := ss\<rparr>), sel, fwd)
      | (Pending, ss) \<Rightarrow> ((Pending, st\<lparr>h3_recv := ss\<rparr>), sel, fwd))"

text \<open>The accept loops of HTTP/3: the requests that get a handler, and the warnings.\<close>

datatype 'r h3_accept = AcceptRequest "('r, string) outcome" | AcceptClosed | AcceptError string

fun http3_requests :: "'r h3_accept list \<Rightarrow> 'r list \<times> string list" where
  "http3_requests [] = ([], [])"
| "http3_requests (AcceptClosed # evs) = ([], [])"
| "http3_requests (AcceptError e # evs) = ([], [''http3 accept stream: '' @ e])"
| "http3_requests (AcceptRequest r # evs) =
     (case http3_requests evs of (rs, ws) \<Rightarrow>
        (case r of
           Ok req \<Rightarrow> (req # rs, ws)
         | Err e \<Rightarrow> (rs, (''http3 resolve: '' @ e) # ws)
         | _ \<Rightarrow> (rs, ws)))"

text \<open>The first argument is what \<^verbatim>\<open>h3::server::Connection::new\<close> returns.\<close>

definition handle_http3_conn :: "(unit, string) outcome \<Rightarrow> 'r h3_accept list \<Rightarrow> ('r list \<times> string list) \<times> (unit, string) outcome" where
  "handle_http3_conn h3_conn evs = (case h3_conn of Ok _ \<Rightarrow> (http3_requests evs, Ok ()) | r \<Rightarrow> (([], []), r))"

text \<open>The warnings of a connection's task: those of its loop, and the error it returned.\<close>

definition http3_conn_task :: "(unit, string) outcome \<times> 'r h3_accept list \<Rightarrow> 'r list \<times> string list" where
  "http3_conn_task c =
     (case handle_http3_conn (fst c) (snd c) of
        ((rs, ws), Err e) \<Rightarrow> (rs, ws @ [''http3 conn: '' @ e]) | (rws, _) \<Rightarrow> rws)"

fun http3_incoming :: "((unit, string) outcome \<times> 'r h3_accept list, string) outcome list \<Rightarrow> ('r list \<times> string list) list \<times> string list" where
  "http3_incoming [] = ([], [])"
| "http3_incoming (Ok conn # evs) = (case http3_incoming evs of (cs, ws) \<Rightarrow> (http3_conn_task conn # cs, ws))"
| "http3_incoming (Err e # evs) = (case http3_incoming evs of (cs, ws) \<Rightarrow> (cs, (''http3 accept: '' @ e) # ws))"
| "http3_incoming (Panic # evs) = http3_incoming evs"
| "http3_incoming (Pending # evs) = http3_incoming evs"

definition serve_http3 :: "(unit, string) outcome \<Rightarrow> ((unit, string) outcome \<times> 'r h3_accept list, string) outcome list
    \<Rightarrow> (('r list \<times> string list) list \<times> string list) \<times> (unit, string) outcome" where
  "serve_http3 endpoint evs = (case endpoint of Ok _ \<Rightarrow> (http3_incoming evs, Ok ()) | r \<Rightarrow> (([], []), r))"

section \<open>Both handlers keep the contract of a front end\<close>

interpretation quic: frontend handle_quic_stream "\<lambda>h. returned (qh_end h)"
proof
  fix rt :: "'n runtime" and i s f r s' f'
  assume "handle_quic_stream rt i s f = (r, s', f')"
  then show "s' = s \<and> f' = f \<or> (\<exists>mk x. exchange rt mk s f = (x, s', f') \<and> (returned (qh_end r) \<longrightarrow> returned x))"
    unfolding handle_quic_stream_def Let_def
    by (auto split: prod.splits outcome.splits) (metis returned.simps)+
qed

interpretation http3: frontend "handle_http3_request hb req" "\<lambda>r. returned (fst r)"
proof
  fix rt :: "'n runtime" and i s f r s' f'
  assume "handle_http3_request hb req rt i s f = (r, s', f')"
  then show "s' = s \<and> f' = f \<or> (\<exists>mk x. exchange rt mk s f = (x, s', f') \<and> (returned (fst r) \<longrightarrow> returned x))"
    unfolding handle_http3_request_def Let_def
    by (auto split: prod.splits outcome.splits) (metis returned.simps)+
qed

section \<open>What an HTTP/3 client gets\<close>

lemma recv_all_flat: "good_segs ss \<Longrightarrow> recv_all acc ss = (Ok (acc @ flat ss), [])"
proof (induction acc ss rule: recv_all.induct)
qed auto

text \<open>
  HTTP/3 over the connection pools: whatever the chunks of the request body, when the selected upstream
  answers and the response builder accepts its status and headers, the handler ends well after
  sending exactly one response head with that status, the body in one piece, and the end of the
  stream, in this order.
\<close>

lemma http3_relays:
  assumes "good_segs (h3_recv stm)" and "h3_fault stm = None"
    and "sel_next (rt_rng rt) (new_selector as st) = (Ok (addr, tok), sel1)" and "rng_ok (rt_rng rt)"
    and "length as \<le> 2 ^ 31" and "0 < n" and "rt_net rt addr = Connected up" and "answers up ho' resp"
    and "hb (rs_status resp) (relayed_headers (rt_order rt) (sent_headers ho' resp)) = Some hs"
  shows "\<exists>stm' s' f'. handle_http3_request hb req rt stm (new_selector as st) (PoolF (manager_new nt as n)) = ((Ok (), stm'), s', f')
    \<and> h3_sent stm' = h3_sent stm @ [SendResponse (rs_status resp) hs, SendData (rs_body resp), SendFinish]"
proof -
  let ?mk = "\<lambda>addr. \<lparr>rq_method = hq_method req, rq_path = hyper_path req, rq_host = addr,
      rq_headers = collect_headers (hq_headers req), rq_body = flat (h3_recv stm)\<rparr>"
  have "addr \<in> set as" using sel_next_addr [OF assms(3)] by (simp add: new_selector_addrs)
  then obtain f1 where fw: "forwarder_forward rt addr (?mk addr) (PoolF (manager_new nt as n)) = (Ok (relayed ho' resp), f1)"
    using forwarder_pool_answers [OF assms(7,8) _ assms(6)] by blast
  obtain sel2 where "exchange rt ?mk (new_selector as st) (PoolF (manager_new nt as n)) = (Ok (addr, relayed ho' resp), sel2, f1)"
    using exchange_returns [where mk = ?mk, OF sel_session.fresh assms(5,4,3) fw] by auto
  then show ?thesis
    using assms(1,2,9) by (simp add: handle_http3_request_def recv_all_flat relayed_def h3_reply_def h3_send_def)
qed

end
