(* ===== verification/Config.thy ===== *)
theory Config
  imports Rust_Strings
begin

text \<open>
  The environment configuration, \<^verbatim>\<open>crates/service-proxy/src/config.rs\<close>: modes, the settings record
  and its loading. The process environment is a map from names to values that are UTF-8
  (\<^verbatim>\<open>env::var\<close> treats any other value as unset).
\<close>

section \<open>Data\<close>

datatype Mode = TcpSync | TcpGoroutine | Http2 | Grpc | Pooled | Quic | Http3

record Config =
  listen_addr :: string
  upstream_addrs :: "string list"
  mode :: Mode
  lb_strategy :: string
  stats_addr :: string
  pprof_addr :: string
  tokio_metrics_addr :: string
  pool_size_per_upstream :: usize
  worker_pool_size :: usize
  worker_queue_depth :: usize

text \<open>The modes can be enumerated, so that a statement about all of them can be evaluated.\<close>

instantiation Mode :: enum
begin

definition enum_Mode :: "Mode list" where
  "enum_Mode = [TcpSync, TcpGoroutine, Http2, Grpc, Pooled, Quic, Http3]"

definition enum_all_Mode :: "(Mode \<Rightarrow> bool) \<Rightarrow> bool" where
  "enum_all_Mode P \<longleftrightarrow> list_all P [TcpSync, TcpGoroutine, Http2, Grpc, Pooled, Quic, Http3]"

definition enum_ex_Mode :: "(Mode \<Rightarrow> bool) \<Rightarrow> bool" where
  "enum_ex_Mode P \<longleftrightarrow> list_ex P [TcpSync, TcpGoroutine, Http2, Grpc, Pooled, Quic, Http3]"

instance
proof
  have all: "m \<in> set [TcpSync, TcpGoroutine, Http2, Grpc, Pooled, Quic, Http3]" for m :: Mode by (cases m) auto
  show "(UNIV :: Mode set) = set enum_class.enum" using all unfolding enum_Mode_def by blast
  show "distinct (enum_class.enum :: Mode list)" unfolding enum_Mode_def by simp
  show "enum_class.enum_all P \<longleftrightarrow> Ball UNIV P" for P :: "Mode \<Rightarrow> bool"
    using all unfolding enum_all_Mode_def list_all_iff by blast
  show "enum_class.enum_ex P \<longleftrightarrow> Bex UNIV P" for P :: "Mode \<Rightarrow> bool"
    using all unfolding enum_ex_Mode_def list_ex_iff by blast
qed

end

type_synonym env = "string \<Rightarrow> bytes option"

section \<open>Operations\<close>

definition mode_parse :: "string \<Rightarrow> Mode" where
  "mode_parse s =
     (if s = ''tcp-goroutine'' then TcpGoroutine
      else if s = ''http2'' then Http2
      else if s = ''grpc'' then Grpc
      else if s = ''pooled'' then Pooled
      else if s = ''quic'' then Quic
      else if s = ''http3'' then Http3
      else TcpSync)"

fun mode_as_str :: "Mode \<Rightarrow> string" where
  "mode_as_str TcpSync = ''tcp-sync''"
| "mode_as_str TcpGoroutine = ''tcp-goroutine''"
| "mode_as_str Http2 = ''http2''"
| "mode_as_str Grpc = ''grpc''"
| "mode_as_str Pooled = ''pooled''"
| "mode_as_str Quic = ''quic''"
| "mode_as_str Http3 = ''http3''"

text \<open>\<^verbatim>\<open>std::env::var\<close>\<close>

definition env_var :: "env \<Rightarrow> string \<Rightarrow> string option" where
  "env_var e key = (case e key of None \<Rightarrow> None | Some v \<Rightarrow> if utf8_valid v then Some v else None)"

definition env_or :: "env \<Rightarrow> string \<Rightarrow> string \<Rightarrow> string" where
  "env_or e key dflt = (case env_var e key of Some v \<Rightarrow> v | None \<Rightarrow> dflt)"

definition env_int :: "env \<Rightarrow> string \<Rightarrow> usize \<Rightarrow> usize" where
  "env_int e key dflt =
     (case env_var e key of
        None \<Rightarrow> dflt
      | Some v \<Rightarrow> (case parse_uint usize_max v of None \<Rightarrow> dflt | Some n \<Rightarrow> of_nat n))"

definition split_addrs :: "string \<Rightarrow> string list" where
  "split_addrs s = filter (\<lambda>p. p \<noteq> []) (map trim (split_char (CHR '','') s))"

definition config_load :: "env \<Rightarrow> Config" where
  "config_load e =
     \<lparr>listen_addr = env_or e ''LISTEN_ADDR'' '':8080'',
      upstream_addrs = split_addrs (env_or e ''UPSTREAM_ADDRS'' (env_or e ''UPSTREAM_ADDR'' ''upstream:9000'')),
      mode = mode_parse (env_or e ''PROXY_MODE'' ''tcp-sync''),
      lb_strategy = env_or e ''LB_STRATEGY'' '''',
      stats_addr = env_or e ''STATS_ADDR'' '''',
      pprof_addr = env_or e ''PPROF_ADDR'' '''',
      tokio_metrics_addr = env_or e ''TOKIO_METRICS_ADDR'' '''',
      pool_size_per_upstream = env_int e ''POOL_SIZE_PER_UPSTREAM'' 16,
      worker_pool_size = env_int e ''WORKER_POOL_SIZE'' 64,
      worker_queue_depth = env_int e ''WORKER_QUEUE_DEPTH'' 256\<rparr>"

section \<open>Properties\<close>

fun join_commas :: "string list \<Rightarrow> string" where
  "join_commas [] = []"
| "join_commas [a] = a"
| "join_commas (a # as) = a @ CHR '','' # join_commas as"

lemma split_char_no_sep: "c \<notin> set a \<Longrightarrow> split_char c a = [a]"
  by (induction a) auto

lemma split_char_append: "c \<notin> set a \<Longrightarrow> split_char c (a @ c # s) = a # split_char c s"
  by (induction a) auto

lemma split_char_join:
  "as \<noteq> [] \<Longrightarrow> \<forall>a\<in>set as. CHR '','' \<notin> set a \<Longrightarrow> split_char (CHR '','') (join_commas as) = as"
  by (induction as rule: join_commas.induct) (auto simp: split_char_no_sep split_char_append)

text \<open>A list of upstream addresses survives the comma-separated environment variable: splitting
  the joined list gives the list back, for addresses without commas or surrounding white space.\<close>

lemma split_addrs_roundtrip:
  assumes "\<forall>a\<in>set as. a \<noteq> [] \<and> CHR '','' \<notin> set a \<and> trimmed a"
  shows "split_addrs (join_commas as) = as"
proof (cases "as = []")
  case True
  then show ?thesis by (simp add: split_addrs_def trim_trimmed trimmed_def)
next
  case False
  then have "split_char (CHR '','') (join_commas as) = as" using assms by (simp add: split_char_join)
  moreover have "map trim as = as" using assms by (simp add: map_idI trim_trimmed)
  ultimately show ?thesis using assms by (simp add: split_addrs_def)
qed

text \<open>Every mode name the proxy prints is parsed back to that mode.\<close>

lemma mode_roundtrip: "mode_parse (mode_as_str m) = m"
proof -
  have "\<forall>m. mode_parse (mode_as_str m) = m" by code_simp
  then show ?thesis by blast
qed

text \<open>The settings of a run with an empty environment are the documented defaults, and no loaded
  upstream address is empty whatever the environment.\<close>

lemma config_defaults:
  "config_load (\<lambda>_. None) =
     \<lparr>listen_addr = '':8080'', upstream_addrs = [''upstream:9000''], mode = TcpSync, lb_strategy = '''',
      stats_addr = '''', pprof_addr = '''', tokio_metrics_addr = '''', pool_size_per_upstream = 16,
      worker_pool_size = 64, worker_queue_depth = 256\<rparr>
   \<and> [] \<notin> set (upstream_addrs (config_load e))"
proof -
  have "list_all plain ''upstream:9000''" by (simp add: plain_def)
  then have "split_addrs ''upstream:9000'' = [''upstream:9000'']"
    by (simp add: split_addrs_def trim_trimmed trimmed_plain)
  then show ?thesis
    by (auto simp: config_load_def env_or_def env_var_def env_int_def mode_parse_def split_addrs_def)
qed

end
