(* ===== verification/Tls_Setup.thy ===== *)
theory Tls_Setup
  imports Conn_Pool
begin

text \<open>
  The TLS configurations of the QUIC modes: the proxy's self-signed server configuration
  (\<^verbatim>\<open>crates/service-proxy/src/quic_proxy/tls.rs\<close>) and the client configurations of the two QUIC smoke
  clients with their certificate verifier that accepts everything
  (\<^verbatim>\<open>crates/quic-smoke-client/src/main.rs\<close>, \<^verbatim>\<open>crates/http3-smoke-client/src/main.rs\<close>). The crates \<^verbatim>\<open>rcgen\<close>,
  \<^verbatim>\<open>rustls\<close> and \<^verbatim>\<open>quinn\<close> are parameters: certificates and keys are values of their own types, and a
  handshake is a function with the documented rules of certificate verification and ALPN.
\<close>

section \<open>The server\<close>

record ('cert, 'key) tls_server =
  ts_certs :: "'cert list"
  ts_key :: 'key
  ts_alpn_protocols :: "bytes list"
  ts_max_early_data_size :: "32 word"

record ('cert, 'key) ServerConfig =
  sv_crypto :: "('cert, 'key) tls_server"
  sv_max_concurrent_bidi_streams :: "32 word"

record ('cert, 'key) crypto_api =
  cr_simple_self_signed :: "string list \<Rightarrow> ('cert \<times> 'key, string) outcome"
  cr_with_single_cert :: "'cert list \<Rightarrow> 'key \<Rightarrow> (('cert, 'key) tls_server, string) outcome"
  cr_quic_server :: "('cert, 'key) tls_server \<Rightarrow> (unit, string) outcome"

definition generate_self_signed_server_config ::
    "('cert, 'key) crypto_api \<Rightarrow> string list \<Rightarrow> (('cert, 'key) ServerConfig, string) outcome" where
  "generate_self_signed_server_config cr alpn =
     (case cr_simple_self_signed cr [''localhost''] of
        Ok (cert_der, key_der) \<Rightarrow>
          (case cr_with_single_cert cr [cert_der] key_der of
             Ok tls0 \<Rightarrow>
               (let tls = tls0\<lparr>ts_alpn_protocols := alpn, ts_max_early_data_size := - 1\<rparr>
                in case cr_quic_server cr tls of
                     Ok _ \<Rightarrow> Ok \<lparr>sv_crypto = tls, sv_max_concurrent_bidi_streams = 10000\<rparr>
                   | Err e \<Rightarrow> Err e | Panic \<Rightarrow> Panic | Pending \<Rightarrow> Pending)
           | Err e \<Rightarrow> Err e | Panic \<Rightarrow> Panic | Pending \<Rightarrow> Pending)
      | Err e \<Rightarrow> Err e | Panic \<Rightarrow> Panic | Pending \<Rightarrow> Pending)"

section \<open>The clients\<close>

text \<open>A verifier for certificates and handshake signatures; what it is asked about does not matter here.\<close>

record ('cert, 'sig) verifier =
  vf_server_cert :: "'cert \<Rightarrow> 'cert list \<Rightarrow> string \<Rightarrow> (unit, string) outcome"
  vf_tls12_signature :: "bytes \<Rightarrow> 'cert \<Rightarrow> 'sig \<Rightarrow> (unit, string) outcome"
  vf_tls13_signature :: "bytes \<Rightarrow> 'cert \<Rightarrow> 'sig \<Rightarrow> (unit, string) outcome"

record ('cert, 'sig) ClientConfig =
  cl_verifier :: "('cert, 'sig) verifier"
  cl_alpn_protocols :: "bytes list"

text \<open>Each client has its own copy of the verifier and of the configuration: first the HTTP/3 client.\<close>

definition SkipServerVerification :: "('cert, 'sig) verifier" where
  "SkipServerVerification =
     \<lparr>vf_server_cert = \<lambda>end_entity intermediates server_name. Ok (),
      vf_tls12_signature = \<lambda>message cert dss. Ok (),
      vf_tls13_signature = \<lambda>message cert dss. Ok ()\<rparr>"

definition insecure_client_config ::
    "(('cert, 'sig) ClientConfig \<Rightarrow> (unit, string) outcome) \<Rightarrow> (('cert, 'sig) ClientConfig, string) outcome" where
  "insecure_client_config quic_client =
     (let tls = \<lparr>cl_verifier = SkipServerVerification, cl_alpn_protocols = [''h3'']\<rparr>
      in case quic_client tls of
           Ok _ \<Rightarrow> Ok tls
         | Err e \<Rightarrow> Err e | Panic \<Rightarrow> Panic | Pending \<Rightarrow> Pending)"

text \<open>The raw QUIC client.\<close>

definition quic_SkipServerVerification :: "('cert, 'sig) verifier" where
  "quic_SkipServerVerification =
     \<lparr>vf_server_cert = \<lambda>end_entity intermediates server_name. Ok (),
      vf_tls12_signature = \<lambda>message cert dss. Ok (),
      vf_tls13_signature = \<lambda>message cert dss. Ok ()\<rparr>"

definition quic_insecure_client_config ::
    "(('cert, 'sig) ClientConfig \<Rightarrow> (unit, string) outcome) \<Rightarrow> (('cert, 'sig) ClientConfig, string) outcome" where
  "quic_insecure_client_config quic_client =
     (let tls = \<lparr>cl_verifier = quic_SkipServerVerification, cl_alpn_protocols = [''service-proxy-quic'']\<rparr>
      in case quic_client tls of
           Ok _ \<Rightarrow> Ok tls
         | Err e \<Rightarrow> Err e | Panic \<Rightarrow> Panic | Pending \<Rightarrow> Pending)"

text \<open>A client that accepts every certificate and offers one protocol, as both configurations do.\<close>

definition trusting :: "string \<Rightarrow> ('cert, 'sig) ClientConfig \<Rightarrow> bool" where
  "trusting protocol cl \<longleftrightarrow> cl_alpn_protocols cl = [protocol]
     \<and> (\<forall>c cs n. vf_server_cert (cl_verifier cl) c cs n = Ok ()) \<and> (\<forall>m c sg. vf_tls13_signature (cl_verifier cl) m c sg = Ok ())"

lemma trusting_clients:
  "insecure_client_config qc = Ok cl \<Longrightarrow> trusting ''h3'' cl"
  "quic_insecure_client_config qc = Ok cl \<Longrightarrow> trusting ''service-proxy-quic'' cl"
  by (auto simp: insecure_client_config_def quic_insecure_client_config_def SkipServerVerification_def
      quic_SkipServerVerification_def trusting_def Let_def split: outcome.splits)

section \<open>The handshake\<close>

text \<open>
  The documented rules: the client verifies the chain of the server for the name it dialled and the
  server's signature over the handshake, and both must agree on a protocol if both name any; the
  protocol is the first of the server's that the client offers.
\<close>

definition alpn_choice :: "bytes list \<Rightarrow> bytes list \<Rightarrow> bytes option" where
  "alpn_choice server client = List.find (\<lambda>p. p \<in> set client) server"

definition handshake_laws ::
    "(('cert, 'key) ServerConfig \<Rightarrow> ('cert, 'sig) ClientConfig \<Rightarrow> string \<Rightarrow> (bytes, string) outcome) \<Rightarrow> bool" where
  "handshake_laws hs \<longleftrightarrow> (\<forall>sv cl name p.
     ts_certs (sv_crypto sv) \<noteq> [] \<longrightarrow> ts_alpn_protocols (sv_crypto sv) \<noteq> [] \<longrightarrow> cl_alpn_protocols cl \<noteq> [] \<longrightarrow>
     vf_server_cert (cl_verifier cl) (hd (ts_certs (sv_crypto sv))) (tl (ts_certs (sv_crypto sv))) name = Ok () \<longrightarrow>
     (\<forall>m sg. vf_tls13_signature (cl_verifier cl) m (hd (ts_certs (sv_crypto sv))) sg = Ok ()) \<longrightarrow>
     (hs sv cl name = Ok p \<longleftrightarrow> alpn_choice (ts_alpn_protocols (sv_crypto sv)) (cl_alpn_protocols cl) = Some p))"

text \<open>What \<^verbatim>\<open>with_single_cert\<close> promises: the configuration holds the certificate and the key it was given.\<close>

definition crypto_laws :: "('cert, 'key) crypto_api \<Rightarrow> bool" where
  "crypto_laws cr \<longleftrightarrow> (\<forall>cs k tls. cr_with_single_cert cr cs k = Ok tls \<longrightarrow> ts_certs tls = cs \<and> ts_key tls = k)"

lemma server_config_fields:
  assumes "generate_self_signed_server_config cr alpn = Ok sv" and "crypto_laws cr"
  shows "ts_alpn_protocols (sv_crypto sv) = alpn" and "length (ts_certs (sv_crypto sv)) = 1"
    and "\<exists>cert. cr_simple_self_signed cr [''localhost''] = Ok (cert, ts_key (sv_crypto sv)) \<and> ts_certs (sv_crypto sv) = [cert]"
    and "unat (ts_max_early_data_size (sv_crypto sv)) = 2 ^ 32 - 1" and "unat (sv_max_concurrent_bidi_streams sv) = 10000"
proof -
  obtain cert key tls0 where tls0: "cr_simple_self_signed cr [''localhost''] = Ok (cert, key)"
      "cr_with_single_cert cr [cert] key = Ok tls0"
    and sv: "sv = \<lparr>sv_crypto = tls0\<lparr>ts_alpn_protocols := alpn, ts_max_early_data_size := - 1\<rparr>, sv_max_concurrent_bidi_streams = 10000\<rparr>"
    using assms(1) by (auto simp: generate_self_signed_server_config_def Let_def split: outcome.splits)
  have "ts_certs tls0 = [cert]" and "ts_key tls0 = key" using tls0(2) assms(2) by (auto simp: crypto_laws_def)
  with tls0(1) show "ts_alpn_protocols (sv_crypto sv) = alpn" and "length (ts_certs (sv_crypto sv)) = 1"
    and "\<exists>cert. cr_simple_self_signed cr [''localhost''] = Ok (cert, ts_key (sv_crypto sv)) \<and> ts_certs (sv_crypto sv) = [cert]"
    and "unat (ts_max_early_data_size (sv_crypto sv)) = 2 ^ 32 - 1" and "unat (sv_max_concurrent_bidi_streams sv) = 10000"
    by (simp_all add: sv unsigned_minus_1_eq_mask mask_eq_exp_minus_1)
qed

text \<open>Such a client connects to a server of either mode exactly if the server speaks its protocol.\<close>

lemma trusting_handshake:
  assumes "generate_self_signed_server_config cr alpn = Ok sv" and "crypto_laws cr" and "handshake_laws hs"
    and "trusting protocol cl" and "alpn \<noteq> []"
  shows "hs sv cl name = Ok p \<longleftrightarrow> p = protocol \<and> protocol \<in> set alpn"
proof -
  note f = server_config_fields [OF assms(1,2)]
  have "ts_certs (sv_crypto sv) \<noteq> []" using f(2) by auto
  then have "hs sv cl name = Ok p \<longleftrightarrow> alpn_choice alpn [protocol] = Some p"
    using assms(3-5) f(1) by (simp add: handshake_laws_def trusting_def)
  also have "alpn_choice alpn [protocol] = (if protocol \<in> set alpn then Some protocol else None)"
    by (induction alpn) (auto simp: alpn_choice_def)
  finally show ?thesis by auto
qed

end
