(* ===== verification/Service_Main.thy ===== *)
theory Service_Main
  imports Config Proxy_Http Quic_Proxy Tls_Setup
begin

text \<open>
  The program's entry, \<^verbatim>\<open>crates/service-proxy/src/main.rs\<close>: what \<^verbatim>\<open>main\<close> sets up from the environment
  before it serves (selector, forwarder, listeners, optional endpoints), and the accept loops. Name
  resolution, binding of sockets and the crypto library are parameters; a listener is the list of
  what its calls of \<^verbatim>\<open>accept\<close> return.
\<close>

section \<open>Listening addresses\<close>

type_synonym 'sa resolver = "string \<Rightarrow> ('sa list, string) outcome"

definition parse_listen_addr :: "'sa resolver \<Rightarrow> string \<Rightarrow> ('sa, string) outcome" where
  "parse_listen_addr rs addr =
     (let normalized = (case strip_prefix '':'' addr of Some port \<Rightarrow> ''0.0.0.0:'' @ port | None \<Rightarrow> addr)
      in case rs normalized of
           Ok [] \<Rightarrow> Err ''invalid listen addr''
         | Ok (sa # _) \<Rightarrow> Ok sa
         | Err e \<Rightarrow> Err e | Panic \<Rightarrow> Panic | Pending \<Rightarrow> Pending)"

record ('sa, 'cert, 'key) os =
  os_resolve :: "'sa resolver"
  os_bind_tcp :: "'sa \<Rightarrow> (unit, string) outcome"
  os_crypto :: "('cert, 'key) crypto_api"
  os_bind_quic :: "('cert, 'key) ServerConfig \<Rightarrow> 'sa \<Rightarrow> (unit, string) outcome"
  os_channel :: "usize \<Rightarrow> (unit, string) outcome"   \<comment> \<open>whether \<^verbatim>\<open>mpsc::channel\<close> accepts the capacity\<close>

definition bind_tcp :: "('sa, 'cert, 'key) os \<Rightarrow> string \<Rightarrow> ('sa, string) outcome" where
  "bind_tcp os addr =
     (case parse_listen_addr (os_resolve os) addr of
        Ok sa \<Rightarrow> (case os_bind_tcp os sa of Ok _ \<Rightarrow> Ok sa | Err e \<Rightarrow> Err e | Panic \<Rightarrow> Panic | Pending \<Rightarrow> Pending)
      | Err e \<Rightarrow> Err e | Panic \<Rightarrow> Panic | Pending \<Rightarrow> Pending)"

section \<open>Starting up\<close>

text \<open>What is running once \<^verbatim>\<open>main\<close> has reached its serving loop.\<close>

record ('n, 'sa, 'cert, 'key) service =
  sc_selector :: SelectorKind
  sc_forwarder :: "'n ForwarderKind"
  sc_listen :: 'sa
  sc_pprof :: "'sa option"
  sc_stats :: "'sa option"
  sc_metrics :: "'sa option"
  sc_workers :: "(usize \<times> usize) option"   \<comment> \<open>the queue depth and the number of workers of \<^verbatim>\<open>serve_pooled\<close>\<close>
  sc_quic :: "('cert, 'key) ServerConfig option"
  sc_warns :: "string list"

definition optional_addr :: "('sa, 'cert, 'key) os \<Rightarrow> bool \<Rightarrow> string \<Rightarrow> ('sa option, string) outcome" where
  "optional_addr os wanted addr =
     (if wanted \<and> addr \<noteq> [] then
        (case parse_listen_addr (os_resolve os) addr of
           Ok sa \<Rightarrow> Ok (Some sa) | Err e \<Rightarrow> Err e | Panic \<Rightarrow> Panic | Pending \<Rightarrow> Pending)
      else Ok None)"

text \<open>
  \<^verbatim>\<open>maybe_spawn_tokio_metrics\<close>: only a build with \<^verbatim>\<open>tokio_unstable\<close> uses the address, the other one warns.
\<close>

definition maybe_spawn_tokio_metrics :: "('sa, 'cert, 'key) os \<Rightarrow> bool \<Rightarrow> Config \<Rightarrow> ('sa option \<times> string list, string) outcome" where
  "maybe_spawn_tokio_metrics os tokio_unstable cfg =
     (if tokio_unstable then map_outcome (\<lambda>sa. (sa, [])) id (optional_addr os True (tokio_metrics_addr cfg))
      else Ok (None, if tokio_metrics_addr cfg \<noteq> []
        then [''TOKIO_METRICS_ADDR is set but this binary wasn't built with --cfg tokio_unstable; ignoring''] else []))"

definition pooled_forwarder :: "'n notify_api \<Rightarrow> Config \<Rightarrow> 'n ForwarderKind" where
  "pooled_forwarder nt cfg = PoolF (manager_new nt (upstream_addrs cfg) (pool_size_per_upstream cfg))"

text \<open>
  \<^verbatim>\<open>serve_quic_mode\<close> and \<^verbatim>\<open>serve_http3_mode\<close> up to their accept loops (\<^verbatim>\<open>serve_quic\<close> and \<^verbatim>\<open>serve_http3\<close> of
  theory \<^verbatim>\<open>Quic_Proxy\<close>).
\<close>

definition bind_quic :: "('sa, 'cert, 'key) os \<Rightarrow> string list \<Rightarrow> string \<Rightarrow> ('sa \<times> ('cert, 'key) ServerConfig option, string) outcome" where
  "bind_quic os alpn addr =
     (case parse_listen_addr (os_resolve os) addr of
        Ok sa \<Rightarrow>
          (case generate_self_signed_server_config (os_crypto os) alpn of
             Ok server_config \<Rightarrow>
               (case os_bind_quic os server_config sa of
                  Ok _ \<Rightarrow> Ok (sa, Some server_config)
                | Err e \<Rightarrow> Err e | Panic \<Rightarrow> Panic | Pending \<Rightarrow> Pending)
           | Err e \<Rightarrow> Err e | Panic \<Rightarrow> Panic | Pending \<Rightarrow> Pending)
      | Err e \<Rightarrow> Err e | Panic \<Rightarrow> Panic | Pending \<Rightarrow> Pending)"

definition serve_quic_mode :: "'n notify_api \<Rightarrow> ('sa, 'cert, 'key) os \<Rightarrow> Config
    \<Rightarrow> (('sa \<times> ('cert, 'key) ServerConfig option) \<times> 'n ForwarderKind, string) outcome" where
  "serve_quic_mode nt os cfg =
     map_outcome (\<lambda>l. (l, pooled_forwarder nt cfg)) id (bind_quic os [''service-proxy-quic''] (listen_addr cfg))"

definition serve_http3_mode :: "'n notify_api \<Rightarrow> ('sa, 'cert, 'key) os \<Rightarrow> Config
    \<Rightarrow> (('sa \<times> ('cert, 'key) ServerConfig option) \<times> 'n ForwarderKind, string) outcome" where
  "serve_http3_mode nt os cfg =
     map_outcome (\<lambda>l. (l, pooled_forwarder nt cfg)) id (bind_quic os [''h3''] (listen_addr cfg))"

text \<open>The match on the mode: the listener, the forwarder, and the workers of the pooled mode.\<close>

definition start_mode :: "'n notify_api \<Rightarrow> ('sa, 'cert, 'key) os \<Rightarrow> Config
    \<Rightarrow> (('sa \<times> ('cert, 'key) ServerConfig option) \<times> 'n ForwarderKind \<times> (usize \<times> usize) option, string) outcome" where
  "start_mode nt os cfg =
     (let tcp = (\<lambda>fwd. map_outcome (\<lambda>sa. ((sa, None), fwd, None)) id (bind_tcp os (listen_addr cfg)))
      in case mode cfg of
           Quic \<Rightarrow> map_outcome (\<lambda>(l, fwd). (l, fwd, None)) id (serve_quic_mode nt os cfg)
         | Http3 \<Rightarrow> map_outcome (\<lambda>(l, fwd). (l, fwd, None)) id (serve_http3_mode nt os cfg)
         | Http2 \<Rightarrow> tcp DialF
         | Grpc \<Rightarrow> tcp (pooled_forwarder nt cfg)
         | Pooled \<Rightarrow>
             (case bind_tcp os (listen_addr cfg) of
                Ok sa \<Rightarrow>
                  (case os_channel os (worker_queue_depth cfg) of
                     Ok _ \<Rightarrow> Ok ((sa, None), pooled_forwarder nt cfg, Some (worker_queue_depth cfg, worker_pool_size cfg))
                   | _ \<Rightarrow> Panic)
              | Err e \<Rightarrow> Err e | Panic \<Rightarrow> Panic | Pending \<Rightarrow> Pending)
         | TcpSync \<Rightarrow> tcp DialF
         | TcpGoroutine \<Rightarrow> tcp DialF)"

definition main_start :: "'n notify_api \<Rightarrow> ('sa, 'cert, 'key) os \<Rightarrow> bool \<Rightarrow> env
    \<Rightarrow> (('n, 'sa, 'cert, 'key) service, string) outcome" where
  "main_start nt os tokio_unstable e =
     (let cfg = config_load e; sel = new_selector (upstream_addrs cfg) (lb_strategy cfg)
      in case optional_addr os True (pprof_addr cfg) of
           Ok pprof \<Rightarrow>
             (case optional_addr os (has_stats sel) (stats_addr cfg) of
                Ok stats \<Rightarrow>
                  (case maybe_spawn_tokio_metrics os tokio_unstable cfg of
                     Ok (metrics, warns) \<Rightarrow>
                       (case start_mode nt os cfg of
                          Ok ((sa, quic), fwd, ws) \<Rightarrow>
                            Ok \<lparr>sc_selector = sel, sc_forwarder = fwd, sc_listen = sa, sc_pprof = pprof,
                                sc_stats = stats, sc_metrics = metrics, sc_workers = ws, sc_quic = quic,
                                sc_warns = warns\<rparr>
                        | Err x \<Rightarrow> Err x | Panic \<Rightarrow> Panic | Pending \<Rightarrow> Pending)
                   | Err x \<Rightarrow> Err x | Panic \<Rightarrow> Panic | Pending \<Rightarrow> Pending)
              | Err x \<Rightarrow> Err x | Panic \<Rightarrow> Panic | Pending \<Rightarrow> Pending)
         | Err x \<Rightarrow> Err x | Panic \<Rightarrow> Panic | Pending \<Rightarrow> Pending)"

section \<open>Accept loops\<close>

text \<open>
  \<^verbatim>\<open>loop { let (conn, _) = ln.accept().await?; tokio::spawn(..); }\<close>: the connections that get a task, and
  how the loop ends; it only waits when the listener has nothing more to give.
\<close>

fun accept_each :: "('c, string) outcome list \<Rightarrow> 'c list \<times> (unit, string) outcome" where
  "accept_each [] = ([], Pending)"
| "accept_each (Ok c # evs) = (case accept_each evs of (cs, r) \<Rightarrow> (c # cs, r))"
| "accept_each (Err e # evs) = ([], Err e)"
| "accept_each (Panic # evs) = ([], Panic)"
| "accept_each (Pending # evs) = ([], Pending)"

text \<open>What \<^verbatim>\<open>serve_http\<close> leaves behind: tasks it spawned, connections it handled itself, the shared state.\<close>

record 'n served =
  sd_end :: "(unit, string) outcome"
  sd_spawned :: "('n runtime \<times> tcp) list"
  sd_handled :: "handled list"
  sd_selector :: SelectorKind
  sd_forwarder :: "'n ForwarderKind"

text \<open>
  The branch of \<^verbatim>\<open>tcp-sync\<close>: each connection (with the state of the network at its time) is handled
  before the next is accepted. A handler that blocks blocks the loop, a panic ends it.
\<close>

fun serve_http_sync :: "httparse \<Rightarrow> ('n runtime \<times> tcp, string) outcome list \<Rightarrow> SelectorKind \<Rightarrow> 'n ForwarderKind \<Rightarrow> 'n served" where
  "serve_http_sync hp [] sel fwd =
     \<lparr>sd_end = Pending, sd_spawned = [], sd_handled = [], sd_selector = sel, sd_forwarder = fwd\<rparr>"
| "serve_http_sync hp (Ok (rt, conn) # evs) sel fwd =
     (case handle_conn hp rt conn sel fwd of
        (h, sel1, fwd1) \<Rightarrow>
          (case h_end h of
             Ok _ \<Rightarrow> (let d = serve_http_sync hp evs sel1 fwd1 in d\<lparr>sd_handled := h # sd_handled d\<rparr>)
           | Pending \<Rightarrow> \<lparr>sd_end = Pending, sd_spawned = [], sd_handled = [h], sd_selector = sel1, sd_forwarder = fwd1\<rparr>
           | _ \<Rightarrow> \<lparr>sd_end = Panic, sd_spawned = [], sd_handled = [h], sd_selector = sel1, sd_forwarder = fwd1\<rparr>))"
| "serve_http_sync hp (r # evs) sel fwd =
     \<lparr>sd_end = map_outcome (\<lambda>_. ()) id r, sd_spawned = [], sd_handled = [], sd_selector = sel, sd_forwarder = fwd\<rparr>"

definition serve_http :: "httparse \<Rightarrow> Mode \<Rightarrow> ('n runtime \<times> tcp, string) outcome list \<Rightarrow> SelectorKind \<Rightarrow> 'n served" where
  "serve_http hp md evs sel =
     (let forwarder = DialF
      in case md of
           TcpGoroutine \<Rightarrow> (case accept_each evs of (cs, r) \<Rightarrow>
             \<lparr>sd_end = r, sd_spawned = cs, sd_handled = [], sd_selector = sel, sd_forwarder = forwarder\<rparr>)
         | _ \<Rightarrow> serve_http_sync hp evs sel forwarder)"

text \<open>\<^verbatim>\<open>serve_http2\<close>: every connection is served by hyper with a clone of one service.\<close>

definition serve_http2 :: "('c, string) outcome list \<Rightarrow> SelectorKind \<Rightarrow> ('c \<times> 'n ProxyService) list \<times> (unit, string) outcome" where
  "serve_http2 evs sel =
     (let service = \<lparr>ps_selector = sel, ps_forwarder = DialF\<rparr>
      in case accept_each evs of (cs, r) \<Rightarrow> (map (\<lambda>c. (c, service)) cs, r))"

text \<open>
  \<^verbatim>\<open>serve_grpc\<close>: \<^verbatim>\<open>tonic\<close>, with its limit on pending resets, serves the incoming stream of connections; it
  is a parameter.
\<close>

definition serve_grpc :: "(nat option \<Rightarrow> 'n GrpcProxy \<Rightarrow> ('c, string) outcome list \<Rightarrow> (unit, string) outcome)
    \<Rightarrow> 'n notify_api \<Rightarrow> Config \<Rightarrow> ('c, string) outcome list \<Rightarrow> SelectorKind \<Rightarrow> (unit, string) outcome" where
  "serve_grpc tonic nt cfg incoming sel = tonic (Some 1024) (grpc_new sel (pooled_forwarder nt cfg)) incoming"

text \<open>
  \<^verbatim>\<open>serve_stats\<close> as a server (its service is in theory \<^verbatim>\<open>Admin_Endpoints\<close>), and the task that \<^verbatim>\<open>main\<close>
  spawns for it: an error of the endpoint is only logged.
\<close>

definition serve_stats :: "('sa, 'cert, 'key) os \<Rightarrow> 'sa \<Rightarrow> ('c, string) outcome list \<Rightarrow> SelectorKind
    \<Rightarrow> ('c \<times> SelectorKind) list \<times> (unit, string) outcome" where
  "serve_stats os addr evs sel =
     (case os_bind_tcp os addr of
        Ok _ \<Rightarrow> (case accept_each evs of (cs, r) \<Rightarrow> (map (\<lambda>c. (c, sel)) cs, r))
      | Err e \<Rightarrow> ([], Err e) | Panic \<Rightarrow> ([], Panic) | Pending \<Rightarrow> ([], Pending))"

definition serve_pprof :: "('sa, 'cert, 'key) os \<Rightarrow> 'sa \<Rightarrow> ('c, string) outcome list \<Rightarrow> 'c list \<times> (unit, string) outcome" where
  "serve_pprof os addr evs =
     (case os_bind_tcp os addr of
        Ok _ \<Rightarrow> accept_each evs | Err e \<Rightarrow> ([], Err e) | Panic \<Rightarrow> ([], Panic) | Pending \<Rightarrow> ([], Pending))"

definition serve_tokio_metrics :: "('sa, 'cert, 'key) os \<Rightarrow> 'sa \<Rightarrow> ('c, string) outcome list \<Rightarrow> 'c list \<times> (unit, string) outcome" where
  "serve_tokio_metrics os addr evs =
     (case os_bind_tcp os addr of
        Ok _ \<Rightarrow> accept_each evs | Err e \<Rightarrow> ([], Err e) | Panic \<Rightarrow> ([], Panic) | Pending \<Rightarrow> ([], Pending))"

text \<open>The three endpoints beside the proxy: what main's spawned tasks log when a server returns.\<close>

definition endpoint_warnings :: "string \<Rightarrow> (unit, string) outcome \<Rightarrow> string list" where
  "endpoint_warnings label r = (case r of Err e \<Rightarrow> [label @ '': '' @ e] | _ \<Rightarrow> [])"

section \<open>Properties\<close>

text \<open>The exchanges of any front ends, one after the other, on the state that \<^verbatim>\<open>main\<close> set up.\<close>

inductive after_exchanges :: "SelectorKind \<times> 'n ForwarderKind \<Rightarrow> SelectorKind \<times> 'n ForwarderKind \<Rightarrow> bool" for w where
  none: "after_exchanges w w"
| another: "\<lbrakk> after_exchanges w (s, f); exchange rt mk s f = (r, s', f') \<rbrakk> \<Longrightarrow> after_exchanges w (s', f')"

lemma start_mode_serves:
  assumes "start_mode nt os cfg = Ok (sa, fwd, ws)"
  shows "fwd = DialF \<or> fwd = pooled_forwarder nt cfg"
  using assms
  by (auto simp: start_mode_def serve_quic_mode_def serve_http3_mode_def map_outcome_Ok_iff Let_def split: outcome.splits Mode.splits)

lemma main_start_parts:
  assumes "main_start nt os u e = Ok svc"
  shows "sc_selector svc = new_selector (upstream_addrs (config_load e)) (lb_strategy (config_load e))"
    and "sc_forwarder svc = DialF \<or> sc_forwarder svc = pooled_forwarder nt (config_load e)"
  using assms by (auto simp: main_start_def Let_def split: outcome.splits dest!: start_mode_serves)

lemma main_start_serves:
  assumes "main_start nt os u e = Ok svc"
  shows "serves (sc_forwarder svc) (sc_selector svc)"
  using main_start_parts [OF assms] serves_new pooled_forwarder_def serves.simps(1) by metis

lemma after_exchanges_serves:
  "after_exchanges w w' \<Longrightarrow> serves (snd w) (fst w) \<Longrightarrow> serves (snd w') (fst w')"
  by (induction rule: after_exchanges.induct) (auto dest: exchange_serves)

text \<open>An environment that only sets the mode and the strategy.\<close>

definition mode_env :: "string \<Rightarrow> string \<Rightarrow> env" where
  "mode_env m lb k = (if k = ''PROXY_MODE'' then Some m else if k = ''LB_STRATEGY'' then Some lb else None)"

abbreviation example_env :: "string \<Rightarrow> env" where "example_env \<equiv> mode_env ''grpc''"

definition example_crypto :: "(unit, unit) crypto_api" where
  "example_crypto = \<lparr>cr_simple_self_signed = \<lambda>_. Ok ((), ()),
     cr_with_single_cert = \<lambda>cs k. Ok \<lparr>ts_certs = cs, ts_key = k, ts_alpn_protocols = [], ts_max_early_data_size = 0\<rparr>,
     cr_quic_server = \<lambda>_. Ok ()\<rparr>"

definition example_os :: "(unit, unit, unit) os" where
  "example_os = \<lparr>os_resolve = \<lambda>_. Ok [()], os_bind_tcp = \<lambda>_. Ok (), os_crypto = example_crypto,
     os_bind_quic = \<lambda>_ _. Ok (), os_channel = \<lambda>_. Ok ()\<rparr>"

lemma mode_env_config:
  assumes "utf8_valid lb"
  shows "upstream_addrs (config_load (mode_env m lb)) = [''upstream:9000'']" "lb_strategy (config_load (mode_env m lb)) = lb"
  "pprof_addr (config_load (mode_env m lb)) = []" "stats_addr (config_load (mode_env m lb)) = []"
  "tokio_metrics_addr (config_load (mode_env m lb)) = []" "pool_size_per_upstream (config_load (mode_env m lb)) = 16"
proof -
  have "list_all plain ''upstream:9000''" by (simp add: plain_def)
  then have "split_addrs ''upstream:9000'' = [''upstream:9000'']"
    by (simp add: split_addrs_def trim_trimmed trimmed_plain)
  then show "upstream_addrs (config_load (mode_env m lb)) = [''upstream:9000'']" "lb_strategy (config_load (mode_env m lb)) = lb"
    "pprof_addr (config_load (mode_env m lb)) = []" "stats_addr (config_load (mode_env m lb)) = []"
    "tokio_metrics_addr (config_load (mode_env m lb)) = []" "pool_size_per_upstream (config_load (mode_env m lb)) = 16"
    using assms by (simp_all add: config_load_def mode_env_def env_or_def env_var_def env_int_def)
qed

lemma mode_env_mode: "utf8_valid m \<Longrightarrow> mode (config_load (mode_env m lb)) = mode_parse m"
  by (simp add: config_load_def mode_env_def env_or_def env_var_def)

lemma example_mode: "mode (config_load (example_env lb)) = Grpc"
  using mode_env_mode [of "''grpc''"] utf8_valid_ascii [of "''grpc''"] by (simp add: mode_parse_def)

lemma example_start:
  assumes "utf8_valid lb"
  shows "main_start nt example_os False (example_env lb) = Ok
     \<lparr>sc_selector = new_selector [''upstream:9000''] lb, sc_forwarder = PoolF (manager_new nt [''upstream:9000''] 16),
      sc_listen = (), sc_pprof = None, sc_stats = None, sc_metrics = None, sc_workers = None, sc_quic = None, sc_warns = []\<rparr>"
  using assms
  by (simp add: main_start_def mode_env_config example_mode optional_addr_def maybe_spawn_tokio_metrics_def start_mode_def
      bind_tcp_def parse_listen_addr_def example_os_def pooled_forwarder_def split: option.splits)

lemma accept_each_error: "accept_each (map Ok cs @ Err e # evs) = (cs, Err e)"
  by (induction cs) simp_all

lemma accept_each_all: "accept_each (map Ok cs) = (cs, Pending)"
  by (induction cs) simp_all

lemma serve_sync_error:
  assumes "list_all (\<lambda>h. h_end h = Ok ()) (sd_handled (serve_http_sync hp (map Ok cs) sel fwd))"
  shows "serve_http_sync hp (map Ok cs @ Err e # evs) sel fwd = (serve_http_sync hp (map Ok cs) sel fwd)\<lparr>sd_end := Err e\<rparr>"
  using assms
proof (induction cs arbitrary: sel fwd)
  case (Cons c cs)
  obtain rt conn where c: "c = (rt, conn)" by (cases c)
  obtain h sel1 fwd1 where h: "handle_conn hp rt conn sel fwd = (h, sel1, fwd1)" by (metis prod_cases3)
  have "h_end h = Ok ()" using Cons.prems c h by (auto simp: Let_def split: outcome.splits)
  then show ?case using Cons.IH [of sel1 fwd1] Cons.prems c h by (simp add: Let_def)
qed simp

text \<open>C35: One error of \<^verbatim>\<open>accept\<close> ends the service: in the TCP modes and in the HTTP/2 mode, whatever the listener
  would still give is not served; exactly the connections accepted before get a handler, with the
  same results as without the error, and the error is the result of the serving loop, which \<^verbatim>\<open>main\<close>
  returns.\<close>

theorem accept_error_ends_service:
  assumes "list_all (\<lambda>h. h_end h = Ok ()) (sd_handled (serve_http hp md (map Ok cs) sel))"
  shows "serve_http hp md (map Ok cs @ Err e # evs) sel = (serve_http hp md (map Ok cs) sel)\<lparr>sd_end := Err e\<rparr>
    \<and> serve_http2 (map Ok cs @ Err e # evs) sel = (fst (serve_http2 (map Ok cs) sel), Err e)"
  using assms serve_sync_error [of hp cs sel DialF e evs]
  by (cases md) (simp_all add: serve_http_def serve_http2_def accept_each_error accept_each_all)

theorem accept_error_ends_service_witness:
  "sd_end (serve_http example_parse TcpSync [Ok (example_runtime ConnectElapsed, \<lparr>rx = [], tx = [], wr_fault = None\<rparr>),
       Err ''too many open files'', Ok (example_runtime ConnectElapsed, \<lparr>rx = [], tx = [], wr_fault = None\<rparr>)]
       (new_selector [''u:1''] ''fixed'')) = Err ''too many open files''"
proof -
  let ?c = "\<lparr>rx = [], tx = [], wr_fault = None\<rparr>"
  let ?cs = "[(example_runtime ConnectElapsed, ?c)]"
  have "list_all (\<lambda>h. h_end h = Ok ()) (sd_handled (serve_http example_parse TcpSync (map Ok ?cs) (new_selector [''u:1''] ''fixed'')))"
    by (simp add: serve_http_def handle_conn_def read_http11_request_def read_http11.simps Let_def)
  from conjunct1 [OF accept_error_ends_service [OF this, of "''too many open files''" "[Ok (example_runtime ConnectElapsed, ?c)]"]]
  have "sd_end (serve_http example_parse TcpSync (map Ok ?cs @ Err ''too many open files'' # [Ok (example_runtime ConnectElapsed, ?c)])
      (new_selector [''u:1''] ''fixed'')) = Err ''too many open files''" by (rule ssubst) simp
  then show ?thesis by simp
qed

end
