(* ===== verification/Smoke_Clients.thy ===== *)
theory Smoke_Clients
  imports Quic_Proxy Service_Main
begin

text \<open>
  The three smoke clients, \<^verbatim>\<open>crates/quic-smoke-client\<close>, \<^verbatim>\<open>crates/http3-smoke-client\<close> and
  \<^verbatim>\<open>crates/grpc-smoke-client\<close>, from the command line to the line they print. Address resolution, the
  endpoint, the URI parser and the transports are parameters; the theorems run client, proxy and
  upstream together.
\<close>

section \<open>What the clients share\<close>

text \<open>\<^verbatim>\<open>Box<dyn Error>\<close>: a message, or an error of a stream.\<close>

datatype boxed_error = BoxMsg string | BoxIo io_error

abbreviation boxed :: "('a, string) outcome \<Rightarrow> ('a, boxed_error) outcome" where
  "boxed r \<equiv> map_err BoxMsg r"

definition or_default :: "string option \<Rightarrow> string \<Rightarrow> string" where
  "or_default arg dflt = (case arg of Some v \<Rightarrow> v | None \<Rightarrow> dflt)"

text \<open>\<^verbatim>\<open>to_socket_addrs()?.next().ok_or("bad addr")?\<close>\<close>

definition first_addr :: "'sa resolver \<Rightarrow> string \<Rightarrow> ('sa, boxed_error) outcome" where
  "first_addr rs target =
     (case boxed (rs target) of
        Ok [] \<Rightarrow> Err (BoxMsg ''bad addr'')
      | Ok (sa # _) \<Rightarrow> Ok sa
      | Err e \<Rightarrow> Err e | Panic \<Rightarrow> Panic | Pending \<Rightarrow> Pending)"

text \<open>
  The environment of a QUIC client: resolver, local endpoint, validation of the TLS configuration,
  the connection to an address under a server name, and the error of a stream that was finished
  before an exact read was satisfied.
\<close>

record ('sa, 'cert, 'sig) quic_env =
  qe_resolve :: "'sa resolver"
  qe_endpoint :: "(unit, string) outcome"
  qe_crypto :: "('cert, 'sig) ClientConfig \<Rightarrow> (unit, string) outcome"
  qe_connect :: "('cert, 'sig) ClientConfig \<Rightarrow> 'sa \<Rightarrow> string \<Rightarrow> (unit, string) outcome"
  qe_finished_early :: io_error

definition quic_connect :: "('sa, 'cert, 'sig) quic_env \<Rightarrow> (('cert, 'sig) ClientConfig, string) outcome \<Rightarrow> string \<Rightarrow> string
    \<Rightarrow> (unit, boxed_error) outcome" where
  "quic_connect qe config target name =
     (case first_addr (qe_resolve qe) target of
        Ok addr \<Rightarrow>
          (case boxed (qe_endpoint qe) of
             Ok _ \<Rightarrow>
               (case boxed config of
                  Ok cfg \<Rightarrow> boxed (qe_connect qe cfg addr name)
                | Err e \<Rightarrow> Err e | Panic \<Rightarrow> Panic | Pending \<Rightarrow> Pending)
           | Err e \<Rightarrow> Err e | Panic \<Rightarrow> Panic | Pending \<Rightarrow> Pending)
      | Err e \<Rightarrow> Err e | Panic \<Rightarrow> Panic | Pending \<Rightarrow> Pending)"

section \<open>The raw QUIC client\<close>

record QuicArgs =
  qa_addr :: string
  qa_payload :: string

definition quic_args :: "string option \<Rightarrow> string option \<Rightarrow> QuicArgs" where
  "quic_args addr payload = \<lparr>qa_addr = or_default addr ''127.0.0.1:8443'', qa_payload = or_default payload ''hello''\<rparr>"

definition quic_client_send :: "string \<Rightarrow> tcp \<Rightarrow> (unit, io_error) outcome \<times> tcp" where
  "quic_client_send payload c =
     (case write_all (to_be_bytes (of_nat (length payload))) c of
        (Ok _, c1) \<Rightarrow> write_all payload c1
      | (r, c1) \<Rightarrow> (r, c1))"

text \<open>
  The exact read of \<^verbatim>\<open>quinn\<close>, which is not tokio's: it reads on until it has \<open>n\<close> bytes, and has an
  error of its own, \<open>early\<close>, for a stream that was finished before.
\<close>

function quinn_read_exact :: "io_error \<Rightarrow> nat \<Rightarrow> bytes \<Rightarrow> seg list \<Rightarrow> (bytes, io_error) outcome \<times> seg list" where
  "quinn_read_exact early n acc ss =
     (if n = 0 then (Ok acc, ss)
      else (case conn_read n ss of
              (Ok xs, ss') \<Rightarrow>
                if xs = [] then (Err early, ss')
                else quinn_read_exact early (n - length xs) (acc @ xs) ss'
            | (Err e, ss') \<Rightarrow> (Err e, ss')
            | (Panic, ss') \<Rightarrow> (Panic, ss')
            | (Pending, ss') \<Rightarrow> (Pending, ss')))"
  by pat_completeness auto
termination
  by (relation "measure (\<lambda>(early, n, acc, ss). segs_size ss)") (auto dest: conn_read_term)

declare quinn_read_exact.simps [simp del]

text \<open>What the client prints, or the error it exits with.\<close>

definition quic_client_recv :: "io_error \<Rightarrow> seg list \<Rightarrow> (string, io_error) outcome" where
  "quic_client_recv early ss =
     (case quinn_read_exact early 4 [] ss of
        (Ok len_buf, ss1) \<Rightarrow>
          (case quinn_read_exact early (unat (from_be_bytes len_buf)) [] ss1 of
             (Ok body, ss2) \<Rightarrow> Ok (from_utf8_lossy body)
           | (Err e, ss2) \<Rightarrow> Err e | (Panic, ss2) \<Rightarrow> Panic | (Pending, ss2) \<Rightarrow> Pending)
      | (Err e, ss1) \<Rightarrow> Err e | (Panic, ss1) \<Rightarrow> Panic | (Pending, ss1) \<Rightarrow> Pending)"

text \<open>
  The whole client: connect, open a stream, send, finish, and read the answer. \<open>open_bi\<close> is the new
  stream, \<open>arrives\<close> what arrives on it after the client has sent its part.
\<close>

definition quic_client_main :: "('sa, 'cert, 'sig) quic_env \<Rightarrow> (tcp, string) outcome \<Rightarrow> (tcp \<Rightarrow> seg list) \<Rightarrow> QuicArgs
    \<Rightarrow> (string, boxed_error) outcome" where
  "quic_client_main qe open_bi arrives args =
     (case quic_connect qe (quic_insecure_client_config (qe_crypto qe)) (qa_addr args) ''localhost'' of
        Ok _ \<Rightarrow>
          (case boxed open_bi of
             Ok stm \<Rightarrow>
               (case quic_client_send (qa_payload args) stm of
                  (Ok _, stm1) \<Rightarrow> map_err BoxIo (quic_client_recv (qe_finished_early qe) (arrives stm1))
                | (Err e, stm1) \<Rightarrow> Err (BoxIo e) | (Panic, stm1) \<Rightarrow> Panic | (Pending, stm1) \<Rightarrow> Pending)
           | Err e \<Rightarrow> Err e | Panic \<Rightarrow> Panic | Pending \<Rightarrow> Pending)
      | Err e \<Rightarrow> Err e | Panic \<Rightarrow> Panic | Pending \<Rightarrow> Pending)"

section \<open>The HTTP/3 client\<close>

record Http3Args =
  ha_url :: string
  ha_payload :: string

definition http3_args :: "string option \<Rightarrow> string option \<Rightarrow> Http3Args" where
  "http3_args url payload =
     \<lparr>ha_url = or_default url ''https://127.0.0.1:8443/echo'', ha_payload = or_default payload ''hello''\<rparr>"

text \<open>What the \<^verbatim>\<open>http\<close> crate makes of a URL.\<close>

record uri =
  uri_host :: "string option"
  uri_port :: "nat option"
  uri_path_and_query :: "string option"
  uri_path :: string

definition http3_host :: "uri \<Rightarrow> string" where
  "http3_host u = (case uri_host u of Some h \<Rightarrow> h | None \<Rightarrow> ''localhost'')"

definition http3_target :: "uri \<Rightarrow> string" where
  "http3_target u = http3_host u @ '':'' @ show_nat (case uri_port u of Some p \<Rightarrow> p | None \<Rightarrow> 443)"

definition http3_head :: "uri \<Rightarrow> HttpHead" where
  "http3_head u = \<lparr>hq_method = ''POST'', hq_path_and_query = uri_path_and_query u, hq_path = uri_path u,
     hq_headers = [(''content-type'', ''application/octet-stream'')]\<rparr>"

text \<open>The answer: the status, then the body in pieces; \<open>show_status\<close> prints a status code.\<close>

definition http3_client_recv :: "(u16 \<Rightarrow> string) \<Rightarrow> u16 \<times> seg list \<Rightarrow> (string, boxed_error) outcome" where
  "http3_client_recv show_status answer =
     (case recv_all [] (snd answer) of
        (Ok body, ss) \<Rightarrow> Ok (''status='' @ show_status (fst answer) @ '' body='' @ from_utf8_lossy body)
      | (Err e, ss) \<Rightarrow> Err (BoxIo e) | (Panic, ss) \<Rightarrow> Panic | (Pending, ss) \<Rightarrow> Pending)"

text \<open>
  The whole client; \<open>request\<close> sends a request with its body over the new connection and gives the
  answer as it arrives.
\<close>

definition http3_client_main :: "('sa, 'cert, 'sig) quic_env \<Rightarrow> (string \<Rightarrow> (uri, string) outcome)
    \<Rightarrow> (HttpHead \<Rightarrow> bytes \<Rightarrow> (u16 \<times> seg list, string) outcome) \<Rightarrow> (u16 \<Rightarrow> string) \<Rightarrow> Http3Args \<Rightarrow> (string, boxed_error) outcome" where
  "http3_client_main qe parse_uri request show_status args =
     (case boxed (parse_uri (ha_url args)) of
        Ok u \<Rightarrow>
          (case quic_connect qe (insecure_client_config (qe_crypto qe)) (http3_target u) (http3_host u) of
             Ok _ \<Rightarrow>
               (case boxed (request (http3_head u) (ha_payload args)) of
                  Ok answer \<Rightarrow> http3_client_recv show_status answer
                | Err e \<Rightarrow> Err e | Panic \<Rightarrow> Panic | Pending \<Rightarrow> Pending)
           | Err e \<Rightarrow> Err e | Panic \<Rightarrow> Panic | Pending \<Rightarrow> Pending)
      | Err e \<Rightarrow> Err e | Panic \<Rightarrow> Panic | Pending \<Rightarrow> Pending)"

section \<open>The gRPC client\<close>

record GrpcArgs =
  ga_addr :: string
  ga_payload :: string

definition grpc_args :: "string option \<Rightarrow> string option \<Rightarrow> GrpcArgs" where
  "grpc_args addr payload = \<lparr>ga_addr = or_default addr ''http://127.0.0.1:8080'', ga_payload = or_default payload ''hello''\<rparr>"

definition grpc_client_main :: "(string \<Rightarrow> (unit, string) outcome) \<Rightarrow> (bytes \<Rightarrow> (EchoResponse, string) outcome) \<Rightarrow> GrpcArgs
    \<Rightarrow> (string, boxed_error) outcome" where
  "grpc_client_main connect call args =
     (case boxed (connect (ga_addr args)) of
        Ok _ \<Rightarrow>
          (case boxed (call (ga_payload args)) of
             Ok resp \<Rightarrow> Ok (''payload='' @ from_utf8_lossy (er_payload resp) @ '' upstream_id='' @ er_upstream_id resp)
           | Err e \<Rightarrow> Err e | Panic \<Rightarrow> Panic | Pending \<Rightarrow> Pending)
      | Err e \<Rightarrow> Err e | Panic \<Rightarrow> Panic | Pending \<Rightarrow> Pending)"

section \<open>The clients' streams\<close>

lemma client_sends_frame:
  "wr_fault c = None \<Longrightarrow> quic_client_send payload c = (Ok (), c\<lparr>tx := tx c @ frame_bytes payload\<rparr>)"
  by (simp add: quic_client_send_def write_all_no_fault frame_bytes_def)

lemma quinn_reads_exact:
  "read_exact n acc ss = (Ok xs, ss') \<Longrightarrow> quinn_read_exact early n acc ss = (Ok xs, ss')"
proof (induction n acc ss rule: read_exact.induct)
  case (1 n acc ss)
  from "1.prems" show ?case
    by (auto simp: read_exact.simps [of n acc ss] quinn_read_exact.simps [of early n acc ss] "1.IH"
        split: if_splits prod.splits outcome.splits)
qed

lemma client_reads_frame: "read_frame ss = (Ok body, ss') \<Longrightarrow> quic_client_recv early ss = Ok (from_utf8_lossy body)"
  by (auto simp: quic_client_recv_def read_frame_def dest!: quinn_reads_exact [where early = early]
      split: prod.splits outcome.splits)

lemma read_frame_written:
  assumes "length payload < 2 ^ 32" and "good_segs ss" and "flat ss = frame_bytes payload @ rest"
  shows "\<exists>ss'. read_frame ss = (Ok payload, ss')"
proof -
  have u: "unat (of_nat (length payload) :: 32 word) = length payload"
    using assms(1) by (simp add: unat_of_nat)
  from read_frame_spec [OF assms(2), of "of_nat (length payload)" "payload @ rest"] show ?thesis
    using assms(3) by (auto simp: frame_bytes_def u)
qed

section \<open>End to end\<close>

lemma quic_clientI:
  assumes "quic_connect qe (quic_insecure_client_config (qe_crypto qe)) (qa_addr args) ''localhost'' = Ok ()" and "wr_fault c = None" and "tx c = []"
  shows "quic_client_main qe (Ok c) arrives args = map_err BoxIo (quic_client_recv (qe_finished_early qe) (arrives (c\<lparr>tx := frame_bytes (qa_payload args)\<rparr>)))"
  using assms by (simp add: quic_client_main_def client_sends_frame)

text \<open>C12: Client, proxy and upstream together over raw QUIC: whatever way the client's bytes and the
  proxy's bytes are cut on the wire, the proxy's handler ends well and finishes its stream, and the
  client, once connected, prints the body of the answer of the upstream that the proxy selected.\<close>

theorem quic_smoke_end_to_end:
  assumes "quic_connect qe (quic_insecure_client_config (qe_crypto qe)) (qa_addr args) ''localhost'' = Ok ()"
    and "wr_fault c = None" and "tx c = []" and "length (qa_payload args) < 2 ^ 32"
    and "good_segs (q_recv stm)" and "flat (q_recv stm) = tx (snd (quic_client_send (qa_payload args) c))"
    and "wr_fault (q_send stm) = None" and "tx (q_send stm) = []"
    and "sel_next (rt_rng rt) (new_selector as st) = (Ok (addr, tok), sel1)" and "rng_ok (rt_rng rt)"
    and "length as \<le> 2 ^ 31" and "0 < n" and "rt_net rt addr = Connected up" and "answers up ho' resp"
    and "length (rs_body resp) < 2 ^ 32"
    and "handle_quic_stream rt stm (new_selector as st) (PoolF (manager_new nt as n)) = (h, s', f')"
    and "good_segs (arrives (snd (quic_client_send (qa_payload args) c)))"
    and "flat (arrives (snd (quic_client_send (qa_payload args) c))) = tx (q_send (qh_stream h))"
  shows "qh_end h = Ok () \<and> q_finished (qh_stream h)
    \<and> quic_client_main qe (Ok c) arrives args = Ok (from_utf8_lossy (rs_body resp))"
proof -
  let ?p = "qa_payload args"
  have snd: "quic_client_send ?p c = (Ok (), c\<lparr>tx := frame_bytes ?p\<rparr>)" using assms(2,3) by (simp add: client_sends_frame)
  then have "flat (q_recv stm) = frame_bytes ?p @ []" using assms(6) by simp
  from read_frame_written [OF assms(4,5) this] obtain ss1 where rf: "read_frame (q_recv stm) = (Ok ?p, ss1)" by blast
  have "addr \<in> set as" using sel_next_addr [OF assms(9)] by (simp add: new_selector_addrs)
  then obtain f1 where fw: "forwarder_forward rt addr (echo_request ?p addr) (PoolF (manager_new nt as n)) = (Ok (relayed ho' resp), f1)"
    using forwarder_pool_answers [OF assms(13,14) _ assms(12)] by blast
  obtain sel2 where "exchange rt (echo_request ?p) (new_selector as st) (PoolF (manager_new nt as n))
      = (Ok (addr, relayed ho' resp), sel2, f1)"
    using exchange_returns [where mk = "echo_request ?p", OF sel_session.fresh assms(11,10,9) fw] by auto
  then have h: "h = \<lparr>qh_end = Ok (), qh_stream = stm\<lparr>q_recv := ss1,
      q_send := (q_send stm)\<lparr>tx := frame_bytes (rs_body resp)\<rparr>, q_finished := True\<rparr>, qh_warns = []\<rparr>"
    using assms(7,8,16) rf by (simp add: handle_quic_stream_def write_frame_ok relayed_def)
  let ?ss = "arrives (c\<lparr>tx := frame_bytes ?p\<rparr>)"
  have "good_segs ?ss" and "flat ?ss = frame_bytes (rs_body resp) @ []" using assms(17,18) snd h by simp_all
  from read_frame_written [OF assms(15) this] show ?thesis
    using h quic_clientI [OF assms(1-3)] by (auto dest!: client_reads_frame)
qed

text \<open>An environment in which every step of connecting works.\<close>

definition example_quic_env :: "(unit, unit, unit) quic_env" where
  "example_quic_env = \<lparr>qe_resolve = \<lambda>_. Ok [()], qe_endpoint = Ok (), qe_crypto = \<lambda>_. Ok (), qe_connect = \<lambda>_ _ _. Ok (),
    qe_finished_early = IoError UnexpectedEof ''stream finished early''\<rparr>"

lemma example_quic_connect:
  "quic_connect example_quic_env (quic_insecure_client_config (qe_crypto example_quic_env)) target name = Ok ()"
  "quic_connect example_quic_env (insecure_client_config (qe_crypto example_quic_env)) target name = Ok ()"
  by (simp_all add: quic_connect_def example_quic_env_def first_addr_def insecure_client_config_def quic_insecure_client_config_def)

text \<open>An upstream that answers 200 with a body of two bytes and its identity.\<close>

abbreviation example_answer :: Response where
  "example_answer \<equiv> \<lparr>rs_status = 200, rs_headers = [(''X-Upstream-Id'', [''u1''])], rs_body = ''hi''\<rparr>"

abbreviation example_upstream :: tcp where
  "example_upstream \<equiv> \<lparr>rx = [Data (response_bytes id example_answer)], tx = [], wr_fault = None\<rparr>"

lemma example_answers: "answers example_upstream id example_answer"
proof -
  have p: "list_all plain ''X-Upstream-Id''" "list_all plain ''u1''" by (simp_all add: plain_def)
  have "carriable (''X-Upstream-Id'', [''u1''])"
    using plain_ascii [OF p(1)] plain_ascii [OF p(2)] trimmed_plain [OF p(1)] trimmed_plain [OF p(2)]
    by (simp only: carriable_def) simp
  then show ?thesis
    by (simp add: answers_def hash_order_def sendable_def isize_max_def response_bytes_def)
qed

theorem quic_smoke_end_to_end_witness:
  "\<exists>h s' f'. handle_quic_stream (example_runtime (Connected example_upstream))
      \<lparr>q_recv = [Data (frame_bytes ''hello'')], q_send = \<lparr>rx = [], tx = [], wr_fault = None\<rparr>, q_finished = False\<rparr>
      (new_selector [''u:1''] ''fixed'') (PoolF (manager_new (rt_notify (example_runtime ConnectElapsed)) [''u:1''] 1)) = (h, s', f')
    \<and> qh_end h = Ok () \<and> quic_client_main example_quic_env (Ok \<lparr>rx = [], tx = [], wr_fault = None\<rparr>)
        (\<lambda>_. [Data (tx (q_send (qh_stream h)))]) (quic_args None None) = Ok (from_utf8_lossy ''hi'')"
proof -
  let ?rt = "example_runtime (Connected example_upstream)"
  let ?c = "\<lparr>rx = [], tx = [], wr_fault = None\<rparr>"
  let ?stm = "\<lparr>q_recv = [Data (frame_bytes ''hello'')], q_send = ?c, q_finished = False\<rparr>"
  let ?f = "PoolF (manager_new (rt_notify (example_runtime ConnectElapsed)) [''u:1''] 1)"
  obtain h s' f' where run: "handle_quic_stream ?rt ?stm (new_selector [''u:1''] ''fixed'') ?f = (h, s', f')"
    by (metis prod_cases3)
  let ?arrives = "\<lambda>_ :: tcp. if tx (q_send (qh_stream h)) = [] then [] else [Data (tx (q_send (qh_stream h)))]"
  have e2e: "qh_end h = Ok () \<and> q_finished (qh_stream h)
      \<and> quic_client_main example_quic_env (Ok ?c) ?arrives (quic_args None None) = Ok (from_utf8_lossy (rs_body example_answer))"
    by (rule quic_smoke_end_to_end [OF example_quic_connect(1) _ _ _ _ _ _ _ example_next _ _ _ _ example_answers _ run])
       (simp_all add: quic_args_def or_default_def client_sends_frame frame_bytes_def to_be_bytes_def example_runtime_def rng_ok_def)
  have "tx (q_send (qh_stream h)) \<noteq> []"
  proof
    assume "tx (q_send (qh_stream h)) = []"
    with e2e show False
      by (simp add: quic_clientI example_quic_connect quic_client_recv_def quinn_read_exact.simps)
  qed
  with run e2e show ?thesis by auto
qed

text \<open>C15: Client, proxy and upstream together over HTTP/3: whatever the pieces in which the request body and
  the answer's body arrive, the client, once connected, prints the status and the body of the
  answer of the upstream that the proxy selected.\<close>

theorem http3_smoke_end_to_end:
  assumes "parse_uri (ha_url args) = Ok u" and "quic_connect qe (insecure_client_config (qe_crypto qe)) (http3_target u) (http3_host u) = Ok ()"
    and "good_segs (h3_recv stm)" and "h3_fault stm = None" and "h3_sent stm = []"
    and "sel_next (rt_rng rt) (new_selector as st) = (Ok (addr, tok), sel1)" and "rng_ok (rt_rng rt)"
    and "length as \<le> 2 ^ 31" and "0 < n" and "rt_net rt addr = Connected up" and "answers up ho' resp"
    and "hb (rs_status resp) (relayed_headers (rt_order rt) (sent_headers ho' resp)) = Some hs"
    and "handle_http3_request hb (http3_head u) rt stm (new_selector as st) (PoolF (manager_new nt as n)) = ((r, stm'), s', f')"
    and "\<And>status hs body. h3_sent stm' = [SendResponse status hs, SendData body, SendFinish] \<Longrightarrow>
      \<exists>ss. request (http3_head u) (ha_payload args) = Ok (status, ss) \<and> good_segs ss \<and> flat ss = body"
  shows "r = Ok () \<and> http3_client_main qe parse_uri request show_status args
    = Ok (''status='' @ show_status (rs_status resp) @ '' body='' @ from_utf8_lossy (rs_body resp))"
proof -
  obtain stm1 s1 f1 where "handle_http3_request hb (http3_head u) rt stm (new_selector as st) (PoolF (manager_new nt as n)) = ((Ok (), stm1), s1, f1)"
    and "h3_sent stm1 = h3_sent stm @ [SendResponse (rs_status resp) hs, SendData (rs_body resp), SendFinish]"
    using http3_relays [where hb = hb, OF assms(3,4,6-12)] by blast
  then have r: "r = Ok ()" and "h3_sent stm' = [SendResponse (rs_status resp) hs, SendData (rs_body resp), SendFinish]"
    using assms(5,13) by simp_all
  then obtain ss where "request (http3_head u) (ha_payload args) = Ok (rs_status resp, ss)" and "good_segs ss" and "flat ss = rs_body resp"
    using assms(14) by blast
  then show ?thesis using assms(1,2) r by (simp add: http3_client_main_def http3_client_recv_def recv_all_flat)
qed

theorem http3_smoke_end_to_end_witness:
  "http3_client_main example_quic_env
      (\<lambda>_. Ok \<lparr>uri_host = Some ''127.0.0.1'', uri_port = Some 8443, uri_path_and_query = Some ''/echo'', uri_path = ''/echo''\<rparr>)
      (\<lambda>_ _. case h3_sent (snd (fst (handle_http3_request example_build (http3_head \<lparr>uri_host = Some ''127.0.0.1'', uri_port = Some 8443,
            uri_path_and_query = Some ''/echo'', uri_path = ''/echo''\<rparr>) (example_runtime (Connected example_upstream))
          \<lparr>h3_recv = [Data ''hel'', Data ''lo''], h3_sent = [], h3_fault = None\<rparr> (new_selector [''u:1''] ''fixed'')
          (PoolF (manager_new (rt_notify (example_runtime ConnectElapsed)) [''u:1''] 1))))) of
        [SendResponse status hs, SendData body, SendFinish] \<Rightarrow> Ok (status, if body = [] then [] else [Data body])
      | _ \<Rightarrow> Err ''broken'') (\<lambda>_. ''200 OK'') (http3_args None None)
    = Ok (''status='' @ ''200 OK'' @ '' body='' @ from_utf8_lossy (rs_body example_answer))"
  (is "http3_client_main _ ?parse ?request ?show _ = _")
proof -
  let ?u = "\<lparr>uri_host = Some ''127.0.0.1'', uri_port = Some 8443, uri_path_and_query = Some ''/echo'', uri_path = ''/echo''\<rparr>"
  let ?stm = "\<lparr>h3_recv = [Data ''hel'', Data ''lo''], h3_sent = [], h3_fault = None\<rparr>"
  let ?rt = "example_runtime (Connected example_upstream)"
  let ?f = "PoolF (manager_new (rt_notify (example_runtime ConnectElapsed)) [''u:1''] 1)"
  obtain r stm' s' f' where run: "handle_http3_request example_build (http3_head ?u) ?rt ?stm (new_selector [''u:1''] ''fixed'') ?f
      = ((r, stm'), s', f')" by (metis prod.collapse)
  have hb: "example_build (rs_status example_answer) (relayed_headers (rt_order ?rt) (sent_headers id example_answer))
      = Some (relayed_headers (rt_order ?rt) (sent_headers id example_answer))"
    by (simp add: example_build_def)
  have tr: "\<exists>ss. ?request (http3_head ?u) (ha_payload (http3_args None None)) = Ok (status, ss) \<and> good_segs ss \<and> flat ss = body"
    if "h3_sent stm' = [SendResponse status hs, SendData body, SendFinish]" for status hs body
    using that by (simp add: run)
  have "r = Ok () \<and> http3_client_main example_quic_env ?parse ?request ?show (http3_args None None)
    = Ok (''status='' @ ?show (rs_status example_answer) @ '' body='' @ from_utf8_lossy (rs_body example_answer))"
    by (rule http3_smoke_end_to_end [where u = ?u and request = ?request and show_status = ?show and hb = example_build,
          OF _ example_quic_connect(2) _ _ _ example_next _ _ _ _ example_answers hb run tr])
       (simp_all add: http3_args_def or_default_def example_runtime_def rng_ok_def)
  then show ?thesis by blast
qed

text \<open>C16: Client, proxy and upstream together over gRPC: the client, once connected, prints the body of the
  upstream's answer and the identity that the upstream put into its header.\<close>

theorem grpc_smoke_end_to_end:
  assumes "connect (ga_addr args) = Ok ()"
    and "sel_next (rt_rng rt) (new_selector as st) = (Ok (addr, tok), sel1)" and "rng_ok (rt_rng rt)"
    and "length as \<le> 2 ^ 31" and "0 < n" and "rt_net rt addr = Connected up" and "answers up ho' resp"
    and "(''X-Upstream-Id'', [ident]) \<in> set (rs_headers resp)"
  shows "grpc_client_main connect (\<lambda>payload. fst (echo rt payload (new_selector as st) (PoolF (manager_new nt as n)))) args
    = Ok (''payload='' @ from_utf8_lossy (rs_body resp) @ '' upstream_id='' @ ident)"
  using echo_relays [OF assms(2-8)] assms(1) by (simp add: grpc_client_main_def)

theorem grpc_smoke_end_to_end_witness:
  "grpc_client_main (\<lambda>_. Ok ()) (\<lambda>payload. fst (echo (example_runtime (Connected example_upstream)) payload
      (new_selector [''u:1''] ''fixed'') (PoolF (manager_new (rt_notify (example_runtime ConnectElapsed)) [''u:1''] 1))))
      (grpc_args None None)
    = Ok (''payload='' @ from_utf8_lossy (rs_body example_answer) @ '' upstream_id='' @ ''u1'')"
  by (rule grpc_smoke_end_to_end [OF _ example_next _ _ _ _ example_answers])
     (simp_all add: example_runtime_def rng_ok_def)

section \<open>Clients and modes\<close>

lemma main_start_quic:
  assumes "main_start nt os u e = Ok svc" and "sc_quic svc = Some sv"
  shows "mode (config_load e) = Quic \<and> generate_self_signed_server_config (os_crypto os) [''service-proxy-quic''] = Ok sv
    \<or> mode (config_load e) = Http3 \<and> generate_self_signed_server_config (os_crypto os) [''h3''] = Ok sv"
proof -
  obtain sa fwd ws where "start_mode nt os (config_load e) = Ok ((sa, Some sv), fwd, ws)"
    using assms by (auto simp: main_start_def Let_def split: outcome.splits)
  then show ?thesis
    by (auto simp: start_mode_def serve_quic_mode_def serve_http3_mode_def map_outcome_Ok_iff bind_quic_def Let_def
        split: outcome.splits Mode.splits)
qed

text \<open>C23: Every QUIC mode admits exactly its own smoke client: against a proxy that started in a QUIC mode, with a
  crypto library that follows the rules of certificate verification and ALPN, the handshake of the
  raw QUIC client succeeds exactly in the mode \<^verbatim>\<open>quic\<close> and that of the HTTP/3 client exactly in the
  mode \<^verbatim>\<open>http3\<close>, whatever server name they dial.\<close>

theorem smoke_clients_match_modes:
  assumes "main_start nt os u e = Ok svc" and "sc_quic svc = Some sv" and "crypto_laws (os_crypto os)" and "handshake_laws hs"
    and "quic_insecure_client_config qc = Ok quic_cl" and "insecure_client_config hc = Ok h3_cl"
  shows "((\<exists>p. hs sv quic_cl name = Ok p) \<longleftrightarrow> mode (config_load e) = Quic)
    \<and> ((\<exists>p. hs sv h3_cl name = Ok p) \<longleftrightarrow> mode (config_load e) = Http3)"
  using main_start_quic [OF assms(1,2)] trusting_handshake [OF _ assms(3,4) trusting_clients(2) [OF assms(5)]]
    trusting_handshake [OF _ assms(3,4) trusting_clients(1) [OF assms(6)]]
  by auto

text \<open>A handshake with the documented rules, for one kind of certificate.\<close>

definition example_handshake :: "(unit, unit) ServerConfig \<Rightarrow> (unit, unit) ClientConfig \<Rightarrow> string \<Rightarrow> (bytes, string) outcome" where
  "example_handshake sv cl name =
     (case alpn_choice (ts_alpn_protocols (sv_crypto sv)) (cl_alpn_protocols cl) of
        Some p \<Rightarrow> Ok p | None \<Rightarrow> Err ''no application protocol'')"

lemma example_crypto_laws: "crypto_laws example_crypto"
  by (simp add: crypto_laws_def example_crypto_def)

lemma example_handshake_laws: "handshake_laws example_handshake"
  by (auto simp: handshake_laws_def example_handshake_def split: option.splits)

theorem smoke_clients_match_modes_witness:
  "\<exists>svc sv. main_start (rt_notify (example_runtime ConnectElapsed)) example_os False (mode_env ''quic'' []) = Ok svc \<and> sc_quic svc = Some sv
    \<and> (\<exists>p. example_handshake sv \<lparr>cl_verifier = quic_SkipServerVerification, cl_alpn_protocols = [''service-proxy-quic'']\<rparr> ''localhost'' = Ok p)
    \<and> \<not> (\<exists>p. example_handshake sv \<lparr>cl_verifier = SkipServerVerification, cl_alpn_protocols = [''h3'']\<rparr> ''localhost'' = Ok p)"
proof -
  let ?quic_cl = "\<lparr>cl_verifier = quic_SkipServerVerification, cl_alpn_protocols = [''service-proxy-quic'']\<rparr> :: (unit, unit) ClientConfig"
  let ?h3_cl = "\<lparr>cl_verifier = SkipServerVerification, cl_alpn_protocols = [''h3'']\<rparr> :: (unit, unit) ClientConfig"
  have cl: "quic_insecure_client_config (\<lambda>_. Ok ()) = Ok ?quic_cl" "insecure_client_config (\<lambda>_. Ok ()) = Ok ?h3_cl"
    by (simp_all add: insecure_client_config_def quic_insecure_client_config_def)
  have md: "mode (config_load (mode_env ''quic'' [])) = Quic"
    using mode_env_mode [of "''quic''"] utf8_valid_ascii [of "''quic''"] by (simp add: mode_parse_def)
  obtain svc sv where run: "main_start (rt_notify (example_runtime ConnectElapsed)) example_os False (mode_env ''quic'' []) = Ok svc" and sv: "sc_quic svc = Some sv"
    by (simp add: main_start_def mode_env_config [of "[]"] optional_addr_def maybe_spawn_tokio_metrics_def start_mode_def md
        serve_quic_mode_def bind_quic_def parse_listen_addr_def example_os_def generate_self_signed_server_config_def example_crypto_def
        split: option.splits)
  have "crypto_laws (os_crypto example_os)" using example_crypto_laws by (simp add: example_os_def)
  from smoke_clients_match_modes [OF run sv this example_handshake_laws cl, of "''localhost''"] show ?thesis
    using run sv md by auto
qed

end
