(* ===== verification/Spec2Isabelle.thy ===== *)
theory Spec2Isabelle
  imports Service_Concurrency Balancer_Ties Balancer_Tests Stats_Race Selector_Race Profile_Lock Worker_Pool Smoke_Clients Service_Main
begin

text \<open>
  A verification library for \<^verbatim>\<open>service-proxy\<close>, the Rust reverse proxy under \<^verbatim>\<open>crates/\<close>.

  \<^bold>\<open>The program.\<close> The proxy accepts requests over HTTP/1.1, HTTP/2, gRPC, raw QUIC or HTTP/3 (one of them,
  chosen by \<^verbatim>\<open>PROXY_MODE\<close>), takes an upstream from a load-balancing selector, forwards the request over
  a fresh or a pooled TCP connection in hand-written HTTP/1.1, gives the selector its token back and
  answers. Selector and pools are shared by all requests; optional endpoints show statistics,
  profiles and runtime counters.

  \<^bold>\<open>The theories\<close>, and the files under \<^verbatim>\<open>crates/service-proxy/src/\<close> they model:

  \<^item> \<open>Proxy_Prelude\<close>: machine types, the \<open>outcome\<close> of a Rust call (value, error, panic, or a future that is
    suspended), \<^verbatim>\<open>io::Error\<close>, header maps with an arbitrary iteration order, shared lemmas.
  \<^item> \<open>Rust_Strings\<close>: the string and integer functions of the standard library that the code calls, on UTF-8
    bytes: validation, lossy decoding, splitting, trimming of all Unicode white space, \<^verbatim>\<open>parse\<close>.
  \<^item> \<open>Byte_Streams\<close>: sockets whose bytes arrive in segments cut anywhere, with errors and stalls; \<^verbatim>\<open>BufReader\<close>,
    \<^verbatim>\<open>read_line\<close>, \<^verbatim>\<open>read_exact\<close>, \<^verbatim>\<open>write_all\<close>; each reader refines an operation on the plain bytes.
  \<^item> \<open>Balancer\<close> (\<^verbatim>\<open>upstream/balancer.rs\<close>): the five selectors and their counters. The locale
    \<open>counting_selector\<close> is the contract of the three counting ones and is interpreted by each; sessions
    interleave \<^verbatim>\<open>next\<close>, \<^verbatim>\<open>release\<close> and \<^verbatim>\<open>stats\<close>. \<open>Balancer_Ties\<close>: the tie-breaking of \<^verbatim>\<open>LeastConn\<close> is
    uniform over all answers to the draws it makes. \<open>Balancer_Tests\<close>: the unit tests, for all random draws. \<open>Stats_Race\<close>: the two atomic
    steps of a reset under interleaving. \<open>Selector_Race\<close>: the atomic steps of \<^verbatim>\<open>next\<close> and \<^verbatim>\<open>release\<close>, of
    which the operations of \<open>Balancer\<close> are runs.
  \<^item> \<open>Dial\<close> (\<^verbatim>\<open>upstream/dial.rs\<close>): dialling, writing requests and responses, reading responses. The
    abstract specification is the one-pass parser \<open>parse_response\<close> of a byte sequence.
  \<^item> \<open>Conn_Pool\<close> (\<^verbatim>\<open>upstream/pool.rs\<close>): pool, manager and forwarders as one task runs them.
    \<open>Pool_Concurrency\<close>: every atomic operation of \<^verbatim>\<open>get\<close> and \<^verbatim>\<open>put\<close> as a step of one of any number of
    tasks; bounds, termination by a potential, progress, the schedules that strand waiters, dropped
    futures, and that the sequential operations are runs of this relation.
  \<^item> \<open>Service_Concurrency\<close>: any number of requests between \<^verbatim>\<open>next\<close> and \<^verbatim>\<open>release\<close> at once, with the
    selector, the pools of all upstreams, statistics and dropped futures; its invariants, and that
    the handler of a front end is a run of it.
  \<^item> \<open>Frontend\<close>: the exchange that every front end makes with selector and forwarder, and the locale
    \<open>frontend\<close> with its consequences, interpreted by the five request handlers.
  \<^item> \<open>Proxy_Http\<close> (\<^verbatim>\<open>proxy_http.rs\<close>): reading an HTTP/1.1 request, \<^verbatim>\<open>handle_conn\<close>, the service for HTTP/2.
  \<^item> \<open>Grpc_Proxy\<close> (\<^verbatim>\<open>grpc_proxy.rs\<close>), \<open>Framing\<close> (\<^verbatim>\<open>quic_proxy/framing.rs\<close>), \<open>Quic_Proxy\<close>
    (\<^verbatim>\<open>quic_proxy/mod.rs\<close>), \<open>Tls_Setup\<close> (\<^verbatim>\<open>quic_proxy/tls.rs\<close> and the TLS set-up of the QUIC clients),
    \<open>Smoke_Clients\<close> (the mains of the three crates \<^verbatim>\<open>quic-smoke-client\<close>, \<^verbatim>\<open>http3-smoke-client\<close> and
    \<^verbatim>\<open>grpc-smoke-client\<close>).
  \<^item> \<open>Config\<close> (\<^verbatim>\<open>config.rs\<close>), \<open>Service_Main\<close> and \<open>Worker_Pool\<close> (\<^verbatim>\<open>main.rs\<close>: start-up, the accept
    loops, the acceptor and workers of the pooled mode as a step relation), \<open>Admin_Endpoints\<close>
    (\<^verbatim>\<open>serve_stats\<close>, \<^verbatim>\<open>pprof_server.rs\<close>, \<^verbatim>\<open>tokio_metrics_server.rs\<close>), \<open>Profile_Lock\<close> (concurrent
    profiles and the lock that serialises them). \<open>Tokio_Sync\<close> states what the last two rely on of
    \<^verbatim>\<open>tokio::sync::Mutex\<close> and \<^verbatim>\<open>mpsc\<close>.

  \<^bold>\<open>State.\<close> Structs are records and enums are datatypes with the source's names; atomics are machine words at
  their width and wrap as they do; an operation takes the state and returns its result with the new
  state; every panic, early return and suspended \<^verbatim>\<open>await\<close> is a branch. Loops over a stream are total
  functions whose measure is what is left of the stream, so no fuel is needed. \<open>runtime\<close> collects what
  the code calls and the repository does not contain: the network, the random draws, the iteration
  order of \<^verbatim>\<open>HashMap\<close>, and the operations of \<^verbatim>\<open>tokio::sync::Notify\<close>; \<^verbatim>\<open>httparse\<close>, the response builder
  of \<^verbatim>\<open>http\<close>, JSON, the profiler, \<^verbatim>\<open>tokio::sync::Mutex\<close>, \<^verbatim>\<open>mpsc\<close>, the crypto library and the operating system
  are arguments of the definitions that use them. What the proofs need of them is a named hypothesis
  (\<open>rng_ok\<close>, \<open>hash_order\<close>, \<open>notify_laws\<close>, \<open>http_build_laws\<close>, \<open>mutex_laws\<close>, \<open>chan_laws\<close>,
  \<open>crypto_laws\<close>, \<open>handshake_laws\<close>), and each has an instance in a witness.

  \<^bold>\<open>What is shown.\<close> Counters: statistics are exact under any concurrency, every request that ends gives its
  token and its pool slot back whatever its front end, what dropped requests leave behind is
  accounted for, selection follows the stated policy and never indexes out of range. Streams:
  requests and responses do not depend on segmentation, what is written is read back, truncation is
  an error or (three findings) is not noticed. Pool: the maximum holds and the counter is exact under
  all interleavings, every run ends, and without failures every request is served; with a failed
  dial or a closed connection waiters can be stranded, and every dropped request that dials or has a
  connection takes one from the pool. Pooled server: if no handler panics and \<^verbatim>\<open>accept\<close> does
  not fail, every connection is handled once and received in turn; workers that panic are not replaced. Server: an error of \<^verbatim>\<open>accept\<close> ends the
  service. Profiles run one at a time and in turn, until a client disconnects. End to end: each
  front end relays the upstream's answer, and each smoke client prints it.

  \<^bold>\<open>Not modelled.\<close> The transports (\<^verbatim>\<open>hyper\<close>, \<^verbatim>\<open>tonic\<close>, \<^verbatim>\<open>quinn\<close>, \<^verbatim>\<open>h3\<close>), logging and the installation of the
  crypto provider, generated protobuf code. \<^verbatim>\<open>flush\<close> on a TCP stream does nothing and is left out. In
  the concurrent service one call of \<^verbatim>\<open>next\<close>, \<^verbatim>\<open>release\<close> or \<^verbatim>\<open>stats\<close> is one step; the atomic operations
  inside them are separate in \<open>Selector_Race\<close> and \<open>Stats_Race\<close>, for the counters alone.
  A buffer of up to \<^verbatim>\<open>isize::MAX\<close> bytes is taken to be allocatable (\<open>read_body\<close>, \<open>read_rest\<close>, \<open>read_frame\<close>);
  a process that runs out of memory aborts.

  This theory holds what spans all components.
\<close>

section \<open>All front ends together\<close>

text \<open>One request handled to its end by one of the front ends, and any number of them in turn.\<close>

inductive handled_by :: "'n runtime \<Rightarrow> SelectorKind \<times> 'n ForwarderKind \<Rightarrow> SelectorKind \<times> 'n ForwarderKind \<Rightarrow> bool" for rt where
  by_http11: "\<lbrakk> handle_conn hp rt conn s f = (h, s', f'); h_end h = Ok () \<rbrakk> \<Longrightarrow> handled_by rt (s, f) (s', f')"
| by_http2: "\<lbrakk> handle_hyper_request hb rt req s f = (r, s', f'); returned r \<rbrakk> \<Longrightarrow> handled_by rt (s, f) (s', f')"
| by_grpc: "\<lbrakk> echo rt payload s f = (e, s', f'); returned e \<rbrakk> \<Longrightarrow> handled_by rt (s, f) (s', f')"
| by_quic: "\<lbrakk> handle_quic_stream rt stm s f = (qh, s', f'); returned (qh_end qh) \<rbrakk> \<Longrightarrow> handled_by rt (s, f) (s', f')"
| by_http3: "\<lbrakk> handle_http3_request hb head rt st3 s f = (x, s', f'); returned (fst x) \<rbrakk> \<Longrightarrow> handled_by rt (s, f) (s', f')"

inductive handled_seq :: "SelectorKind \<times> 'n ForwarderKind \<Rightarrow> SelectorKind \<times> 'n ForwarderKind \<Rightarrow> bool" for w0 where
  none: "handled_seq w0 w0"
| another: "\<lbrakk> handled_seq w0 w; handled_by rt w w'; rng_ok (rt_rng rt) \<rbrakk> \<Longrightarrow> handled_seq w0 w'"

inductive_cases handled_byE: "handled_by rt (s, f) (s', f')"

lemmas front_end_session = http11.keeps_session hyper.keeps_session grpc.keeps_session quic.keeps_session http3.keeps_session
lemmas front_end_slots = http11.keeps_slots hyper.keeps_slots grpc.keeps_slots quic.keeps_slots http3.keeps_slots
lemmas front_end_serving = http11.keeps_serving hyper.keeps_serving grpc.keeps_serving quic.keeps_serving http3.keeps_serving

lemma handled_session:
  assumes "handled_by rt (s, f) (s', f')" and "sel_session s0 s M H" and "rng_ok (rt_rng rt)"
  shows "\<exists>H'. sel_session s0 s' M H'"
  using assms(1) by (rule handled_byE) (use front_end_session assms(2,3) in metis)+

lemma handled_slots: "handled_by rt (s, f) (s', f') \<Longrightarrow> fwd_inv held f \<Longrightarrow> fwd_inv held f'"
  by (erule handled_byE) (use front_end_slots in metis)+

lemma handled_serving: "handled_by rt (s, f) (s', f') \<Longrightarrow> serves f s \<Longrightarrow> serves f' s'"
  by (erule handled_byE) (use front_end_serving in metis)+

lemma handled_seq_keeps:
  assumes "handled_seq w0 w" and "serves (snd w0) (fst w0)" and "fwd_inv held (snd w0)"
  shows "(\<exists>H. sel_session (fst w0) (fst w) {#} H) \<and> serves (snd w) (fst w) \<and> fwd_inv held (snd w)"
  using assms
proof (induction rule: handled_seq.induct)
  case none
  then show ?case using sel_session.fresh by blast
next
  case (another w rt w')
  obtain s f s' f' where "w = (s, f)" "w' = (s', f')" by (metis prod.exhaust)
  then show ?case
    using another handled_session handled_slots [of rt s f s' f'] handled_serving [of rt s f s' f'] by fastforce
qed

text \<open>C4: Nothing leaks, whatever the front end: in every configuration that starts, after any sequence of
  requests that were handled to their end (answered, refused, or unreadable) by any of the five
  front ends, all in-flight counters are zero, no pool has a slot lent out or exceeds its maximum, and
  the selector still names only upstreams for which the forwarder has a pool.\<close>

theorem all_front_ends_settle:
  assumes "main_start nt os u e = Ok svc" and "handled_seq (sc_selector svc, sc_forwarder svc) (s, f)"
    and "length (upstream_addrs (config_load e)) \<le> 2 ^ 31"
  shows "(\<forall>c. counters_of s = Some c \<longrightarrow> set (c_inflight c) \<subseteq> {0}) \<and> fwd_inv (\<lambda>_. 0) f \<and> serves f s"
proof -
  let ?as = "upstream_addrs (config_load e)" and ?st = "lb_strategy (config_load e)"
  note svc = main_start_parts [OF assms(1)]
  have "fwd_inv (\<lambda>_. 0) (sc_forwarder svc)" using svc(2) fwd_inv_new pooled_forwarder_def fwd_inv.simps(1) by metis
  then obtain H where H: "sel_session (new_selector ?as ?st) s {#} H" and rest: "serves f s" "fwd_inv (\<lambda>_. 0) f"
    using handled_seq_keeps [OF assms(2)] main_start_serves [OF assms(1)] svc(1) by auto
  have "set (c_inflight c) \<subseteq> {0}" if "counters_of s = Some c" for c
    using session_inflight [OF H assms(3)] that by (auto split: if_splits)
  with rest show ?thesis by blast
qed

theorem all_front_ends_settle_witness:
  "\<exists>s f. handled_by (example_runtime ConnectElapsed)
      (new_selector [''upstream:9000''] LB_ROUND_ROBIN, PoolF (manager_new (rt_notify (example_runtime ConnectElapsed)) [''upstream:9000''] 16)) (s, f)
    \<and> (\<forall>c. counters_of s = Some c \<longrightarrow> set (c_inflight c) \<subseteq> {0}) \<and> fwd_inv (\<lambda>_. 0) f"
proof -
  let ?rt = "example_runtime ConnectElapsed"
  let ?s = "new_selector [''upstream:9000''] LB_ROUND_ROBIN"
  let ?f = "PoolF (manager_new (rt_notify ?rt) [''upstream:9000''] 16)"
  have lb: "utf8_valid LB_ROUND_ROBIN" by (rule utf8_valid_ascii) (simp add: LB_ROUND_ROBIN_def)
  obtain r s f where run: "echo ?rt ''hi'' ?s ?f = (r, s, f)" by (metis prod_cases3)
  then have "returned r"
    by (auto simp: echo_def exchange_def sel_simps crr_next_def pick_def crr_release_def counters_release_def manager_new_lookup
        forward_pooled_def pool_get_def pool_new_def dial_def example_runtime_def Let_def split: outcome.splits prod.splits)
  with run have h: "handled_by ?rt (?s, ?f) (s, f)" by (rule handled_by.by_grpc)
  have "rng_ok (rt_rng ?rt)" by (simp add: example_runtime_def rng_ok_def)
  from handled_seq.another [OF handled_seq.none h this] have sq: "handled_seq (?s, ?f) (s, f)" .
  have "(\<forall>c. counters_of s = Some c \<longrightarrow> set (c_inflight c) \<subseteq> {0}) \<and> fwd_inv (\<lambda>_. 0) f \<and> serves f s"
    by (rule all_front_ends_settle [OF example_start [OF lb, of "rt_notify ?rt"]])
       (use sq lb in \<open>simp_all add: mode_env_config\<close>)
  with h show ?thesis by blast
qed

text \<open>C5: Every handler of every front end is a run of the concurrent service: a request that one of the five
  front ends handles to its end takes, as task \<open>t\<close>, the steps from \<open>Arrived\<close> to \<open>Completed\<close>, on the same
  selector and the same pools and with the same effect on them, whatever the other tasks are doing
  there; or it could not be read, and touches neither. So what holds in every reachable state of the
  concurrent service covers the handlers.\<close>

theorem front_ends_are_runs:
  assumes "handled_by rt (s, f) (s', f')" and "rng_ok (rt_rng rt)" and "rt_task rt = t"
    and "t < length ps" and "ps ! t = Arrived" and "\<And>a. length (ts a) = length ps" and "\<And>a. ts a ! t = Finished"
  shows "s' = s \<and> f' = f \<or> (sstep (rt_notify rt))\<^sup>*\<^sup>* (world_of s f ts ps) (world_of s' f' ts (ps[t := Completed]))"
  using assms(1)
proof (rule handled_byE)
  fix hp conn h
  assume "handle_conn hp rt conn s f = (h, s', f')" and "h_end h = Ok ()"
  then show ?thesis using frontend.is_run [OF http11.frontend_axioms _ _ assms(2-5), where ts = ts] assms(6,7) by blast
next
  fix hb req r
  assume "handle_hyper_request hb rt req s f = (r, s', f')" and "returned r"
  then show ?thesis using frontend.is_run [OF hyper.frontend_axioms _ _ assms(2-5), where ts = ts] assms(6,7) by blast
next
  fix payload e
  assume "echo rt payload s f = (e, s', f')" and "returned e"
  then show ?thesis using frontend.is_run [OF grpc.frontend_axioms _ _ assms(2-5), where ts = ts] assms(6,7) by blast
next
  fix stm qh
  assume "handle_quic_stream rt stm s f = (qh, s', f')" and "returned (qh_end qh)"
  then show ?thesis using frontend.is_run [OF quic.frontend_axioms _ _ assms(2-5), where ts = ts] assms(6,7) by blast
next
  fix hb head st3 x
  assume "handle_http3_request hb head rt st3 s f = (x, s', f')" and "returned (fst x)"
  then show ?thesis using frontend.is_run [OF http3.frontend_axioms _ _ assms(2-5), where ts = ts] assms(6,7) by blast
qed

theorem front_ends_are_runs_witness:
  "\<exists>r s' f'. echo (example_runtime ConnectElapsed) ''hi'' (new_selector [''u:1''] LB_ROUND_ROBIN) DialF = (r, s', f')
    \<and> (s' = new_selector [''u:1''] LB_ROUND_ROBIN \<and> f' = DialF
       \<or> (sstep (rt_notify (example_runtime ConnectElapsed)))\<^sup>*\<^sup>* (world_of (new_selector [''u:1''] LB_ROUND_ROBIN) DialF (\<lambda>_. [Finished, GetAdd]) [Arrived, Forwarding ''u:1'' 0])
           (world_of s' f' (\<lambda>_. [Finished, GetAdd]) [Completed, Forwarding ''u:1'' 0]))"
proof -
  let ?rt = "example_runtime ConnectElapsed"
  let ?s = "new_selector [''u:1''] LB_ROUND_ROBIN"
  obtain r s f where run: "echo ?rt ''hi'' ?s DialF = (r, s, f)" by (metis prod_cases3)
  then have "returned r"
    by (auto simp: echo_def exchange_def sel_simps crr_next_def pick_def crr_release_def counters_release_def
        forward_http_def dial_def example_runtime_def Let_def split: outcome.splits prod.splits)
  with run have h: "handled_by ?rt (?s, DialF) (s, f)" by (rule handled_by.by_grpc)
  have "rng_ok (rt_rng ?rt)" and "rt_task ?rt = 0" by (simp_all add: example_runtime_def rng_ok_def)
  from front_ends_are_runs [OF h this, of "[Arrived, Forwarding ''u:1'' 0]" "\<lambda>_. [Finished, GetAdd]"] run show ?thesis
    by simp
qed

section \<open>Every configuration that starts can forward\<close>

text \<open>
  The selector never names an upstream for which the forwarder has no pool: in every configuration
  that starts, after any number of requests of any front ends, the error \<^verbatim>\<open>no pool for ..\<close> of the
  pooled forwarder does not occur.
\<close>

lemma never_missing_pool:
  assumes "main_start nt os u e = Ok svc" and "after_exchanges (sc_selector svc, sc_forwarder svc) (s, f)"
    and "exchange rt mk s f = (Err (a, ParseError m), s', f')"
  shows "m \<noteq> ''no pool for '' @ b"
proof -
  have "serves f s" using after_exchanges_serves [OF assms(2)] main_start_serves [OF assms(1)] by simp
  then show ?thesis using exchange_pool_found [OF assms(3)] own_parse_error_pool by blast
qed

end
